(* ===== verification/Prelude.thy ===== *)
theory Prelude
  imports Main "HOL-Library.Monad_Syntax"
begin

text \<open>
  The prelude of the development: the fact collections the component theories fill, the
  model of the C assertion, the walk and search loops over an index-valued successor
  function (the shape of every linked structure under \<^verbatim>\<open>src/containers\<close>),
  and the generic lemmas on lists and arithmetic that several components share.
\<close>

named_theorems link_simps "how an update of a link array changes its successor and predecessor maps"
named_theorems rep_simps "equations between a container's fields and its abstraction"

section \<open>Assertions\<close>

text \<open>
  The containers check their preconditions with \<^verbatim>\<open>assert\<close>.  An operation that
  asserts is modelled in the option monad: \<^term>\<open>None\<close> is the aborted run.  The theorems
  then say that the run is not aborted.
\<close>

definition cassert :: "bool \<Rightarrow> unit option" where
  "cassert b = (if b then Some () else None)"

lemma cassert_simps [simp]:
  "cassert True = Some ()"
  "cassert False = None"
  "(cassert b = Some u) = b"
  "(cassert b = None) = (\<not> b)"
  by (simp_all add: cassert_def)

section \<open>Walking an index-valued successor function\<close>

text \<open>\<^term>\<open>walk f i n\<close> lists the first \<open>n\<close> indices met from \<open>i\<close> on.\<close>

primrec walk :: "(nat \<Rightarrow> nat) \<Rightarrow> nat \<Rightarrow> nat \<Rightarrow> nat list" where
  "walk f i 0 = []"
| "walk f i (Suc n) = i # walk f (f i) n"

lemma length_walk [simp]: "length (walk f i n) = n"
  by (induction n arbitrary: i) auto

text \<open>
  \<^term>\<open>seg f a xs b\<close>: from \<open>a\<close> the successor function passes through exactly \<open>xs\<close>
  and then reaches \<open>b\<close>.
\<close>

primrec seg :: "(nat \<Rightarrow> nat) \<Rightarrow> nat \<Rightarrow> nat list \<Rightarrow> nat \<Rightarrow> bool" where
  "seg f a [] b \<longleftrightarrow> f a = b"
| "seg f a (x # xs) b \<longleftrightarrow> f a = x \<and> seg f x xs b"

lemma seg_append: "seg f a (xs @ ys) b \<longleftrightarrow> seg f a xs (hd (ys @ [b])) \<and> seg f (last (a # xs)) ys b"
  by (induction xs arbitrary: a) (cases ys; auto)+

lemma seg_upd_notin [simp]:
  "u \<noteq> a \<Longrightarrow> u \<notin> set xs \<Longrightarrow> seg (f(u := v)) a xs b = seg f a xs b"
  by (induction xs arbitrary: a) auto

lemma seg_cong: "(\<And>x. x \<in> insert a (set xs) \<Longrightarrow> f x = g x) \<Longrightarrow> seg f a xs b = seg g a xs b"
  by (induction xs arbitrary: a) auto

lemma seg_retarget:
  "seg f a xs b \<Longrightarrow> distinct (a # xs) \<Longrightarrow> seg (f(last (a # xs) := c)) a xs c"
proof (induction xs arbitrary: a)
  case (Cons x xs)
  have "last (x # xs) \<noteq> a" using Cons.prems(2) last_in_set by fastforce
  with Cons.IH [of x] Cons.prems show ?case by (auto simp: fun_upd_def)
qed simp

lemma seg_walk: "seg f a xs b \<Longrightarrow> walk f (f a) (length xs) = xs"
  by (induction xs arbitrary: a) auto

lemma seg_end: "seg f a xs b \<Longrightarrow> (f ^^ Suc (length xs)) a = b"
  by (induction xs arbitrary: a) (auto simp: funpow_swap1)

lemma seg_first: "seg f a xs b \<Longrightarrow> f a = hd (xs @ [b])"
  by (cases xs) auto

text \<open>\<^term>\<open>chain f i xs\<close>: the 0-terminated chain that starts at the index \<open>i\<close> is \<open>xs\<close>.\<close>

primrec chain :: "(nat \<Rightarrow> nat) \<Rightarrow> nat \<Rightarrow> nat list \<Rightarrow> bool" where
  "chain f i [] \<longleftrightarrow> i = 0"
| "chain f i (x # xs) \<longleftrightarrow> i = x \<and> x \<noteq> 0 \<and> chain f (f x) xs"

lemma chain_upd_notin [simp]: "u \<notin> set xs \<Longrightarrow> chain (f(u := v)) i xs = chain f i xs"
  by (induction xs arbitrary: i) auto

lemma chain_cong: "(\<And>x. x \<in> set xs \<Longrightarrow> f x = g x) \<Longrightarrow> chain f i xs = chain g i xs"
  by (induction xs arbitrary: i) auto

lemma chain_walk: "chain f i xs \<Longrightarrow> walk f i (length xs) = xs"
  by (induction xs arbitrary: i) auto

lemma chain_unique: "chain f i xs \<Longrightarrow> chain f i ys \<Longrightarrow> xs = ys"
proof (induction xs arbitrary: i ys)
  case Nil
  then show ?case by (cases ys) auto
next
  case (Cons x xs)
  then show ?case by (cases ys) auto
qed

lemma chain_0_notin: "chain f i xs \<Longrightarrow> 0 \<notin> set xs"
  by (induction xs arbitrary: i) auto

lemma chain_start_0: "chain f i xs \<Longrightarrow> i = 0 \<longleftrightarrow> xs = []"
  by (cases xs) auto

lemma chain_nonempty: "chain f i xs \<Longrightarrow> i \<noteq> 0 \<Longrightarrow> \<exists>ys. xs = i # ys \<and> chain f (f i) ys"
  by (cases xs) auto

lemma chain_suffix: "chain f i (xs @ y # ys) \<Longrightarrow> chain f (f y) ys"
  by (induction xs arbitrary: i) auto

lemma chain_last: "chain f i (xs @ [y]) \<Longrightarrow> f y = 0"
  using chain_suffix [of f i xs y "[]"] by simp

lemma chain_remove:
  "chain f i (us @ x # ws) \<Longrightarrow> distinct (us @ x # ws) \<Longrightarrow> us \<noteq> [] \<Longrightarrow>
   chain (f(last us := f x)) i (us @ ws)"
proof (induction us arbitrary: i)
  case (Cons u us)
  show ?case
  proof (cases us)
    case Nil
    with Cons.prems have "chain f (f x) ws" "u \<notin> set ws" "u \<noteq> 0" "i = u" by auto
    with Nil show ?thesis by (simp del: fun_upd_apply) simp
  next
    case (Cons v vs)
    have "last us \<noteq> u" using Cons Cons.prems(2) last_in_set [of us] by auto
    with Cons Cons.IH [of "f u"] Cons.prems show ?thesis by auto
  qed
qed simp

text \<open>\<^term>\<open>chase f i n\<close> reads a 0-terminated chain of at most \<open>n\<close> indices.\<close>

primrec chase :: "(nat \<Rightarrow> nat) \<Rightarrow> nat \<Rightarrow> nat \<Rightarrow> nat list" where
  "chase f i 0 = []"
| "chase f i (Suc n) = (if i = 0 then [] else i # chase f (f i) n)"

lemma chase_chain: "chain f i xs \<Longrightarrow> length xs \<le> n \<Longrightarrow> chase f i n = xs"
proof (induction xs arbitrary: i n)
  case Nil
  then show ?case by (cases n) auto
next
  case (Cons x xs)
  then show ?case by (cases n) auto
qed

section \<open>The search loop\<close>

text \<open>
  \<^verbatim>\<open>for (i = start; i != 0; i = next(i)) if (p(i)) return i; return 0;\<close>, the
  loop of every lookup in the linked containers.  On a cyclic chain it does not return,
  which is \<^term>\<open>None\<close>.
\<close>

partial_function (option) seek :: "(nat \<Rightarrow> nat) \<Rightarrow> (nat \<Rightarrow> bool) \<Rightarrow> nat \<Rightarrow> nat option" where
  "seek f p i = (if i = 0 then Some 0 else if p i then Some i else seek f p (f i))"

declare seek.simps [code]

definition found :: "nat option \<Rightarrow> nat" where
  "found r = (case r of None \<Rightarrow> 0 | Some i \<Rightarrow> i)"

lemma found_simps [simp]: "found None = 0" "found (Some i) = i"
  by (simp_all add: found_def)

lemma seek_chain: "chain f i xs \<Longrightarrow> seek f p i = Some (found (List.find p xs))"
  by (induction xs arbitrary: i) (auto simp: seek.simps)

lemma found_find_0: "0 \<notin> set xs \<Longrightarrow> found (List.find p xs) = 0 \<longleftrightarrow> (\<forall>x \<in> set xs. \<not> p x)"
  by (induction xs) auto

lemma found_find_nonzero:
  "found (List.find p xs) \<noteq> 0 \<Longrightarrow> found (List.find p xs) \<in> set xs \<and> p (found (List.find p xs))"
  by (induction xs) (auto split: if_splits)

lemma found_find_split:
  "found (List.find p xs) = x \<Longrightarrow> x \<noteq> 0 \<Longrightarrow>
   \<exists>ys zs. xs = ys @ x # zs \<and> p x \<and> (\<forall>y \<in> set ys. \<not> p y)"
proof (induction xs)
  case (Cons y ys)
  show ?case
  proof (cases "p y")
    case True
    with Cons.prems have "y # ys = [] @ x # ys" by simp
    with True Cons.prems show ?thesis by (metis empty_iff empty_set found_simps(2) List.find.simps(2))
  next
    case False
    with Cons obtain us zs where "ys = us @ x # zs" "p x" "\<forall>u \<in> set us. \<not> p u" by auto
    with False show ?thesis by (intro exI [of _ "y # us"] exI [of _ zs]) auto
  qed
qed simp

section \<open>Lists\<close>

lemma map_upd_notin [simp]: "x \<notin> set xs \<Longrightarrow> map (g(x := y)) xs = map g xs"
  by (induction xs) auto

lemma distinct_split_unique:
  "distinct (ys @ x # zs) \<Longrightarrow> remove1 x (ys @ x # zs) = ys @ zs"
  by (induction ys) auto

lemma removeAll_split:
  "distinct (ys @ x # zs) \<Longrightarrow> removeAll x (ys @ x # zs) = ys @ zs"
  by (auto simp: removeAll_id)

lemma card_interval_length: "distinct xs \<Longrightarrow> set xs = {1..n} \<Longrightarrow> length xs = n"
  using distinct_card [of xs] by simp

lemma nth_append_take: "n \<le> length xs \<Longrightarrow> i < n \<Longrightarrow> take n xs ! i = xs ! i"
  by simp

text \<open>Writing a cell for every index of a list; the cell of index \<open>j\<close> is \<open>j - 1\<close>.\<close>

definition upd_all :: "(nat \<Rightarrow> 'a) \<Rightarrow> nat list \<Rightarrow> 'a list \<Rightarrow> 'a list" where
  "upd_all g xs vs = fold (\<lambda>j v. v[j - 1 := g j]) xs vs"

lemma upd_all_simps [simp]:
  "upd_all g [] vs = vs"
  "upd_all g (x # xs) vs = upd_all g xs (vs[x - 1 := g x])"
  by (simp_all add: upd_all_def)

lemma length_upd_all [simp]: "length (upd_all g xs vs) = length vs"
  by (induction xs arbitrary: vs) simp_all

lemma upd_all_nth:
  "\<forall>j \<in> set xs. 0 < j \<Longrightarrow> 0 < i \<Longrightarrow> i \<le> length vs \<Longrightarrow>
   upd_all g xs vs ! (i - 1) = (if i \<in> set xs then g i else vs ! (i - 1))"
proof (induction xs arbitrary: vs)
  case (Cons x xs)
  then show ?case by (cases "i = x") (auto simp: nth_list_update)
qed simp

text \<open>A list of lists with one of its lists replaced.\<close>

lemma concat_split:
  "b < length cs \<Longrightarrow> concat cs = concat (take b cs) @ cs ! b @ concat (drop (Suc b) cs)"
  by (metis concat.simps(2) concat_append id_take_nth_drop)

lemma concat_upd:
  "b < length cs \<Longrightarrow> concat (cs[b := ys]) = concat (take b cs) @ ys @ concat (drop (Suc b) cs)"
  by (simp add: upd_conv_take_nth_drop)

lemma in_concat_nth: "x \<in> set (concat cs) \<longleftrightarrow> (\<exists>b < length cs. x \<in> set (cs ! b))"
  by (metis UN_iff in_set_conv_nth set_concat)

lemma hd_concat_nonempty:
  "concat cs \<noteq> [] \<Longrightarrow> \<exists>b < length cs. cs ! b \<noteq> [] \<and> hd (concat cs) = hd (cs ! b)"
proof (induction cs)
  case (Cons c cs)
  show ?case
  proof (cases "c = []")
    case True
    with Cons obtain b where "b < length cs" "cs ! b \<noteq> []" "hd (concat cs) = hd (cs ! b)" by auto
    with True show ?thesis by (intro exI [of _ "Suc b"]) simp
  next
    case False
    then show ?thesis by (intro exI [of _ 0]) simp
  qed
qed simp

lemma concat_distinct_nth:
  assumes "distinct (concat cs)" "x \<in> set (cs ! b)" "x \<in> set (cs ! c)" "b < length cs" "c < length cs"
  shows "b = c"
proof (rule ccontr)
  assume ne: "b \<noteq> c"
  have d: "x \<notin> set (concat (take b cs))" "x \<notin> set (concat (drop (Suc b) cs))"
    using assms(1,2) concat_split [OF assms(4)] by auto
  have "x \<in> set (concat (take b cs)) \<or> x \<in> set (concat (drop (Suc b) cs))"
  proof (cases "c < b")
    case True
    then have "cs ! c \<in> set (take b cs)" using assms(5) by (auto simp: in_set_conv_nth)
    with assms(3) show ?thesis by auto
  next
    case False
    then have "drop (Suc b) cs ! (c - Suc b) = cs ! c" "c - Suc b < length (drop (Suc b) cs)"
      using ne assms(5) by auto
    then have "cs ! c \<in> set (drop (Suc b) cs)" by (metis nth_mem)
    with assms(3) show ?thesis by auto
  qed
  with d show False by blast
qed

section \<open>Arithmetic of indices into a ring\<close>

lemma mod_succ: "(i::nat) < n \<Longrightarrow> (i + 1) mod n = (if i + 1 = n then 0 else i + 1)"
  by (auto simp: mod_if)

lemma mod_less_double: "(a::nat) < n \<Longrightarrow> b \<le> n \<Longrightarrow> (a + b) mod n = (if a + b < n then a + b else a + b - n)"
  by (auto simp: mod_if)

end
