(* ===== verification/Links.thy ===== *)
theory Links
  imports Prelude
begin

text \<open>
  The structures of \<^verbatim>\<open>src/containers/inner/base_struct.h\<close>, and the two linked
  shapes built from them: the circular doubly linked list whose header is slot 0 (the
  order list of \<^verbatim>\<open>BaseMemList\<close>, the recency list of \<^verbatim>\<open>BaseMemLRUSet\<close>,
  the list of allocated nodes of \<^verbatim>\<open>FixedMemPool\<close>), and the free chain threaded
  through the \<^verbatim>\<open>next\<close> fields of released slots.
\<close>

section \<open>The structures\<close>

text \<open>\<^verbatim>\<open>Link\<close>: both members are value-initialised to 0.\<close>

record link =
  lk_prev :: nat
  lk_next :: nat

definition link0 :: link where
  "link0 = \<lparr>lk_prev = 0, lk_next = 0\<rparr>"

text \<open>\<^verbatim>\<open>Pair\<close>: a key and its value.\<close>

record ('k, 'v) kv =
  kv_first :: 'k
  kv_second :: 'v

section \<open>Arrays of links\<close>

definition nx :: "link list \<Rightarrow> nat \<Rightarrow> nat" where
  "nx m i = lk_next (m ! i)"

definition pv :: "link list \<Rightarrow> nat \<Rightarrow> nat" where
  "pv m i = lk_prev (m ! i)"

definition set_next :: "link list \<Rightarrow> nat \<Rightarrow> nat \<Rightarrow> link list" where
  "set_next m i v = m[i := (m ! i)\<lparr>lk_next := v\<rparr>]"

definition set_prev :: "link list \<Rightarrow> nat \<Rightarrow> nat \<Rightarrow> link list" where
  "set_prev m i v = m[i := (m ! i)\<lparr>lk_prev := v\<rparr>]"

lemma length_set_link [simp]:
  "length (set_next m i v) = length m"
  "length (set_prev m i v) = length m"
  by (simp_all add: set_next_def set_prev_def)

lemma nx_set_next [link_simps]: "i < length m \<Longrightarrow> nx (set_next m i v) = (nx m)(i := v)"
  by (auto simp: nx_def set_next_def fun_eq_iff nth_list_update)

lemma nx_set_prev [link_simps]: "nx (set_prev m i v) = nx m"
  by (cases "i < length m")
    (auto simp: nx_def set_prev_def fun_eq_iff nth_list_update list_update_beyond)

lemma pv_set_prev [link_simps]: "i < length m \<Longrightarrow> pv (set_prev m i v) = (pv m)(i := v)"
  by (auto simp: pv_def set_prev_def fun_eq_iff nth_list_update)

lemma pv_set_next [link_simps]: "pv (set_next m i v) = pv m"
  by (cases "i < length m")
    (auto simp: pv_def set_next_def fun_eq_iff nth_list_update list_update_beyond)

lemma nx_upd_link0 [link_simps]: "i < length m \<Longrightarrow> nx (m[i := link0]) = (nx m)(i := 0)"
  by (auto simp: nx_def link0_def fun_eq_iff nth_list_update)

lemma pv_upd_link0 [link_simps]: "i < length m \<Longrightarrow> pv (m[i := link0]) = (pv m)(i := 0)"
  by (auto simp: pv_def link0_def fun_eq_iff nth_list_update)

section \<open>The circular doubly linked list with header 0\<close>

definition dll :: "link list \<Rightarrow> nat list \<Rightarrow> bool" where
  "dll m xs \<longleftrightarrow> distinct xs \<and> 0 \<notin> set xs \<and> (\<forall>x \<in> set xs. x < length m) \<and> 0 < length m
     \<and> seg (nx m) 0 xs 0 \<and> seg (pv m) 0 (rev xs) 0"

lemma seg_insert:
  assumes "seg f 0 (ys @ zs) 0" "distinct (ys @ zs)" "0 \<notin> set (ys @ zs)"
    and "i \<notin> set (ys @ zs)" "i \<noteq> 0"
  shows "seg (f(last (0 # ys) := i, i := hd (zs @ [0]))) 0 (ys @ i # zs) 0"
proof -
  define l where "l = last (0 # ys)"
  have l: "l \<in> insert 0 (set ys)" using last_in_set [of "0 # ys"] by (simp add: l_def)
  from assms(1) have "seg f 0 ys (hd (zs @ [0]))" and z: "seg f l zs 0"
    by (simp_all add: seg_append l_def)
  then have "seg (f(l := i)) 0 ys i"
    using assms(2,3) unfolding l_def by (intro seg_retarget) auto
  then have y: "seg (f(l := i, i := hd (zs @ [0]))) 0 ys i"
    using assms(4,5) by simp
  have "seg (f(l := i, i := hd (zs @ [0]))) i zs 0"
  proof (cases zs)
    case (Cons z zs')
    with z have "seg f z zs' 0" by simp
    moreover have "l \<noteq> z" "l \<notin> set zs'" "i \<noteq> z" "i \<notin> set zs'"
      using assms(2-5) l Cons by auto
    ultimately show ?thesis using Cons by simp
  qed simp
  then have "seg (f(l := i, i := hd (zs @ [0]))) l (i # zs) 0"
    using assms(4,5) l by auto
  with y show ?thesis unfolding l_def seg_append by simp
qed

lemma seg_remove:
  assumes "seg f 0 (ys @ x # zs) 0" "distinct (ys @ x # zs)" "0 \<notin> set (ys @ x # zs)"
  shows "seg (f(last (0 # ys) := hd (zs @ [0]))) 0 (ys @ zs) 0"
proof -
  define l where "l = last (0 # ys)"
  have l: "l \<in> insert 0 (set ys)" using last_in_set [of "0 # ys"] by (simp add: l_def)
  from assms(1) have y: "seg f 0 ys x" and z: "seg f x zs 0"
    by (simp_all add: seg_append)
  have "seg (f(l := hd (zs @ [0]))) 0 ys (hd (zs @ [0]))"
    using y assms(2,3) unfolding l_def by (intro seg_retarget) auto
  moreover have "seg (f(l := hd (zs @ [0]))) l zs 0"
  proof (cases zs)
    case (Cons z' zs')
    with z have "seg f z' zs' 0" by simp
    moreover have "l \<noteq> z'" "l \<notin> set zs'"
      using assms(2,3) l Cons by auto
    ultimately show ?thesis using Cons by simp
  qed simp
  ultimately show ?thesis unfolding l_def seg_append by simp
qed

lemma rev_ends: "last (0 # rev zs) = hd (zs @ [0])" "hd (rev ys @ [0]) = last (0 # ys)"
  by (cases zs; simp) (cases ys rule: rev_cases; simp)

text \<open>Linking a new slot between a node and its successor.\<close>

lemma dll_insert:
  assumes "dll m (ys @ zs)" "i \<notin> set (ys @ zs)" "i \<noteq> 0" "i < length m"
    and len: "length m' = length m"
    and n: "nx m' = (nx m)(last (0 # ys) := i, i := hd (zs @ [0]))"
    and p: "pv m' = (pv m)(hd (zs @ [0]) := i, i := last (0 # ys))"
  shows "dll m' (ys @ i # zs)"
proof -
  note d = assms(1) [unfolded dll_def]
  have "seg (nx m') 0 (ys @ i # zs) 0"
    unfolding n using d assms(2,3) by (intro seg_insert) auto
  moreover have "seg (pv m') 0 (rev zs @ i # rev ys) 0"
  proof -
    have "seg ((pv m)(last (0 # rev zs) := i, i := hd (rev ys @ [0]))) 0 (rev zs @ i # rev ys) 0"
      using d assms(2,3) by (intro seg_insert) auto
    then show ?thesis unfolding p rev_ends .
  qed
  ultimately show ?thesis using d assms(2-4) len unfolding dll_def by auto
qed

text \<open>Unlinking a slot.\<close>

lemma dll_remove:
  assumes "dll m (ys @ x # zs)" and len: "length m' = length m"
    and n: "\<And>j. j \<noteq> x \<Longrightarrow> nx m' j = ((nx m)(last (0 # ys) := hd (zs @ [0]))) j"
    and p: "\<And>j. j \<noteq> x \<Longrightarrow> pv m' j = ((pv m)(hd (zs @ [0]) := last (0 # ys))) j"
  shows "dll m' (ys @ zs)"
proof -
  note d = assms(1) [unfolded dll_def]
  have x: "x \<notin> insert 0 (set (ys @ zs))" using d by auto
  have "seg ((nx m)(last (0 # ys) := hd (zs @ [0]))) 0 (ys @ zs) 0"
    using d by (intro seg_remove) auto
  moreover have "seg (nx m') 0 (ys @ zs) 0 = seg ((nx m)(last (0 # ys) := hd (zs @ [0]))) 0 (ys @ zs) 0"
    by (rule seg_cong, rule n) (use x in blast)
  ultimately have "seg (nx m') 0 (ys @ zs) 0" by blast
  moreover have "seg (pv m') 0 (rev zs @ rev ys) 0"
  proof -
    have "seg ((pv m)(last (0 # rev zs) := hd (rev ys @ [0]))) 0 (rev zs @ rev ys) 0"
      using d by (intro seg_remove) auto
    moreover have "seg (pv m') 0 (rev zs @ rev ys) 0
        = seg ((pv m)(hd (zs @ [0]) := last (0 # ys))) 0 (rev zs @ rev ys) 0"
      by (rule seg_cong, rule p) (use x in auto)
    ultimately show ?thesis unfolding rev_ends by blast
  qed
  ultimately show ?thesis using d len unfolding dll_def by auto
qed

lemma dll_nx: "dll m (ys @ x # zs) \<Longrightarrow> nx m x = hd (zs @ [0])"
  by (cases zs) (auto simp: dll_def seg_append)

lemma dll_pv: "dll m (ys @ x # zs) \<Longrightarrow> pv m x = last (0 # ys)"
  by (cases ys rule: rev_cases) (auto simp: dll_def seg_append)

lemma dll_first: "dll m xs \<Longrightarrow> nx m 0 = hd (xs @ [0])"
  by (auto simp: dll_def dest: seg_first)

lemma dll_last: "dll m xs \<Longrightarrow> pv m 0 = last (0 # xs)"
  by (cases xs rule: rev_cases) (auto simp: dll_def dest: seg_first)

lemma dll_walk: "dll m xs \<Longrightarrow> walk (nx m) (nx m 0) (length xs) = xs"
  by (auto simp: dll_def intro: seg_walk)

lemma dll_walk_back: "dll m xs \<Longrightarrow> walk (pv m) (pv m 0) (length xs) = rev xs"
  using seg_walk [of "pv m" 0 "rev xs" 0] by (auto simp: dll_def)

lemma dll_Nil: "dll m [] \<longleftrightarrow> 0 < length m \<and> nx m 0 = 0 \<and> pv m 0 = 0"
  by (auto simp: dll_def)

lemma seg_chain: "seg f a xs 0 \<Longrightarrow> 0 \<notin> set xs \<Longrightarrow> chain f (f a) xs"
  by (induction xs arbitrary: a) auto

lemma dll_chain: "dll m xs \<Longrightarrow> chain (nx m) (nx m 0) xs"
  by (auto simp: dll_def intro: seg_chain)

lemma dll_ends_in_range:
  "dll m (ys @ zs) \<Longrightarrow> last (0 # ys) < length m \<and> hd (zs @ [0]) < length m"
  by (cases ys rule: rev_cases; cases zs) (auto simp: dll_def)

lemma dll_distinct: "dll m xs \<Longrightarrow> distinct xs"
  and dll_0_notin: "dll m xs \<Longrightarrow> 0 \<notin> set xs"
  and dll_in_range: "dll m xs \<Longrightarrow> x \<in> set xs \<Longrightarrow> x < length m"
  and dll_length_pos: "dll m xs \<Longrightarrow> 0 < length m"
  by (auto simp: dll_def)

text \<open>A write to a slot outside the list, or to no link of it, leaves the list alone.\<close>

lemma dll_frame:
  assumes "dll m xs" "length m' = length m"
    and "\<And>j. j \<in> insert 0 (set xs) \<Longrightarrow> nx m' j = nx m j"
    and "\<And>j. j \<in> insert 0 (set xs) \<Longrightarrow> pv m' j = pv m j"
  shows "dll m' xs"
proof -
  have "seg (nx m') 0 xs 0 = seg (nx m) 0 xs 0" "seg (pv m') 0 (rev xs) 0 = seg (pv m) 0 (rev xs) 0"
    using assms(3,4) by (auto intro!: seg_cong)
  then show ?thesis using assms(1,2) by (auto simp: dll_def)
qed

section \<open>The two list moves of the code\<close>

text \<open>
  \<^verbatim>\<open>m_link[head.next].prev = i; m_link[i].prev = 0; m_link[i].next = head.next;
  head.next = i;\<close>: the statements with which \<^verbatim>\<open>BaseMemList::push_front\<close>,
  \<^verbatim>\<open>BaseMemLRUSet::insert\<close> and \<^verbatim>\<open>BaseMemLRUSet::active\<close> put a slot in front.
\<close>

definition link_front :: "link list \<Rightarrow> nat \<Rightarrow> link list" where
  "link_front m i =
     (let m = set_prev m (nx m 0) i;
          m = set_prev m i 0;
          m = set_next m i (nx m 0)
      in set_next m 0 i)"

text \<open>
  \<^verbatim>\<open>m_link[prev].next = next; m_link[next].prev = prev;\<close>: taking a slot out.
\<close>

definition unlink :: "link list \<Rightarrow> nat \<Rightarrow> link list" where
  "unlink m i =
     (let next = nx m i; prev = pv m i;
          m = set_next m prev next
      in set_prev m next prev)"

lemma length_moves [simp]:
  "length (link_front m i) = length m" "length (unlink m i) = length m"
  by (simp_all add: link_front_def unlink_def Let_def)

lemma link_front_maps:
  assumes "0 < length m" "nx m 0 < length m" "i < length m" "i \<noteq> 0"
  shows "nx (link_front m i) = (nx m)(0 := i, i := nx m 0)"
    and "pv (link_front m i) = (pv m)(nx m 0 := i, i := 0)"
  using assms by (auto simp: link_front_def Let_def link_simps fun_eq_iff)

lemma dll_link_front:
  assumes "dll m xs" "i \<notin> set xs" "i \<noteq> 0" "i < length m"
  shows "dll (link_front m i) (i # xs)"
proof -
  have h: "nx m 0 = hd (xs @ [0])" by (rule dll_first [OF assms(1)])
  have r: "0 < length m" "nx m 0 < length m"
    using dll_length_pos [OF assms(1)] dll_ends_in_range [of m "[]" xs] assms(1) h by auto
  show ?thesis
    using dll_insert [of m "[]" xs i "link_front m i"] assms link_front_maps [OF r assms(4,3)] h
    by simp
qed

lemma unlink_maps:
  assumes "nx m i < length m" "pv m i < length m"
  shows "nx (unlink m i) = (nx m)(pv m i := nx m i)"
    and "pv (unlink m i) = (pv m)(nx m i := pv m i)"
  using assms by (auto simp: unlink_def Let_def link_simps)

lemma dll_unlink:
  assumes "dll m (ys @ x # zs)"
  shows "dll (unlink m x) (ys @ zs)"
proof -
  have n: "nx m x = hd (zs @ [0])" and p: "pv m x = last (0 # ys)"
    by (rule dll_nx [OF assms], rule dll_pv [OF assms])
  have "last (0 # ys) < length m" "hd (zs @ [0]) < length m"
    using dll_ends_in_range [of m ys "x # zs"] dll_ends_in_range [of m "ys @ [x]" zs] assms by auto
  then show ?thesis
    using unlink_maps [of m x] n p by (intro dll_remove [OF assms]) auto
qed

lemma unlink_nx_other: 
  assumes "dll m (ys @ x # zs)" "j \<notin> insert 0 (set (ys @ x # zs))"
  shows "nx (unlink m x) j = nx m j" "pv (unlink m x) j = pv m j"
proof -
  have n: "nx m x = hd (zs @ [0])" and p: "pv m x = last (0 # ys)"
    by (rule dll_nx [OF assms(1)], rule dll_pv [OF assms(1)])
  have e: "last (0 # ys) \<in> insert 0 (set ys)" "hd (zs @ [0]) \<in> insert 0 (set zs)"
    using last_in_set [of "0 # ys"] by (auto simp: hd_append)
  have r: "last (0 # ys) < length m" "hd (zs @ [0]) < length m"
    using dll_ends_in_range [of m ys "x # zs"] dll_ends_in_range [of m "ys @ [x]" zs] assms(1)
    by auto
  show "nx (unlink m x) j = nx m j" "pv (unlink m x) j = pv m j"
    using unlink_maps [of m x] n p r e assms(2) by auto
qed

end
