(* ===== verification/Interfaces.thy ===== *)
theory Interfaces
  imports Prelude
begin

text \<open>
  The contracts between the components, as locales.  \<open>bounded_fifo\<close> is what a client
  of a bounded queue relies on, \<open>overwriting_fifo\<close> adds the overwriting push of the
  ring buffers.  \<open>keyed_base\<close> is the contract of the keyed containers (hash set, hash map,
  LRU containers, hash pool) while they have room; \<open>keyed_store\<close> adds that of the hash set and map
  when they are full.  The lemmas a client proves once are inside the locales; the
  providers interpret them in their own theories.
\<close>

section \<open>Runs of pushes\<close>

text \<open>A client that pushes the values of a list one after the other, whatever each push answers.\<close>

fun feed :: "('a \<Rightarrow> 's \<Rightarrow> (bool \<times> 's) option) \<Rightarrow> 'a list \<Rightarrow> 's \<Rightarrow> 's option" where
  "feed push [] s = Some s"
| "feed push (x # xs) s = (case push x s of None \<Rightarrow> None | Some (_, s') \<Rightarrow> feed push xs s')"

text \<open>A client that takes \<open>n\<close> elements and keeps what it saw in front.\<close>

fun drain :: "('s \<Rightarrow> 'a option) \<Rightarrow> ('s \<Rightarrow> 's option) \<Rightarrow> nat \<Rightarrow> 's \<Rightarrow> ('a list \<times> 's) option" where
  "drain peek pop 0 s = Some ([], s)"
| "drain peek pop (Suc n) s =
     do { x \<leftarrow> peek s; s' \<leftarrow> pop s; (xs, t) \<leftarrow> drain peek pop n s'; Some (x # xs, t) }"

section \<open>A bounded queue\<close>

locale bounded_fifo =
  fixes inv :: "'s \<Rightarrow> bool"
    and items :: "'s \<Rightarrow> 'a list"
    and cap :: "'s \<Rightarrow> nat"
    and push :: "'a \<Rightarrow> 's \<Rightarrow> (bool \<times> 's) option"
    and pop :: "'s \<Rightarrow> 's option"
    and peek :: "'s \<Rightarrow> 'a option"
  assumes bounded: "inv s \<Longrightarrow> length (items s) \<le> cap s"
    and push_room: "inv s \<Longrightarrow> length (items s) < cap s \<Longrightarrow>
      \<exists>t. push x s = Some (True, t) \<and> inv t \<and> items t = items s @ [x] \<and> cap t = cap s"
    and push_full: "inv s \<Longrightarrow> length (items s) = cap s \<Longrightarrow> push x s = Some (False, s)"
    and pop_front: "inv s \<Longrightarrow> items s \<noteq> [] \<Longrightarrow>
      \<exists>t. pop s = Some t \<and> inv t \<and> items t = tl (items s) \<and> cap t = cap s"
    and top_front: "inv s \<Longrightarrow> items s \<noteq> [] \<Longrightarrow> peek s = Some (hd (items s))"
begin

lemma feed_keeps_first:
  "inv s \<Longrightarrow> \<exists>t. feed push xs s = Some t \<and> inv t \<and> cap t = cap s
     \<and> items t = take (cap s) (items s @ xs)"
proof (induction xs arbitrary: s)
  case Nil
  then show ?case using bounded [of s] by simp
next
  case (Cons x xs)
  show ?case
  proof (cases "length (items s) < cap s")
    case True
    with Cons.prems obtain t where t: "push x s = Some (True, t)" "inv t"
      "items t = items s @ [x]" "cap t = cap s" using push_room by blast
    with Cons.IH [of t] show ?thesis by auto
  next
    case False
    then have l: "length (items s) = cap s" using bounded [of s] Cons.prems by simp
    with Cons.IH [of s] Cons.prems show ?thesis by (simp add: push_full)
  qed
qed

lemma drain_in_order:
  "inv s \<Longrightarrow> n \<le> length (items s) \<Longrightarrow>
   \<exists>t. drain peek pop n s = Some (take n (items s), t) \<and> inv t \<and> cap t = cap s
     \<and> items t = drop n (items s)"
proof (induction n arbitrary: s)
  case (Suc n)
  then have ne: "items s \<noteq> []" by auto
  with Suc.prems obtain t where t: "pop s = Some t" "inv t" "items t = tl (items s)" "cap t = cap s"
    using pop_front by blast
  with Suc.prems have "n \<le> length (items t)" by simp
  with Suc.IH [OF t(2)] obtain u where "drain peek pop n t = Some (take n (items t), u)"
    "inv u" "cap u = cap t" "items u = drop n (items t)" by blast
  with t ne Suc.prems show ?case
    by (cases "items s") (simp_all add: top_front)
qed simp

text \<open>What goes in comes out, in order.\<close>

lemma feed_drain:
  assumes "inv s" "items s = []" "length xs \<le> cap s"
  shows "\<exists>t u. feed push xs s = Some t \<and> drain peek pop (length xs) t = Some (xs, u)
    \<and> inv u \<and> items u = []"
proof -
  from feed_keeps_first [OF assms(1)] assms(2,3) obtain t where t: "feed push xs s = Some t" "inv t"
    "items t = xs" by (metis append_Nil take_all)
  from drain_in_order [OF t(2), of "length xs"] t show ?thesis by auto
qed

end

section \<open>A bounded queue with an overwriting push\<close>

locale overwriting_fifo = bounded_fifo +
  fixes push_over :: "'b \<Rightarrow> 'a \<Rightarrow> (bool \<times> 'a) option"
  assumes push_over_room: "inv s \<Longrightarrow> 0 < cap s \<Longrightarrow>
      \<exists>t. push_over x s = Some (True, t) \<and> inv t \<and> cap t = cap s
        \<and> items t = (if length (items s) = cap s then tl (items s) else items s) @ [x]"
begin

text \<open>Overwriting keeps exactly the newest elements, in order.\<close>

lemma feed_over_keeps_newest:
  "inv s \<Longrightarrow> 0 < cap s \<Longrightarrow> \<exists>t. feed push_over xs s = Some t \<and> inv t \<and> cap t = cap s
     \<and> items t = drop (length (items s) + length xs - cap s) (items s @ xs)"
proof (induction xs arbitrary: s)
  case Nil
  then show ?case using bounded [of s] by simp
next
  case (Cons x xs)
  then obtain t where t: "push_over x s = Some (True, t)" "inv t" "cap t = cap s"
    "items t = (if length (items s) = cap s then tl (items s) else items s) @ [x]"
    using push_over_room by blast
  from Cons.IH [OF t(2)] Cons.prems t(3) obtain u where u: "feed push_over xs t = Some u" "inv u"
    "cap u = cap s" "items u = drop (length (items t) + length xs - cap s) (items t @ xs)" by auto
  have "items u = drop (length (items s) + length (x # xs) - cap s) (items s @ x # xs)"
  proof (cases "length (items s) = cap s")
    case True
    with Cons.prems(2) obtain y ys where "items s = y # ys" by (cases "items s") auto
    with True show ?thesis using u(4) t(4) by (auto simp: Suc_diff_le)
  next
    case False
    then have "length (items s) < cap s" using bounded [of s] Cons.prems by simp
    with False show ?thesis using u(4) t(4) by simp
  qed
  with t(1) u show ?case by simp
qed

end

section \<open>Keyed containers\<close>

text \<open>
  \<open>keyed_base\<close>: a key identifies at most one stored entry, an entry lives at an index that is
  not 0, and inserting where there is room behaves as a finite map.  What an insert does when
  there is no room is not part of it: the sets refuse, the LRU containers evict, the hash pool
  refuses even the keys it has.
\<close>

locale keyed_base =
  fixes inv :: "'s \<Rightarrow> bool"
    and lookup :: "'s \<Rightarrow> 'k \<Rightarrow> (nat \<times> 'a) option"
    and cap :: "'s \<Rightarrow> nat"
    and count :: "'s \<Rightarrow> nat"
    and key :: "'a \<Rightarrow> 'k"
    and insert :: "'a \<Rightarrow> 's \<Rightarrow> ((nat \<times> bool) \<times> 's) option"
    and find :: "'k \<Rightarrow> 's \<Rightarrow> nat option"
    and erase :: "'k \<Rightarrow> 's \<Rightarrow> (nat \<times> 's) option"
  assumes dom_finite: "inv s \<Longrightarrow> finite (dom (lookup s))"
    and count_card: "inv s \<Longrightarrow> count s = card (dom (lookup s))"
    and count_cap: "inv s \<Longrightarrow> count s \<le> cap s"
    and lookup_key: "inv s \<Longrightarrow> lookup s k = Some (i, v) \<Longrightarrow> key v = k \<and> i \<noteq> 0"
    and find_lookup: "inv s \<Longrightarrow> find k s = Some (case lookup s k of None \<Rightarrow> 0 | Some (i, _) \<Rightarrow> i)"
    and insert_new: "inv s \<Longrightarrow> lookup s (key v) = None \<Longrightarrow> count s < cap s \<Longrightarrow>
      \<exists>i t. insert v s = Some ((i, True), t) \<and> inv t \<and> cap t = cap s
        \<and> lookup t = (lookup s)(key v \<mapsto> (i, v))"
    and insert_old: "inv s \<Longrightarrow> lookup s (key v) = Some (i, w) \<Longrightarrow> count s < cap s \<Longrightarrow>
      insert v s = Some ((i, False), s)"
    and erase_lookup: "inv s \<Longrightarrow> \<exists>t. erase k s = Some (case lookup s k of None \<Rightarrow> 0 | Some (i, _) \<Rightarrow> i, t)
        \<and> inv t \<and> cap t = cap s \<and> lookup t = (lookup s)(k := None)"
begin

text \<open>The client's view of the values by key.\<close>

definition vals :: "'s \<Rightarrow> 'k \<Rightarrow> 'a option" where
  "vals s k = map_option snd (lookup s k)"

lemma vals_dom: "dom (vals s) = dom (lookup s)"
  by (auto simp: vals_def dom_def)

lemma find_iff: "inv s \<Longrightarrow> find k s = Some 0 \<longleftrightarrow> vals s k = None"
  using lookup_key [of s k] by (auto simp: find_lookup vals_def split: option.splits)

end

text \<open>\<open>keyed_store\<close>: without room a present key is still found and an absent one refused.\<close>

locale keyed_store = keyed_base +
  assumes insert_old_full: "inv s \<Longrightarrow> lookup s (key v) = Some (i, w) \<Longrightarrow> insert v s = Some ((i, False), s)"
    and insert_full: "inv s \<Longrightarrow> lookup s (key v) = None \<Longrightarrow> count s = cap s \<Longrightarrow> insert v s = Some ((0, False), s)"
begin

lemma insert_vals:
  assumes "inv s"
  shows "\<exists>i b t. insert v s = Some ((i, b), t) \<and> inv t \<and> cap t = cap s
    \<and> b = (vals s (key v) = None \<and> card (dom (vals s)) < cap s)
    \<and> vals t = (if b then (vals s)(key v \<mapsto> v) else vals s)"
proof (cases "lookup s (key v)")
  case (Some e)
  then show ?thesis using insert_old_full [OF assms, of v "fst e" "snd e"] assms
    by (auto simp: vals_def)
next
  case None
  note n = None
  show ?thesis
  proof (cases "count s < cap s")
    case True
    from insert_new [OF assms None True] obtain i t where
      "insert v s = Some ((i, True), t)" "inv t" "cap t = cap s" "lookup t = (lookup s)(key v \<mapsto> (i, v))"
      by blast
    moreover from this have "vals t = (vals s)(key v \<mapsto> v)" by (auto simp: vals_def fun_eq_iff)
    moreover have "vals s (key v) = None" using None by (simp add: vals_def)
    ultimately show ?thesis using True count_card [OF assms] by (auto simp: vals_dom)
  next
    case False
    then have "count s = cap s" using count_cap [OF assms] by simp
    with insert_full [OF assms None] show ?thesis using assms count_card [OF assms]
      by (auto simp: vals_dom)
  qed
qed

lemma erase_vals:
  assumes "inv s"
  shows "\<exists>i t. erase k s = Some (i, t) \<and> inv t \<and> cap t = cap s \<and> (i = 0 \<longleftrightarrow> vals s k = None)
    \<and> vals t = (vals s)(k := None)"
proof -
  from erase_lookup [OF assms, of k] obtain t where
    t: "erase k s = Some (case lookup s k of None \<Rightarrow> 0 | Some (i, _) \<Rightarrow> i, t)" "inv t" "cap t = cap s"
    "lookup t = (lookup s)(k := None)" by blast
  moreover from t(4) have "vals t = (vals s)(k := None)" by (auto simp: vals_def fun_eq_iff)
  moreover have "(case lookup s k of None \<Rightarrow> 0 | Some (i, _) \<Rightarrow> i) = 0 \<longleftrightarrow> vals s k = None"
    using lookup_key [OF assms, of k] by (auto simp: vals_def split: option.splits)
  ultimately show ?thesis by metis
qed

end

text \<open>A client's run of inserts (\<open>Inl\<close>) and erasures (\<open>Inr\<close>), and what it does to a map bounded by \<open>n\<close>.\<close>

fun keyed_run :: "('a \<Rightarrow> 's \<Rightarrow> ((nat \<times> bool) \<times> 's) option) \<Rightarrow> ('k \<Rightarrow> 's \<Rightarrow> (nat \<times> 's) option) \<Rightarrow>
    ('a + 'k) list \<Rightarrow> 's \<Rightarrow> 's option" where
  "keyed_run ins era [] s = Some s"
| "keyed_run ins era (Inl v # ps) s = do { (_, s) \<leftarrow> ins v s; keyed_run ins era ps s }"
| "keyed_run ins era (Inr k # ps) s = do { (_, s) \<leftarrow> era k s; keyed_run ins era ps s }"

fun keyed_spec :: "nat \<Rightarrow> ('a \<Rightarrow> 'k) \<Rightarrow> 'a + 'k \<Rightarrow> ('k \<rightharpoonup> 'a) \<Rightarrow> ('k \<rightharpoonup> 'a)" where
  "keyed_spec n key (Inl v) m =
     (if m (key v) = None \<and> card (dom m) < n then m(key v \<mapsto> v) else m)"
| "keyed_spec n key (Inr k) m = m(k := None)"

context keyed_store begin

lemma run_is_map:
  "inv s \<Longrightarrow> \<exists>t. keyed_run insert erase ps s = Some t \<and> inv t \<and> cap t = cap s
     \<and> vals t = fold (keyed_spec (cap s) key) ps (vals s)"
proof (induction ps arbitrary: s)
  case (Cons p ps)
  show ?case
  proof (cases p)
    case (Inl v)
    from insert_vals [OF Cons.prems, of v] obtain i b t where
      t: "insert v s = Some ((i, b), t)" "inv t" "cap t = cap s"
      "vals t = keyed_spec (cap s) key p (vals s)" by (auto simp: Inl)
    have "fold (keyed_spec (cap s) key) (p # ps) (vals s) = fold (keyed_spec (cap t) key) ps (vals t)"
      by (simp only: fold_simps t(3,4))
    with Cons.IH [OF t(2)] t(1,3) Inl show ?thesis by auto
  next
    case (Inr k)
    from erase_vals [OF Cons.prems, of k] obtain i t where
      t: "erase k s = Some (i, t)" "inv t" "cap t = cap s"
      "vals t = keyed_spec (cap s) key p (vals s)" by (auto simp: Inr)
    have "fold (keyed_spec (cap s) key) (p # ps) (vals s) = fold (keyed_spec (cap t) key) ps (vals t)"
      by (simp only: fold_simps t(3,4))
    with Cons.IH [OF t(2)] t(1,3) Inr show ?thesis by auto
  qed
qed simp

end

end
