(* ===== verification/TraitsUtils.thy ===== *)
theory TraitsUtils
  imports Prelude "HOL-Library.Word"
begin

unbundle bit_operations_syntax

text \<open>
  \<^verbatim>\<open>src/containers/inner/traits_utils.h\<close>: the choice of the index type of a container
  (\<^verbatim>\<open>FixIntType\<close>), \<^verbatim>\<open>IsPowOfTwo\<close>, and the compile-time primes that size the
  bucket arrays (\<^verbatim>\<open>is_prime\<close>, \<^verbatim>\<open>nearby_prime\<close>; \<^verbatim>\<open>fix_bucket_size\<close> of
  \<^verbatim>\<open>mem_set_data.h\<close>).  A \<^verbatim>\<open>size_t\<close> is 64 bits wide; where its arithmetic can wrap
  the model wraps.  The functors \<^verbatim>\<open>IsEqual\<close> and \<^verbatim>\<open>ExtractKey\<close> are here too, with
  their specialisations for pairs from \<^verbatim>\<open>base_specialization.h\<close> in theory \<open>MemSet\<close>.
\<close>

section \<open>FixIntType\<close>

datatype int_type = Uint8 | Uint16 | Uint32 | SizeT

fun int_width :: "int_type \<Rightarrow> nat" where
  "int_width Uint8 = 8"
| "int_width Uint16 = 16"
| "int_width Uint32 = 32"
| "int_width SizeT = 64"

text \<open>\<^verbatim>\<open>while (n > 0) { n >>= 1; ++b; }\<close>\<close>

fun bits_loop :: "nat \<Rightarrow> nat \<Rightarrow> nat" where
  "bits_loop n b = (if n > 0 then bits_loop (n div 2) (b + 1) else b)"

declare bits_loop.simps [simp del]

definition fix_bits :: "nat \<Rightarrow> nat" where
  "fix_bits sz = bits_loop sz 0"

definition fix_bytes :: "nat \<Rightarrow> nat" where
  "fix_bytes sz = (fix_bits sz + 7) div 8"

definition fix_int_type :: "nat \<Rightarrow> int_type" where
  "fix_int_type sz =
     (if fix_bytes sz \<le> 1 then Uint8
      else if fix_bytes sz \<le> 2 then Uint16
      else if fix_bytes sz \<le> 4 then Uint32 else SizeT)"

lemma bits_loop_mono: "b \<le> bits_loop n b"
proof (induction n b rule: bits_loop.induct)
  case (1 n b)
  then show ?case by (cases "n > 0") (auto simp: bits_loop.simps [of n] bits_loop.simps [of 0])
qed

lemma bits_loop_bounds: "n < 2 ^ k \<longleftrightarrow> bits_loop n b \<le> b + k"
proof (induction n b arbitrary: k rule: bits_loop.induct)
  case (1 n b)
  show ?case
  proof (cases "n > 0")
    case False
    then show ?thesis by (simp add: bits_loop.simps)
  next
    case True
    show ?thesis
    proof (cases k)
      case 0
      have "b < bits_loop n b" using True bits_loop_mono [of "b + 1" "n div 2"] by (simp add: bits_loop.simps [of n])
      with True 0 show ?thesis by simp
    next
      case (Suc k')
      have "n < 2 ^ k \<longleftrightarrow> n div 2 < 2 ^ k'" using Suc by auto
      also have "\<dots> \<longleftrightarrow> bits_loop (n div 2) (b + 1) \<le> b + 1 + k'" by (rule "1.IH" [OF True])
      finally show ?thesis using True Suc by (simp add: bits_loop.simps [of n])
    qed
  qed
qed

lemma fix_bits_le: "fix_bits n \<le> k \<longleftrightarrow> n < 2 ^ k"
  using bits_loop_bounds [of n k 0] by (simp add: fix_bits_def)

lemma fix_bytes_le: "fix_bytes n \<le> k \<longleftrightarrow> n < 2 ^ (8 * k)"
proof -
  have "fix_bytes n \<le> k \<longleftrightarrow> fix_bits n \<le> 8 * k" unfolding fix_bytes_def by linarith
  then show ?thesis by (simp add: fix_bits_le)
qed

text \<open>The index type a container picks for its size is the smallest of the four that
  holds every value up to that size, so the counters and indices of the containers, which
  their invariants keep at most the size, never wrap.\<close>

lemma fix_int_type_fits:
  assumes "sz < 2 ^ 64"
  shows "sz < 2 ^ int_width (fix_int_type sz)
    \<and> (\<forall>t. sz < 2 ^ int_width t \<longrightarrow> int_width (fix_int_type sz) \<le> int_width t)"
proof -
  have w: "sz < 2 ^ int_width t \<longleftrightarrow> fix_bytes sz \<le> int_width t div 8" for t
    by (cases t) (simp_all add: fix_bytes_le)
  have "fix_bytes sz \<le> 8" using assms by (simp add: fix_bytes_le)
  then have "fix_bytes sz \<le> int_width (fix_int_type sz) div 8" by (simp add: fix_int_type_def)
  moreover have "int_width (fix_int_type sz) \<le> int_width t" if "fix_bytes sz \<le> int_width t div 8" for t
    using that by (cases t) (auto simp: fix_int_type_def)
  ultimately show ?thesis unfolding w by blast
qed

lemma fix_int_type_fits_example:
  "(300 :: nat) < 2 ^ int_width (fix_int_type 300) \<and> fix_int_type 300 = Uint16
    \<and> int_width (fix_int_type 300) \<le> int_width Uint32"
proof -
  have "fix_int_type 300 = Uint16" by code_simp
  then show ?thesis using fix_int_type_fits [of 300] by auto
qed

section \<open>IsPowOfTwo\<close>

definition is_pow_of_two :: "64 word \<Rightarrow> bool" where
  "is_pow_of_two num \<longleftrightarrow> num \<noteq> 0 \<and> (num AND (num - 1)) = 0"

section \<open>is\_prime and nearby\_prime\<close>

text \<open>
  \<^verbatim>\<open>for (i = 5; i * i <= n; i += 6) if (n % i == 0 || n % (i + 2) == 0) return false;\<close>
  The product is a \<^verbatim>\<open>size_t\<close> and wraps, so the loop need not end; \<^term>\<open>None\<close> is the
  loop that does not return.
\<close>

partial_function (option) prime_loop :: "nat \<Rightarrow> nat \<Rightarrow> bool option" where
  "prime_loop n i =
     (if (i * i) mod 2 ^ 64 \<le> n then
        (if n mod i = 0 \<or> n mod (i + 2) = 0 then Some False else prime_loop n (i + 6))
      else Some True)"

declare prime_loop.simps [code]

definition is_prime :: "nat \<Rightarrow> bool option" where
  "is_prime n =
     (if n < 2 then Some False
      else if n < 4 then Some True
      else if n mod 2 = 0 \<or> n mod 3 = 0 then Some False
      else prime_loop n 5)"

text \<open>\<^verbatim>\<open>while (n > 1 && !is_prime(n)) --n;\<close>\<close>

fun nearby_loop :: "nat \<Rightarrow> nat option" where
  "nearby_loop n =
     (if n > 1 then do { p \<leftarrow> is_prime n; if p then Some n else nearby_loop (n - 1) } else Some n)"

declare nearby_loop.simps [simp del]

definition nearby_prime :: "nat \<Rightarrow> nat option" where
  "nearby_prime n = (if n > 800001 then Some n else nearby_loop n)"

text \<open>The specification: primality by divisors.\<close>

definition prime_spec :: "nat \<Rightarrow> bool" where
  "prime_spec n \<longleftrightarrow> 1 < n \<and> (\<forall>d. d dvd n \<longrightarrow> d = 1 \<or> d = n)"

lemma prime_spec_small: "prime_spec 2" "prime_spec 3"
proof -
  have "d = 1 \<or> d = 2" if "d dvd 2" for d :: nat
    using that dvd_imp_le [OF that] by (cases "d = 0") auto
  moreover have "d = 1 \<or> d = 3" if "d dvd 3" for d :: nat
  proof -
    have "d = 0 \<or> d = 1 \<or> d = 2 \<or> d = 3" using dvd_imp_le [OF that] by auto
    then show ?thesis using that by auto
  qed
  ultimately show "prime_spec 2" "prime_spec 3" by (auto simp: prime_spec_def)
qed

lemma small_divisor:
  assumes "1 < n" "\<not> prime_spec n"
  shows "\<exists>d. 1 < d \<and> d * d \<le> n \<and> d dvd n"
proof -
  from assms obtain d where d: "d dvd n" "d \<noteq> 1" "d \<noteq> n" by (auto simp: prime_spec_def)
  then obtain e where e: "n = d * e" by (auto elim: dvdE)
  have gt: "1 < d" "1 < e" using d e assms(1) by (auto intro!: Suc_lessI gr0I)
  show ?thesis
  proof (cases "d \<le> e")
    case True
    then show ?thesis using gt d e by (intro exI [of _ d]) auto
  next
    case False
    then show ?thesis using gt e by (intro exI [of _ e]) auto
  qed
qed

lemma proper_divisor_not_prime: "1 < d \<Longrightarrow> d < n \<Longrightarrow> d dvd n \<Longrightarrow> \<not> prime_spec n"
  by (auto simp: prime_spec_def)

lemma no_divisor_step:
  fixes i n d :: nat
  assumes "i mod 6 = 5" "n mod 2 \<noteq> 0" "n mod 3 \<noteq> 0" "n mod i \<noteq> 0" "n mod (i + 2) \<noteq> 0"
    and no: "\<And>d. 1 < d \<Longrightarrow> d < i \<Longrightarrow> \<not> d dvd n" and d: "1 < d" "d < i + 6"
  shows "\<not> d dvd n"
proof
  assume dv: "d dvd n"
  then have "d mod 2 \<noteq> 0" "d mod 3 \<noteq> 0"
    using dvd_trans [OF _ dv, of 2] dvd_trans [OF _ dv, of 3] assms(2,3)
    unfolding dvd_eq_mod_eq_0 by blast+
  moreover have "d \<noteq> i" "d \<noteq> i + 2" using assms(4,5) dv by (auto simp: dvd_eq_mod_eq_0)
  moreover have "i \<le> d" using no [OF d(1)] dv by force
  ultimately show False using d(2) assms(1) by presburger
qed

lemma prime_loop_correct:
  assumes "n < 2 ^ 62" "n mod 2 \<noteq> 0" "n mod 3 \<noteq> 0" "1 < n"
  shows "i mod 6 = 5 \<Longrightarrow> i \<le> 2 ^ 31 + 5 \<Longrightarrow> (\<And>d. 1 < d \<Longrightarrow> d < i \<Longrightarrow> \<not> d dvd n) \<Longrightarrow>
    prime_loop n i = Some (prime_spec n)"
proof (induction "2 ^ 31 + 6 - i" arbitrary: i rule: less_induct)
  case less
  have "i * i \<le> (2 ^ 31 + 5) * (2 ^ 31 + 5)" using less.prems(2) by (intro mult_le_mono)
  then have w: "(i * i) mod 2 ^ 64 = i * i" by simp
  have i5: "5 \<le> i" using less.prems(1) by presburger
  show ?case
  proof (cases "i * i \<le> n")
    case True
    have "i < 2 ^ 31"
    proof (rule ccontr)
      assume "\<not> i < 2 ^ 31"
      then have "2 ^ 31 * 2 ^ 31 \<le> i * i" by (intro mult_le_mono) auto
      with True assms(1) show False by simp
    qed
    show ?thesis
    proof (cases "n mod i = 0 \<or> n mod (i + 2) = 0")
      case div: True
      have "i + 2 < 5 * i" "5 * i \<le> i * i" using i5 by auto
      then have "i + 2 < i * i" by linarith
      then have "\<not> prime_spec n"
        using div True i5 proper_divisor_not_prime [of i n] proper_divisor_not_prime [of "i + 2" n]
        by (auto simp: dvd_eq_mod_eq_0)
      with div True w show ?thesis by (simp add: prime_loop.simps)
    next
      case False
      have "prime_loop n (i + 6) = Some (prime_spec n)"
      proof (rule less.hyps)
        show "(i + 6) mod 6 = 5" using less.prems(1) by simp
        show "\<not> d dvd n" if "1 < d" "d < i + 6" for d
          using no_divisor_step [OF less.prems(1) assms(2,3) _ _ less.prems(3) that] False by blast
      qed (use \<open>i < 2 ^ 31\<close> in auto)
      with False True w show ?thesis by (subst prime_loop.simps) simp
    qed
  next
    case False
    have "prime_spec n"
    proof (rule ccontr)
      assume "\<not> prime_spec n"
      then obtain d where d: "1 < d" "d * d \<le> n" "d dvd n" using small_divisor assms(4) by blast
      with less.prems(3) have "i \<le> d" by force
      then have "i * i \<le> d * d" by (intro mult_le_mono)
      with d(2) False show False by simp
    qed
    with False w show ?thesis by (simp add: prime_loop.simps)
  qed
qed

lemma is_prime_correct:
  assumes "n < 2 ^ 62"
  shows "is_prime n = Some (prime_spec n)"
proof -
  consider "n < 2" | "n = 2 \<or> n = 3" | "4 \<le> n" "n mod 2 = 0" | "4 \<le> n" "n mod 3 = 0"
    | "4 \<le> n" "n mod 2 \<noteq> 0" "n mod 3 \<noteq> 0" by linarith
  then show ?thesis
  proof cases
    case 1
    then show ?thesis by (simp add: is_prime_def prime_spec_def)
  next
    case 2
    then show ?thesis using prime_spec_small by (auto simp: is_prime_def)
  next
    case 3
    then have "\<not> prime_spec n" by (intro proper_divisor_not_prime [of 2]) auto
    with 3 show ?thesis by (simp add: is_prime_def)
  next
    case 4
    then have "\<not> prime_spec n" by (intro proper_divisor_not_prime [of 3]) auto
    with 4 show ?thesis by (simp add: is_prime_def)
  next
    case 5
    have no: "\<not> d dvd n" if "1 < d" "d < 5" for d
    proof
      assume dv: "d dvd n"
      have "d = 2 \<or> d = 3 \<or> d = 4" using that by linarith
      with dv 5 show False by (auto simp: dvd_eq_mod_eq_0 [symmetric] dest: dvd_trans [of 2 4])
    qed
    from 5 have "prime_loop n 5 = Some (prime_spec n)"
      using assms no by (intro prime_loop_correct) auto
    with 5 show ?thesis by (simp add: is_prime_def)
  qed
qed

lemma nearby_loop_correct:
  "2 \<le> n \<Longrightarrow> n < 2 ^ 62 \<Longrightarrow>
   \<exists>p. nearby_loop n = Some p \<and> prime_spec p \<and> p \<le> n \<and> (\<forall>q. p < q \<and> q \<le> n \<longrightarrow> \<not> prime_spec q)"
proof (induction n rule: less_induct)
  case (less n)
  show ?case
  proof (cases "prime_spec n")
    case True
    then have "nearby_loop n = Some n" using less.prems by (simp add: nearby_loop.simps [of n] is_prime_correct)
    with True show ?thesis by auto
  next
    case False
    from False less.prems prime_spec_small have "2 \<le> n - 1" by (cases "n = 2") auto
    then have "\<exists>p. nearby_loop (n - 1) = Some p \<and> prime_spec p \<and> p \<le> n - 1
        \<and> (\<forall>q. p < q \<and> q \<le> n - 1 \<longrightarrow> \<not> prime_spec q)"
      using less.prems by (intro less.IH) auto
    then obtain p where p: "nearby_loop (n - 1) = Some p"
      "prime_spec p" "p \<le> n - 1" "\<forall>q. p < q \<and> q \<le> n - 1 \<longrightarrow> \<not> prime_spec q" by blast
    have "nearby_loop n = Some p" using p(1) False less.prems by (simp add: nearby_loop.simps [of n] is_prime_correct)
    moreover have "\<not> prime_spec q" if "p < q" "q \<le> n" for q
      using that p(4) False by (cases "q = n") auto
    ultimately show ?thesis using p(2,3) by auto
  qed
qed

lemma nearby_prime_total:
  "0 < n \<Longrightarrow> n \<le> 800001 \<Longrightarrow> \<exists>p. nearby_prime n = Some p \<and> 0 < p \<and> p \<le> n"
  using nearby_loop_correct [of n]
  by (cases "n < 2") (auto simp: nearby_prime_def nearby_loop.simps [of n] prime_spec_def)

text \<open>C40. For every size up to 800001 \<^verbatim>\<open>nearby_prime\<close> returns, and returns the greatest
  prime that is not above the size (sizes 0 and 1, below which there is none, are returned as
  they are).\<close>

theorem nearby_prime_greatest:
  assumes "n \<le> 800001"
  shows "\<exists>p. nearby_prime n = Some p \<and> p \<le> n \<and>
    (if n < 2 then p = n else prime_spec p \<and> (\<forall>q. p < q \<and> q \<le> n \<longrightarrow> \<not> prime_spec q))"
proof (cases "n < 2")
  case True
  then show ?thesis by (simp add: nearby_prime_def nearby_loop.simps [of n])
next
  case False
  then show ?thesis using nearby_loop_correct [of n] assms by (auto simp: nearby_prime_def)
qed

theorem nearby_prime_greatest_witness:
  "nearby_prime 10 = Some 7 \<and> prime_spec 7 \<and> \<not> prime_spec 9"
proof -
  have "nearby_loop 7 = Some 7"
    by (simp add: nearby_loop.simps [of 7] is_prime_def prime_loop.simps)
  then have "nearby_prime 10 = Some 7"
    by (simp add: nearby_prime_def nearby_loop.simps [of 10] nearby_loop.simps [of 9]
        nearby_loop.simps [of 8] is_prime_def)
  with nearby_prime_greatest [of 10] show ?thesis by auto
qed

text \<open>\<^verbatim>\<open>fix_bucket_size\<close>: one bucket for small containers.\<close>

definition fix_bucket_size :: "nat \<Rightarrow> nat \<Rightarrow> nat option" where
  "fix_bucket_size sizeof_T max_size =
     (if (sizeof_T > 4 \<and> max_size \<le> 40) \<or> (sizeof_T \<le> 4 \<and> max_size \<le> 50) then Some 1
      else nearby_prime max_size)"

lemma fix_bucket_size_bounds:
  assumes "0 < max_size"
  shows "\<exists>b. fix_bucket_size sizeof_T max_size = Some b \<and> 0 < b \<and> b \<le> max_size"
proof (cases "max_size \<le> 800001")
  case True
  then show ?thesis
    using nearby_prime_total [of max_size] assms by (auto simp: fix_bucket_size_def)
next
  case False
  then show ?thesis using assms by (auto simp: fix_bucket_size_def nearby_prime_def)
qed

section \<open>Functors\<close>

text \<open>\<^verbatim>\<open>IsEqual<T>\<close> and \<^verbatim>\<open>ExtractKey<T>\<close>.\<close>

definition is_equal :: "'a \<Rightarrow> 'a \<Rightarrow> bool" where
  "is_equal x y \<longleftrightarrow> x = y"

definition extract_key :: "'a \<Rightarrow> 'a" where
  "extract_key x = x"

end
