(* ===== verification/MemSet.thy ===== *)
theory MemSet
  imports Links Interfaces TraitsUtils
begin

text \<open>
  \<^verbatim>\<open>src/containers/inner/base_mem_set.h\<close> over the two data layers of
  \<^verbatim>\<open>mem_set_data.h\<close>, the copying of \<^verbatim>\<open>is_trivial_decorator.h\<close>, and the public
  \<^verbatim>\<open>MemSet\<close> and \<^verbatim>\<open>MemMap\<close>: the hash set with chained buckets in a block of memory
  without pointers.  Slot \<open>i\<close> (from 1) has its chain link in \<open>ms_next ! (i - 1)\<close> and its value in
  \<open>ms_value ! (i - 1)\<close>, \<^term>\<open>None\<close> while no object lives there; reading or destroying a dead
  object aborts the run.  \<open>triv\<close> is \<^verbatim>\<open>std::is_trivially_copyable_v<T>\<close>.

  The functors are arguments: \<open>h\<close> is \<^verbatim>\<open>HASH\<close> at the type of the key it is called with,
  \<open>e\<close> is \<^verbatim>\<open>IS_EQUAL\<close>.  \<^verbatim>\<open>std::hash\<close> of a basic type is any function.
\<close>

section \<open>State\<close>

record 'a mem_set =
  ms_used :: nat
  ms_raw_used :: nat
  ms_free :: nat
  ms_buckets :: "nat list"
  ms_next :: "nat list"
  ms_value :: "'a option list"

definition ms_max :: "'a mem_set \<Rightarrow> nat" where
  "ms_max s = length (ms_value s)"

definition ms_buckets_num :: "'a mem_set \<Rightarrow> nat" where
  "ms_buckets_num s = length (ms_buckets s)"

definition ms_nx :: "'a mem_set \<Rightarrow> nat \<Rightarrow> nat" where
  "ms_nx s i = ms_next s ! (i - 1)"

definition ms_deref :: "'a mem_set \<Rightarrow> nat \<Rightarrow> 'a option" where
  "ms_deref s i = ms_value s ! (i - 1)"

text \<open>The compile-time layer: the bucket count is computed from the capacity.\<close>

definition ms_new :: "nat \<Rightarrow> nat \<Rightarrow> 'a mem_set" where
  "ms_new n b = \<lparr>ms_used = 0, ms_raw_used = 0, ms_free = 0, ms_buckets = replicate b 0,
     ms_next = replicate n 0, ms_value = replicate n None\<rparr>"

definition ms_static :: "nat \<Rightarrow> nat \<Rightarrow> 'a mem_set option" where
  "ms_static sizeof_T n = do { b \<leftarrow> fix_bucket_size sizeof_T n; Some (ms_new n b) }"

text \<open>
  \<^verbatim>\<open>get_bucket_index\<close>: the compile-time layer does not look at the key when there is one
  bucket, the runtime layer asserts that there is one.  \<open>g\<close> computes the hash, which reads the key.
\<close>

definition ms_bucket_index :: "nat option \<Rightarrow> 'a mem_set \<Rightarrow> nat option" where
  "ms_bucket_index g s =
     (if ms_buckets_num s = 1 then Some 0
      else do { cassert (ms_buckets_num s > 0); h \<leftarrow> g; Some (h mod ms_buckets_num s) })"

section \<open>Queries\<close>

definition ms_empty :: "'a mem_set \<Rightarrow> bool" where
  "ms_empty s \<longleftrightarrow> ms_used s = 0 \<and> ms_max s > 0"

definition ms_full :: "'a mem_set \<Rightarrow> bool" where
  "ms_full s \<longleftrightarrow> ms_used s = ms_max s"

definition ms_size :: "'a mem_set \<Rightarrow> nat" where
  "ms_size s = ms_used s"

text \<open>The test of the loops: \<^verbatim>\<open>is_equal(index_2_value(index - 1), key)\<close>.\<close>

definition ms_match :: "('a \<Rightarrow> 'k \<Rightarrow> bool) \<Rightarrow> 'k \<Rightarrow> 'a mem_set \<Rightarrow> nat \<Rightarrow> bool" where
  "ms_match e k s i = (case ms_deref s i of None \<Rightarrow> False | Some x \<Rightarrow> e x k)"

definition ms_find_index_impl :: "('a \<Rightarrow> 'k \<Rightarrow> bool) \<Rightarrow> nat \<Rightarrow> 'k \<Rightarrow> 'a mem_set \<Rightarrow> nat option" where
  "ms_find_index_impl e b k s =
     do { cassert (b < ms_buckets_num s); seek (ms_nx s) (ms_match e k s) (ms_buckets s ! b) }"

definition ms_find_index :: "('k \<Rightarrow> nat) \<Rightarrow> ('a \<Rightarrow> 'k \<Rightarrow> bool) \<Rightarrow> 'k \<Rightarrow> 'a mem_set \<Rightarrow> nat option" where
  "ms_find_index h e k s =
     do { b \<leftarrow> ms_bucket_index (Some (h k)) s; ms_find_index_impl e b k s }"

definition ms_exist :: "('k \<Rightarrow> nat) \<Rightarrow> ('a \<Rightarrow> 'k \<Rightarrow> bool) \<Rightarrow> 'k \<Rightarrow> 'a mem_set \<Rightarrow> bool option" where
  "ms_exist h e k s = do { i \<leftarrow> ms_find_index h e k s; Some (i \<noteq> 0) }"

section \<open>Insertion\<close>

definition ms_copy_one :: "nat \<Rightarrow> 'a \<Rightarrow> 'a mem_set \<Rightarrow> 'a mem_set" where
  "ms_copy_one i v s = s\<lparr>ms_value := (ms_value s)[i - 1 := Some v]\<rparr>"

definition ms_insert_impl :: "nat \<Rightarrow> 'a \<Rightarrow> 'a mem_set \<Rightarrow> (nat \<times> 'a mem_set) option" where
  "ms_insert_impl b v s =
     do { (i, s) \<leftarrow>
            (if ms_free s = 0 then
               do { cassert (ms_raw_used s < ms_max s);
                    Some (ms_raw_used s + 1, s\<lparr>ms_raw_used := ms_raw_used s + 1\<rparr>) }
             else Some (ms_free s, s\<lparr>ms_free := ms_nx s (ms_free s)\<rparr>));
          cassert (i > 0);
          let s = s\<lparr>ms_next := (ms_next s)[i - 1 := ms_buckets s ! b]\<rparr>;
          let s = s\<lparr>ms_buckets := (ms_buckets s)[b := i], ms_used := ms_used s + 1\<rparr>;
          Some (i, ms_copy_one i v s) }"

text \<open>\<^verbatim>\<open>insert2\<close>; \<^verbatim>\<open>insert\<close> is the same with the index wrapped in an iterator.\<close>

definition ms_insert :: "('a \<Rightarrow> nat) \<Rightarrow> ('a \<Rightarrow> 'a \<Rightarrow> bool) \<Rightarrow> 'a \<Rightarrow> 'a mem_set \<Rightarrow>
    ((nat \<times> bool) \<times> 'a mem_set) option" where
  "ms_insert h e v s =
     do { b \<leftarrow> ms_bucket_index (Some (h v)) s;
          i \<leftarrow> ms_find_index_impl e b v s;
          if i \<noteq> 0 then Some ((i, False), s)
          else if ms_full s then Some ((0, False), s)
          else do { (i, s) \<leftarrow> ms_insert_impl b v s; Some ((i, True), s) } }"

section \<open>Erasure\<close>

text \<open>\<^verbatim>\<open>pre\<close> points at a bucket or at the link of a slot.\<close>

datatype ms_ptr = PBucket nat | PNext nat

fun ms_store :: "ms_ptr \<Rightarrow> nat \<Rightarrow> 'a mem_set \<Rightarrow> 'a mem_set" where
  "ms_store (PBucket b) v s = s\<lparr>ms_buckets := (ms_buckets s)[b := v]\<rparr>"
| "ms_store (PNext i) v s = s\<lparr>ms_next := (ms_next s)[i - 1 := v]\<rparr>"

definition ms_destruct_one :: "bool \<Rightarrow> nat \<Rightarrow> 'a mem_set \<Rightarrow> 'a mem_set option" where
  "ms_destruct_one triv i s =
     (if triv then Some s
      else do { cassert (ms_deref s i \<noteq> None); Some (s\<lparr>ms_value := (ms_value s)[i - 1 := None]\<rparr>) })"

text \<open>The loop stops at the first match with \<^verbatim>\<open>pre\<close> at the cell that holds its index.\<close>

partial_function (option) ms_erase_seek ::
  "(nat \<Rightarrow> nat) \<Rightarrow> (nat \<Rightarrow> bool) \<Rightarrow> ms_ptr \<Rightarrow> nat \<Rightarrow> (ms_ptr \<times> nat) option" where
  "ms_erase_seek f p pre i =
     (if i = 0 then Some (pre, 0)
      else if p i then Some (pre, i)
      else ms_erase_seek f p (PNext i) (f i))"

declare ms_erase_seek.simps [code]

definition ms_erase :: "bool \<Rightarrow> ('k \<Rightarrow> nat) \<Rightarrow> ('a \<Rightarrow> 'k \<Rightarrow> bool) \<Rightarrow> 'k \<Rightarrow> 'a mem_set \<Rightarrow>
    (nat \<times> 'a mem_set) option" where
  "ms_erase triv h e k s =
     (if ms_used s = 0 then Some (0, s)
      else do {
        b \<leftarrow> ms_bucket_index (Some (h k)) s;
        cassert (b < ms_buckets_num s);
        if ms_buckets s ! b = 0 then Some (0, s)
        else do {
          (pre, i) \<leftarrow> ms_erase_seek (ms_nx s) (ms_match e k s) (PBucket b) (ms_buckets s ! b);
          if i = 0 then Some (0, s)
          else do {
            cassert (ms_used s > 0);
            let s = ms_store pre (ms_nx s i) s;
            let s = s\<lparr>ms_next := (ms_next s)[i - 1 := ms_free s]\<rparr>;
            s \<leftarrow> ms_destruct_one triv i (s\<lparr>ms_free := i, ms_used := ms_used s - 1\<rparr>);
            Some (i, s) } } })"

text \<open>\<^verbatim>\<open>erase(const Iterator&)\<close> passes the stored value as the key.\<close>

definition ms_erase_iter :: "bool \<Rightarrow> ('a \<Rightarrow> nat) \<Rightarrow> ('a \<Rightarrow> 'a \<Rightarrow> bool) \<Rightarrow> nat \<Rightarrow> 'a mem_set \<Rightarrow>
    (nat \<times> 'a mem_set) option" where
  "ms_erase_iter triv h e i s =
     (if i > 0 then do { v \<leftarrow> ms_deref s i; ms_erase triv h e v s } else Some (0, s))"

section \<open>Iteration\<close>

text \<open>The first bucket in use of a run of buckets, 0 when there is none.\<close>

primrec scan_buckets :: "nat list \<Rightarrow> nat" where
  "scan_buckets [] = 0"
| "scan_buckets (x # xs) = (if x \<noteq> 0 then x else scan_buckets xs)"

definition ms_begin :: "'a mem_set \<Rightarrow> nat" where
  "ms_begin s = scan_buckets (ms_buckets s)"

text \<open>\<^verbatim>\<open>Iterator::operator++\<close>: at the end of a chain the bucket of the value is computed again.\<close>

definition ms_iter_next :: "('a \<Rightarrow> nat) \<Rightarrow> 'a mem_set \<Rightarrow> nat \<Rightarrow> nat option" where
  "ms_iter_next h s i =
     (if ms_nx s i = 0 then
        do { b \<leftarrow> ms_bucket_index (map_option h (ms_deref s i)) s;
             Some (scan_buckets (drop (b + 1) (ms_buckets s))) }
      else Some (ms_nx s i))"

section \<open>Clearing and copying\<close>

text \<open>\<^verbatim>\<open>while (beg != end()) { beg->~T(); ++beg; }\<close>\<close>

partial_function (option) ms_destruct_loop ::
  "('a \<Rightarrow> nat) \<Rightarrow> nat \<Rightarrow> 'a mem_set \<Rightarrow> 'a mem_set option" where
  "ms_destruct_loop h i s =
     (if i = 0 then Some s
      else do { s \<leftarrow> ms_destruct_one False i s; j \<leftarrow> ms_iter_next h s i; ms_destruct_loop h j s })"

declare ms_destruct_loop.simps [code]

definition ms_destruct_all :: "bool \<Rightarrow> ('a \<Rightarrow> nat) \<Rightarrow> 'a mem_set \<Rightarrow> 'a mem_set option" where
  "ms_destruct_all triv h s = (if triv then Some s else ms_destruct_loop h (ms_begin s) s)"

definition ms_clear :: "bool \<Rightarrow> ('a \<Rightarrow> nat) \<Rightarrow> 'a mem_set \<Rightarrow> 'a mem_set option" where
  "ms_clear triv h s =
     do { s \<leftarrow> ms_destruct_all triv h s;
          Some (s\<lparr>ms_next := replicate (length (ms_next s)) 0, ms_used := 0, ms_raw_used := 0,
                  ms_free := 0, ms_buckets := replicate (length (ms_buckets s)) 0\<rparr>) }"

text \<open>
  The copy constructor of \<^verbatim>\<open>IsTrivialDecorator\<close>: the members are copied; for a type
  with a copy constructor the value bytes are no objects yet, and each is constructed from its
  original while two iterators advance in step.
\<close>

partial_function (option) ms_copy_loop ::
  "('a \<Rightarrow> nat) \<Rightarrow> 'a mem_set \<Rightarrow> nat \<Rightarrow> nat \<Rightarrow> 'a mem_set \<Rightarrow> 'a mem_set option" where
  "ms_copy_loop h other i j s =
     (if i = 0 then Some s
      else do { v \<leftarrow> ms_deref other j;
                let s = ms_copy_one i v s;
                i \<leftarrow> ms_iter_next h s i;
                j \<leftarrow> ms_iter_next h other j;
                ms_copy_loop h other i j s })"

declare ms_copy_loop.simps [code]

definition ms_copy :: "bool \<Rightarrow> ('a \<Rightarrow> nat) \<Rightarrow> 'a mem_set \<Rightarrow> 'a mem_set option" where
  "ms_copy triv h other =
     (if triv then Some other
      else let s = other\<lparr>ms_value := replicate (ms_max other) None\<rparr>
           in ms_copy_loop h other (ms_begin s) (ms_begin other) s)"

text \<open>The copy assignment to \<open>s\<close>; an assignment to itself does nothing.\<close>

definition ms_assign :: "bool \<Rightarrow> ('a \<Rightarrow> nat) \<Rightarrow> 'a mem_set \<Rightarrow> 'a mem_set \<Rightarrow> 'a mem_set option" where
  "ms_assign triv h s other =
     (if triv then Some other else do { _ \<leftarrow> ms_clear triv h s; ms_copy triv h other })"

section \<open>Abstraction and invariant\<close>

text \<open>The slots of each bucket in chain order, the free slots, and the entry of a key.\<close>

definition ms_chains :: "'a mem_set \<Rightarrow> nat list list" where
  "ms_chains s = map (\<lambda>x. chase (ms_nx s) x (ms_raw_used s)) (ms_buckets s)"

definition ms_slots :: "'a mem_set \<Rightarrow> nat list" where
  "ms_slots s = concat (ms_chains s)"

definition ms_frees :: "'a mem_set \<Rightarrow> nat list" where
  "ms_frees s = chase (ms_nx s) (ms_free s) (ms_raw_used s)"

definition ms_live :: "'a mem_set \<Rightarrow> nat set" where
  "ms_live s = {i. 0 < i \<and> i \<le> ms_max s \<and> ms_deref s i \<noteq> None}"

definition ms_lookup :: "('a \<Rightarrow> 'k) \<Rightarrow> 'a mem_set \<Rightarrow> 'k \<Rightarrow> (nat \<times> 'a) option" where
  "ms_lookup key s k =
     (case List.find (\<lambda>i. map_option key (ms_deref s i) = Some k) (ms_slots s) of
        None \<Rightarrow> None | Some i \<Rightarrow> Some (i, the (ms_deref s i)))"

text \<open>The chains and the free chain partition the slots ever handed out.\<close>

definition ms_shape :: "'a mem_set \<Rightarrow> nat list list \<Rightarrow> nat list \<Rightarrow> bool" where
  "ms_shape s cs fs \<longleftrightarrow> length cs = ms_buckets_num s \<and> 0 < length cs \<and> length (ms_next s) = ms_max s
     \<and> (\<forall>b < length cs. chain (ms_nx s) (ms_buckets s ! b) (cs ! b)) \<and> chain (ms_nx s) (ms_free s) fs
     \<and> distinct (concat cs @ fs) \<and> set (concat cs @ fs) = {1..ms_raw_used s}
     \<and> ms_raw_used s \<le> ms_max s \<and> ms_used s = length (concat cs)"

text \<open>Every chained slot holds a value that hashes to its bucket, and no two have equal keys.\<close>

definition ms_keys :: "bool \<Rightarrow> ('a \<Rightarrow> nat) \<Rightarrow> ('a \<Rightarrow> 'k) \<Rightarrow> 'a mem_set \<Rightarrow> nat list list \<Rightarrow> bool" where
  "ms_keys triv hT key s cs \<longleftrightarrow>
     (\<forall>b < length cs. \<forall>i \<in> set (cs ! b). \<exists>v. ms_deref s i = Some v \<and> hT v mod length cs = b)
     \<and> inj_on (\<lambda>i. key (the (ms_deref s i))) (set (concat cs))
     \<and> (triv \<or> ms_live s = set (concat cs))"

definition ms_ok :: "bool \<Rightarrow> ('a \<Rightarrow> nat) \<Rightarrow> ('a \<Rightarrow> 'k) \<Rightarrow> 'a mem_set \<Rightarrow> bool" where
  "ms_ok triv hT key s \<longleftrightarrow> ms_shape s (ms_chains s) (ms_frees s) \<and> ms_keys triv hT key s (ms_chains s)"

lemma ms_shape_lists:
  assumes "ms_shape s cs fs"
  shows "ms_chains s = cs" "ms_frees s = fs" "ms_slots s = concat cs"
proof -
  have len: "length (concat cs @ fs) = ms_raw_used s"
    using assms by (intro card_interval_length) (auto simp: ms_shape_def)
  then have lf: "length fs \<le> ms_raw_used s" by simp
  have l: "length (cs ! b) \<le> ms_raw_used s" if "b < length cs" for b
    using len concat_split [OF that] by auto
  show c: "ms_chains s = cs"
  proof (rule nth_equalityI)
    show "length (ms_chains s) = length cs"
      using assms by (simp add: ms_shape_def ms_chains_def ms_buckets_num_def)
    fix i assume "i < length (ms_chains s)"
    then have i: "i < length cs" "i < length (ms_buckets s)"
      using assms by (simp_all add: ms_shape_def ms_chains_def ms_buckets_num_def)
    then have "chase (ms_nx s) (ms_buckets s ! i) (ms_raw_used s) = cs ! i"
      using assms l by (intro chase_chain) (auto simp: ms_shape_def)
    then show "ms_chains s ! i = cs ! i" using i by (simp add: ms_chains_def)
  qed
  show "ms_frees s = fs"
    unfolding ms_frees_def
    by (rule chase_chain) (use assms lf in \<open>simp_all add: ms_shape_def\<close>)
  show "ms_slots s = concat cs" using c by (simp add: ms_slots_def)
qed

lemma ms_okI: "ms_shape s cs fs \<Longrightarrow> ms_keys triv hT key s cs \<Longrightarrow> ms_ok triv hT key s"
  by (simp add: ms_ok_def ms_shape_lists)

lemma ms_okD:
  assumes "ms_ok triv hT key s"
  shows "ms_shape s (ms_chains s) (ms_frees s)" "ms_keys triv hT key s (ms_chains s)"
  using assms by (auto simp: ms_ok_def)

lemma ms_keys_live:
  assumes "ms_keys triv hT key s cs" "i \<in> set (concat cs)"
  shows "\<exists>v. ms_deref s i = Some v"
proof -
  obtain b where "b < length cs" "i \<in> set (cs ! b)"
    using assms(2) unfolding in_concat_nth by blast
  then show ?thesis using assms(1) unfolding ms_keys_def by blast
qed

lemma ms_shapeD:
  assumes "ms_shape s cs fs"
  shows "length cs = ms_buckets_num s" "0 < length cs" "length (ms_next s) = ms_max s"
    "b < length cs \<Longrightarrow> chain (ms_nx s) (ms_buckets s ! b) (cs ! b)" "chain (ms_nx s) (ms_free s) fs"
    "distinct (concat cs)" "distinct fs" "set (concat cs) \<inter> set fs = {}"
    "set (concat cs) \<union> set fs = {1..ms_raw_used s}" "ms_raw_used s \<le> ms_max s"
    "ms_used s = length (concat cs)" "length (ms_buckets s) = length cs"
    "length (concat cs) + length fs = ms_raw_used s"
proof -
  show "length (concat cs) + length fs = ms_raw_used s"
    using card_interval_length [of "concat cs @ fs" "ms_raw_used s"] assms
    by (auto simp: ms_shape_def)
qed (use assms in \<open>auto simp: ms_shape_def ms_buckets_num_def\<close>)

lemma ms_shape_slot:
  assumes "ms_shape s cs fs" "i \<in> set (concat cs)"
  shows "0 < i" "i \<le> ms_max s"
proof -
  have "i \<in> {1..ms_raw_used s}" using ms_shapeD(9) [OF assms(1)] assms(2) by blast
  then show "0 < i" "i \<le> ms_max s" using ms_shapeD(10) [OF assms(1)] by auto
qed

lemma ms_bucket_some:
  "ms_shape s cs fs \<Longrightarrow> ms_bucket_index (Some x) s = Some (x mod length cs)"
  using ms_shapeD(1,2) [of s cs fs] by (auto simp: ms_bucket_index_def)

lemma ms_lookup_some:
  assumes "ms_ok triv hT key s"
  shows "ms_lookup key s k = Some (i, v) \<longleftrightarrow> i \<in> set (ms_slots s) \<and> ms_deref s i = Some v \<and> key v = k"
proof -
  let ?P = "\<lambda>i. map_option key (ms_deref s i) = Some k"
  have inj: "i = j" if "i \<in> set (ms_slots s)" "j \<in> set (ms_slots s)" "?P i" "?P j" for i j
    using ms_okD(2) [OF assms] that by (auto simp: ms_keys_def ms_slots_def inj_on_def)
  show ?thesis
  proof (cases "List.find ?P (ms_slots s)")
    case None
    then have "ms_lookup key s k = None" by (simp add: ms_lookup_def)
    moreover have "\<forall>i \<in> set (ms_slots s). \<not> ?P i" using None by (auto simp: find_None_iff)
    ultimately show ?thesis by auto
  next
    case (Some j)
    then have "j \<in> set (ms_slots s)" "?P j" by (auto simp: find_Some_iff)
    with inj [of i j] Some show ?thesis by (auto simp: ms_lookup_def)
  qed
qed

lemma ms_lookup_none:
  assumes "ms_ok triv hT key s"
  shows "ms_lookup key s k = None \<longleftrightarrow> (\<forall>i \<in> set (ms_slots s). \<forall>v. ms_deref s i = Some v \<longrightarrow> key v \<noteq> k)"
  using ms_lookup_some [OF assms, of k] by (cases "ms_lookup key s k") auto

lemma ms_lookup_eqI:
  assumes "ms_ok triv hT key s"
    and "\<And>k i v. m k = Some (i, v) \<longleftrightarrow> i \<in> set (ms_slots s) \<and> ms_deref s i = Some v \<and> key v = k"
  shows "ms_lookup key s = m"
proof
  fix k
  show "ms_lookup key s k = m k"
  proof (cases "m k")
    case None
    then have "ms_lookup key s k \<noteq> Some (i, v)" for i v
      using assms(2) [of k i v] ms_lookup_some [OF assms(1), of k i v] by simp
    then show ?thesis using None by (cases "ms_lookup key s k") auto
  next
    case (Some e)
    then show ?thesis
      using assms(2) [of k "fst e" "snd e"] ms_lookup_some [OF assms(1), of k "fst e" "snd e"] by simp
  qed
qed

lemma ms_lookup_card:
  assumes "ms_ok triv hT key s"
  shows "finite (dom (ms_lookup key s))" "card (dom (ms_lookup key s)) = ms_used s"
proof -
  let ?g = "\<lambda>i. key (the (ms_deref s i))"
  note sh = ms_okD(1) [OF assms] and ks = ms_okD(2) [OF assms, unfolded ms_keys_def]
  have live: "\<exists>v. ms_deref s i = Some v" if "i \<in> set (ms_slots s)" for i
    using ms_keys_live [OF ms_okD(2) [OF assms], of i] that by (simp add: ms_slots_def)
  have "dom (ms_lookup key s) = ?g ` set (ms_slots s)"
  proof (intro equalityI subsetI)
    fix k assume "k \<in> dom (ms_lookup key s)"
    then obtain i v where "ms_lookup key s k = Some (i, v)" by auto
    then have "i \<in> set (ms_slots s)" "ms_deref s i = Some v" "key v = k"
      using ms_lookup_some [OF assms] by auto
    then show "k \<in> ?g ` set (ms_slots s)" by (metis image_eqI option.sel)
  next
    fix k assume "k \<in> ?g ` set (ms_slots s)"
    then obtain i where "i \<in> set (ms_slots s)" "k = ?g i" by auto
    moreover from this live obtain v where "ms_deref s i = Some v" by blast
    ultimately show "k \<in> dom (ms_lookup key s)"
      using ms_lookup_some [OF assms, of k i v] by auto
  qed
  moreover have "inj_on ?g (set (ms_slots s))" using ks by (simp add: ms_slots_def)
  moreover have "card (set (ms_slots s)) = ms_used s"
    using ms_shapeD(6,11) [OF sh] unfolding ms_slots_def by (metis distinct_card)
  ultimately show "finite (dom (ms_lookup key s))" "card (dom (ms_lookup key s)) = ms_used s"
    by (auto simp: card_image)
qed

lemma ms_new_ok:
  assumes "0 < b"
  shows "ms_ok triv hT key (ms_new n b :: 'a mem_set)" "ms_lookup key (ms_new n b :: 'a mem_set) = Map.empty"
    "ms_max (ms_new n b :: 'a mem_set) = n"
proof -
  let ?s = "ms_new n b :: 'a mem_set"
  show m: "ms_max ?s = n" by (simp add: ms_max_def ms_new_def)
  have "ms_shape ?s (replicate b []) []"
    using assms m by (auto simp: ms_shape_def ms_new_def ms_buckets_num_def)
  moreover have "i \<notin> ms_live ?s" for i
    by (cases "0 < i \<and> i \<le> n") (auto simp: ms_live_def ms_deref_def ms_new_def ms_max_def)
  then have "ms_keys triv hT key ?s (replicate b [])" by (auto simp: ms_keys_def)
  ultimately show "ms_ok triv hT key ?s" by (rule ms_okI)
  then show "ms_lookup key ?s = Map.empty"
    using ms_shape_lists(3) [OF \<open>ms_shape ?s (replicate b []) []\<close>]
    by (intro ms_lookup_eqI) auto
qed

section \<open>What insertion and erasure do to the chains\<close>

lemma ms_alloc:
  assumes "ms_shape s cs fs" "\<not> ms_full s"
  shows "\<exists>i fh raw fs'.
    (if ms_free s = 0 then
       do { cassert (ms_raw_used s < ms_max s);
            Some (ms_raw_used s + 1, s\<lparr>ms_raw_used := ms_raw_used s + 1\<rparr>) }
     else Some (ms_free s, s\<lparr>ms_free := ms_nx s (ms_free s)\<rparr>))
      = Some (i, s\<lparr>ms_free := fh, ms_raw_used := raw\<rparr>)
    \<and> chain (ms_nx s) fh fs' \<and> distinct (i # concat cs @ fs')
    \<and> set (i # concat cs @ fs') = {1..raw} \<and> raw \<le> ms_max s"
proof (cases "ms_free s = 0")
  case True
  note sh = ms_shapeD [OF assms(1)]
  have fs: "fs = []" using chain_start_0 [OF sh(5)] True by simp
  then have lt: "ms_raw_used s < ms_max s"
    using sh(10,11,13) assms(2) by (simp add: ms_full_def)
  have st: "set (concat cs) = {1..ms_raw_used s}" using fs sh(9) by simp
  have "Suc (ms_raw_used s) \<notin> set (concat cs)" unfolding st by simp
  moreover have "insert (Suc (ms_raw_used s)) {1..ms_raw_used s} = {1..Suc (ms_raw_used s)}" by auto
  ultimately show ?thesis using True lt st sh(6)
    by (intro exI [of _ "ms_raw_used s + 1"] exI [of _ 0] exI [of _ "[]"]) (simp del: set_concat)
next
  case False
  note sh = ms_shapeD [OF assms(1)]
  obtain ys where "fs = ms_free s # ys" "chain (ms_nx s) (ms_nx s (ms_free s)) ys"
    using chain_nonempty [OF sh(5) False] by blast
  with False assms(1) show ?thesis
    by (intro exI [of _ "ms_free s"] exI [of _ "ms_nx s (ms_free s)"] exI [of _ "ms_raw_used s"]
        exI [of _ ys]) (auto simp: ms_shape_def)
qed

lemma ms_insert_impl_shape:
  assumes sh: "ms_shape s cs fs" and b: "b < length cs" and nf: "\<not> ms_full s"
  shows "\<exists>i t fs'. ms_insert_impl b v s = Some (i, t) \<and> ms_shape t (cs[b := i # cs ! b]) fs'
    \<and> i \<noteq> 0 \<and> i \<le> ms_max s \<and> i \<notin> set (concat cs) \<and> ms_max t = ms_max s
    \<and> (\<forall>j > 0. ms_deref t j = (if j = i then Some v else ms_deref s j))"
proof -
  note shd = ms_shapeD [OF sh]
  obtain i fh raw fs' where a:
    "(if ms_free s = 0 then
       do { cassert (ms_raw_used s < ms_max s);
            Some (ms_raw_used s + 1, s\<lparr>ms_raw_used := ms_raw_used s + 1\<rparr>) }
     else Some (ms_free s, s\<lparr>ms_free := ms_nx s (ms_free s)\<rparr>))
      = Some (i, s\<lparr>ms_free := fh, ms_raw_used := raw\<rparr>)"
    and c: "chain (ms_nx s) fh fs'" "distinct (i # concat cs @ fs')"
      "set (i # concat cs @ fs') = {1..raw}" "raw \<le> ms_max s"
    using ms_alloc [OF sh nf] by blast
  define t where "t = s\<lparr>ms_free := fh, ms_raw_used := raw, ms_next := (ms_next s)[i - 1 := ms_buckets s ! b],
    ms_buckets := (ms_buckets s)[b := i], ms_used := ms_used s + 1,
    ms_value := (ms_value s)[i - 1 := Some v]\<rparr>"
  have "i \<in> {1..raw}" using c(3) by (metis list.set_intros(1))
  then have i: "0 < i" "i \<le> ms_max s" "i \<notin> set (concat cs)" "i \<notin> set fs'" using c by auto
  have "ms_insert_impl b v s = Some (i, t)"
    unfolding ms_insert_impl_def a using i(1) by (simp add: t_def ms_copy_one_def)
  moreover have mx: "ms_max t = ms_max s" by (simp add: t_def ms_max_def)
  moreover have "ms_deref t j = (if j = i then Some v else ms_deref s j)" if "0 < j" for j
    using that i by (auto simp: t_def ms_deref_def ms_max_def nth_list_update)
  moreover have "ms_shape t (cs[b := i # cs ! b]) fs'"
  proof -
    have nx: "ms_nx t j = ((ms_nx s)(i := ms_buckets s ! b)) j" if "0 < j" for j
      using that i shd(3) by (auto simp: t_def ms_nx_def nth_list_update)
    have keep: "chain (ms_nx t) h xs = chain (ms_nx s) h xs" if "i \<notin> set xs" "0 \<notin> set xs" for h xs
    proof (rule chain_cong)
      fix j assume "j \<in> set xs"
      with that have "0 < j" "j \<noteq> i" by (auto intro: gr0I)
      then show "ms_nx t j = ms_nx s j" by (simp add: nx)
    qed
    have bt: "ms_buckets t = (ms_buckets s)[b := i]" by (simp add: t_def)
    have z: "0 \<notin> set (cs ! d) \<and> i \<notin> set (cs ! d)" if "d < length cs" for d
      using chain_0_notin [OF shd(4) [OF that]] i(3) that by auto
    have "chain (ms_nx t) (ms_buckets t ! d) (cs[b := i # cs ! b] ! d)" if "d < length cs" for d
      using that z [OF that] z [OF b] shd(4) [OF that] shd(4) [OF b] shd(12) i(1) nx [of i] b
      by (cases "d = b") (simp_all add: keep bt)
    moreover have "chain (ms_nx t) fh fs'" using keep i(4) c(1) chain_0_notin [OF c(1)] by simp
    moreover have e: "concat (cs[b := i # cs ! b]) = concat (take b cs) @ i # cs ! b @ concat (drop (Suc b) cs)"
      "concat cs = concat (take b cs) @ cs ! b @ concat (drop (Suc b) cs)"
      using b by (simp_all add: concat_upd flip: concat_split)
    moreover have "distinct (concat (cs[b := i # cs ! b]) @ fs')"
      "set (concat (cs[b := i # cs ! b]) @ fs') = {1..raw}"
      using c(2,3) unfolding e by auto
    moreover have "length (concat (cs[b := i # cs ! b])) = length (concat cs) + 1" unfolding e by simp
    ultimately show ?thesis using shd(1,2,3,11) c(4) mx b
      unfolding ms_shape_def by (simp add: t_def ms_buckets_num_def del: concat_append)
  qed
  ultimately show ?thesis using i by (intro exI [of _ i] exI [of _ t] exI [of _ fs']) simp
qed

lemma ms_erase_seek_chain:
  "chain f i (us @ x # ws) \<Longrightarrow> \<forall>u \<in> set us. \<not> p u \<Longrightarrow> p x \<Longrightarrow>
   ms_erase_seek f p pre i = Some (if us = [] then pre else PNext (last us), x)"
proof (induction us arbitrary: i pre)
  case Nil
  then show ?case by (auto simp: ms_erase_seek.simps)
next
  case (Cons u us)
  then show ?case by (auto simp: ms_erase_seek.simps)
qed

lemma ms_erase_seek_none:
  "chain f i xs \<Longrightarrow> \<forall>u \<in> set xs. \<not> p u \<Longrightarrow> \<exists>q. ms_erase_seek f p pre i = Some (q, 0)"
  by (induction xs arbitrary: i pre) (auto simp: ms_erase_seek.simps)

text \<open>The unlinking statements of \<^verbatim>\<open>erase\<close>, after the loop has found slot \<open>x\<close>.\<close>

definition ms_unlinked :: "bool \<Rightarrow> ms_ptr \<Rightarrow> nat \<Rightarrow> 'a mem_set \<Rightarrow> 'a mem_set" where
  "ms_unlinked triv pre x s =
     (let s' = ms_store pre (ms_nx s x) s
      in s'\<lparr>ms_next := (ms_next s')[x - 1 := ms_free s], ms_free := x, ms_used := ms_used s - 1,
            ms_value := (if triv then ms_value s else (ms_value s)[x - 1 := None])\<rparr>)"

lemma ms_unlinked_shape:
  assumes sh: "ms_shape s cs fs" and b: "b < length cs" and x: "cs ! b = us @ x # ws"
    and t: "t = ms_unlinked triv (if us = [] then PBucket b else PNext (last us)) x s"
  shows "ms_shape t (cs[b := us @ ws]) (x # fs)" "ms_max t = ms_max s"
    "\<And>j. 0 < j \<Longrightarrow> ms_deref t j = (if j = x \<and> \<not> triv then None else ms_deref s j)"
proof -
  note shd = ms_shapeD [OF sh]
  let ?l = "last us"
  have cb: "chain (ms_nx s) (ms_buckets s ! b) (us @ x # ws)" using shd(4) [OF b] x by simp
  have e: "concat (cs[b := us @ ws]) = concat (take b cs) @ us @ ws @ concat (drop (Suc b) cs)"
    "concat cs = concat (take b cs) @ us @ x # ws @ concat (drop (Suc b) cs)"
    using b x concat_split [OF b] by (simp_all add: concat_upd)
  have xin: "x \<in> set (concat cs)" unfolding e by simp
  have x0: "0 < x" "x \<le> ms_max s" "x \<notin> set (us @ ws)"
    using ms_shape_slot [OF sh xin] shd(6) unfolding e by auto
  have lin: "us \<noteq> [] \<Longrightarrow> ?l \<in> set (concat cs)" unfolding e by simp
  have l0: "us \<noteq> [] \<Longrightarrow> 0 < ?l \<and> ?l \<le> ms_max s" using ms_shape_slot [OF sh lin] by blast
  show mx: "ms_max t = ms_max s" by (simp add: t ms_unlinked_def Let_def ms_max_def)
  show dr: "ms_deref t j = (if j = x \<and> \<not> triv then None else ms_deref s j)" if "0 < j" for j
    using that x0 by (auto simp: t ms_unlinked_def Let_def ms_deref_def ms_max_def nth_list_update)
  have nx: "ms_nx t j = (if us = [] then (ms_nx s)(x := ms_free s)
      else (ms_nx s)(?l := ms_nx s x, x := ms_free s)) j" if "0 < j" for j
    using that x0 l0 shd(3) by (auto simp: t ms_unlinked_def Let_def ms_nx_def nth_list_update)
  have keep: "chain (ms_nx t) h xs = chain (ms_nx s) h xs"
    if "x \<notin> set xs" "0 \<notin> set xs" "us = [] \<or> ?l \<notin> set xs" for h xs
  proof (rule chain_cong)
    fix j assume "j \<in> set xs"
    with that have "0 < j" "j \<noteq> x" "us = [] \<or> j \<noteq> ?l" by (auto intro: gr0I)
    then show "ms_nx t j = ms_nx s j" by (auto simp: nx)
  qed
  have "chain (ms_nx t) (ms_buckets t ! d) (cs[b := us @ ws] ! d)" if d: "d < length cs" for d
  proof (cases "d = b")
    case False
    have "x \<notin> set (cs ! d)" "us = [] \<or> ?l \<notin> set (cs ! d)"
      using concat_distinct_nth [OF shd(6), of x d b] concat_distinct_nth [OF shd(6), of ?l d b] d b False x
      by auto
    then show ?thesis using False shd(4) [OF d] chain_0_notin [OF shd(4) [OF d]] keep
      by (auto simp: t ms_unlinked_def Let_def)
  next
    case True
    have ws: "chain (ms_nx s) (ms_nx s x) ws" using cb by (rule chain_suffix)
    show ?thesis
    proof (cases "us = []")
      case us: True
      have "ms_buckets t ! b = ms_nx s x" using us b shd(12) by (simp add: t ms_unlinked_def Let_def)
      with True b us ws keep [of ws] x0(3) chain_0_notin [OF ws] show ?thesis by simp
    next
      case us: False
      have "distinct (us @ x # ws)" using shd(6) unfolding e by auto
      from chain_remove [OF cb this us]
      have r: "chain ((ms_nx s)(?l := ms_nx s x)) (ms_buckets s ! b) (us @ ws)" .
      have "chain (ms_nx t) h (us @ ws) = chain ((ms_nx s)(?l := ms_nx s x)) h (us @ ws)" for h
      proof (rule chain_cong)
        fix j assume "j \<in> set (us @ ws)"
        then have "0 < j" "j \<noteq> x" using chain_0_notin [OF r] x0(3) by (auto intro: gr0I)
        then show "ms_nx t j = ((ms_nx s)(?l := ms_nx s x)) j" using us by (simp add: nx)
      qed
      with r True b us show ?thesis by (simp add: t ms_unlinked_def Let_def)
    qed
  qed
  moreover have "chain (ms_nx t) x (x # fs)"
  proof -
    have "x \<notin> set fs" "us = [] \<or> ?l \<notin> set fs" using xin lin shd(8) by blast+
    then have "chain (ms_nx t) (ms_free s) fs" using keep shd(5) chain_0_notin [OF shd(5)] by simp
    then show ?thesis using nx [OF x0(1)] x0(1) by (auto split: if_splits)
  qed
  moreover have "distinct (concat (cs[b := us @ ws]) @ x # fs)"
    "set (concat (cs[b := us @ ws]) @ x # fs) = {1..ms_raw_used s}"
    "length (concat (cs[b := us @ ws])) = length (concat cs) - 1"
    using shd(6,7,8,9) unfolding e by auto
  moreover have "ms_buckets_num t = ms_buckets_num s" "ms_raw_used t = ms_raw_used s" "ms_free t = x"
    "length (ms_next t) = length (ms_next s)" "ms_used t = ms_used s - 1"
    by (auto simp: t ms_unlinked_def Let_def ms_buckets_num_def)
  ultimately show "ms_shape t (cs[b := us @ ws]) (x # fs)"
    using shd(1,2,3,10,11) mx unfolding ms_shape_def by (simp del: chain.simps set_concat)
qed

section \<open>The operations under the contract of the functors\<close>

text \<open>
  What the set needs of its hash and equality functors: both look at nothing but a key, and
  agree between a stored value and a bare key.
\<close>

locale hash_eq =
  fixes triv :: bool
    and hT :: "'a \<Rightarrow> nat" and eT :: "'a \<Rightarrow> 'a \<Rightarrow> bool"
    and hK :: "'k \<Rightarrow> nat" and eK :: "'a \<Rightarrow> 'k \<Rightarrow> bool"
    and key :: "'a \<Rightarrow> 'k"
  assumes hash_key: "hT x = hK (key x)"
    and eq_value: "eT x y \<longleftrightarrow> key x = key y"
    and eq_key: "eK x k \<longleftrightarrow> key x = k"
begin

abbreviation ok :: "'a mem_set \<Rightarrow> bool" where
  "ok \<equiv> ms_ok triv hT key"

lemma match_iff: "ms_match eK k s i \<longleftrightarrow> (\<exists>v. ms_deref s i = Some v \<and> key v = k)"
  by (auto simp: ms_match_def eq_key split: option.splits)

lemma match_value: "ms_match eT v s = ms_match eK (key v) s"
  by (auto simp: fun_eq_iff ms_match_def eq_key eq_value split: option.splits)

text \<open>The slots of a key are all in the chain of its bucket, and there is one at most.\<close>

lemma bucket_find:
  assumes "ok s"
  shows "found (List.find (ms_match eK k s) (ms_chains s ! (hK k mod length (ms_chains s))))
    = (case ms_lookup key s k of None \<Rightarrow> 0 | Some (i, _) \<Rightarrow> i)" (is "found ?r = _")
proof -
  let ?n = "length (ms_chains s)" and ?c = "ms_chains s ! (hK k mod length (ms_chains s))"
  note sh = ms_okD(1) [OF assms] and ks = ms_okD(2) [OF assms, unfolded ms_keys_def]
  have n: "hK k mod ?n < ?n" using ms_shapeD(2) [OF sh] by simp
  show ?thesis
  proof (cases "ms_lookup key s k")
    case None
    have "set ?c \<subseteq> set (ms_slots s)" using n by (auto simp: ms_slots_def in_concat_nth simp del: set_concat)
    then have "?r = None"
      using None ms_lookup_none [OF assms, of k] by (auto simp: find_None_iff match_iff)
    with None show ?thesis by simp
  next
    case (Some e)
    obtain i v where e: "e = (i, v)" by force
    then have i: "i \<in> set (ms_slots s)" "ms_deref s i = Some v" "key v = k"
      using Some ms_lookup_some [OF assms] by auto
    then obtain b where b: "b < ?n" "i \<in> set (ms_chains s ! b)"
      by (auto simp: ms_slots_def in_concat_nth simp del: set_concat)
    then have "hT v mod ?n = b" using ks i(2) by fastforce
    then have ic: "i \<in> set ?c" using b i(3) hash_key by simp
    moreover have "ms_match eK k s i" using i by (simp add: match_iff)
    ultimately obtain j where j: "?r = Some j" by (cases ?r) (auto simp: find_None_iff)
    then have "j \<in> set ?c" "ms_match eK k s j" by (auto simp: find_Some_iff)
    then have "j \<in> set (ms_slots s)" "ms_match eK k s j"
      using n by (auto simp: ms_slots_def in_concat_nth simp del: set_concat)
    then have "ms_lookup key s k = Some (j, the (ms_deref s j))"
      using ms_lookup_some [OF assms] by (auto simp: match_iff)
    with Some e j show ?thesis by simp
  qed
qed

lemma find_index_impl_spec:
  assumes "ok s"
  shows "ms_find_index_impl eK (hK k mod length (ms_chains s)) k s
    = Some (case ms_lookup key s k of None \<Rightarrow> 0 | Some (i, _) \<Rightarrow> i)"
proof -
  note sh = ms_okD(1) [OF assms]
  have "hK k mod length (ms_chains s) < length (ms_chains s)" using ms_shapeD(2) [OF sh] by simp
  with seek_chain [OF ms_shapeD(4) [OF sh this]] bucket_find [OF assms] show ?thesis
    using ms_shapeD(1) [OF sh] by (simp add: ms_find_index_impl_def)
qed

lemma find_index_spec:
  assumes "ok s"
  shows "ms_find_index hK eK k s = Some (case ms_lookup key s k of None \<Rightarrow> 0 | Some (i, _) \<Rightarrow> i)"
  using ms_bucket_some [OF ms_okD(1) [OF assms]] find_index_impl_spec [OF assms]
  by (simp add: ms_find_index_def)

lemma bucket_of:
  assumes "ok s"
  shows "ms_bucket_index (Some x) s = Some (x mod length (ms_chains s))" "0 < length (ms_chains s)"
  using ms_bucket_some [OF ms_okD(1) [OF assms]] ms_shapeD(2) [OF ms_okD(1) [OF assms]] by auto

lemma insert_find:
  assumes "ok s"
  shows "ms_find_index_impl eT (hT v mod length (ms_chains s)) v s
    = Some (case ms_lookup key s (key v) of None \<Rightarrow> 0 | Some (i, _) \<Rightarrow> i)"
  using find_index_impl_spec [OF assms, of "key v"]
  by (simp add: ms_find_index_impl_def match_value hash_key)

lemma lookup_pos:
  assumes "ok s" "ms_lookup key s k = Some (i, v)"
  shows "i \<noteq> 0" "key v = k"
proof -
  have "i \<in> set (ms_slots s)" "key v = k" using ms_lookup_some [OF assms(1), of k i v] assms(2) by auto
  then show "i \<noteq> 0" "key v = k"
    using ms_shape_slot(1) [OF ms_okD(1) [OF assms(1)], of i] by (auto simp: ms_slots_def)
qed

lemma insert_present:
  assumes "ok s" "ms_lookup key s (key v) = Some (i, w)"
  shows "ms_insert hT eT v s = Some ((i, False), s)"
  using assms bucket_of(1) [OF assms(1)] insert_find [OF assms(1), of v] lookup_pos [OF assms]
  by (simp add: ms_insert_def)

lemma insert_refused:
  assumes "ok s" "ms_lookup key s (key v) = None" "ms_full s"
  shows "ms_insert hT eT v s = Some ((0, False), s)"
  using assms bucket_of(1) [OF assms(1)] insert_find [OF assms(1), of v]
  by (simp add: ms_insert_def)

lemma keys_insert:
  assumes ok: "ok s" and new: "ms_lookup key s (key v) = None"
    and b: "b = hT v mod length (ms_chains s)" and i: "0 < i" "i \<le> ms_max s" "i \<notin> set (ms_slots s)"
    and mx: "ms_max t = ms_max s"
    and dr: "\<And>j. 0 < j \<Longrightarrow> ms_deref t j = (if j = i then Some v else ms_deref s j)"
  shows "ms_keys triv hT key t ((ms_chains s)[b := i # ms_chains s ! b])"
proof -
  let ?cs = "ms_chains s"
  note sh = ms_okD(1) [OF ok] and ks = ms_okD(2) [OF ok]
  have n: "b < length ?cs" using bucket_of(2) [OF ok] b by simp
  have S: "set (concat (?cs[b := i # ?cs ! b])) = insert i (set (ms_slots s))"
    using n by (auto simp: concat_upd concat_split [OF n] ms_slots_def simp del: set_concat)
  have p: "0 < j" if "j \<in> set (ms_slots s)" for j
    using ms_shape_slot(1) [OF sh] that by (simp add: ms_slots_def)
  have old: "ms_deref t j = ms_deref s j" if "j \<in> set (ms_slots s)" for j
    using dr p [OF that] i(3) that by auto
  have "\<exists>w. ms_deref t j = Some w \<and> hT w mod length ?cs = d"
    if d: "d < length ?cs" "j \<in> set (?cs[b := i # ?cs ! b] ! d)" for d j
  proof (cases "j = i \<and> d = b")
    case True
    then show ?thesis using dr i(1) b by simp
  next
    case False
    then have j: "j \<in> set (?cs ! d)" using d i(3) by (cases "d = b") (auto simp: nth_list_update)
    then have "j \<in> set (ms_slots s)" unfolding ms_slots_def in_concat_nth using d(1) by blast
    then show ?thesis using old j d(1) ks by (simp add: ms_keys_def)
  qed
  moreover have "inj_on (\<lambda>j. key (the (ms_deref t j))) (insert i (set (ms_slots s)))"
  proof -
    have "inj_on (\<lambda>j. key (the (ms_deref t j))) (set (ms_slots s))"
      using ks old unfolding ms_keys_def ms_slots_def inj_on_def by metis
    moreover have "key (the (ms_deref s j)) \<noteq> key v" if "j \<in> set (ms_slots s)" for j
      using new ms_lookup_none [OF ok] ms_keys_live [OF ks, of j] that by (auto simp: ms_slots_def)
    then have "key v \<notin> (\<lambda>j. key (the (ms_deref t j))) ` set (ms_slots s)" using old by fastforce
    moreover have "key (the (ms_deref t i)) = key v" using dr i(1) by simp
    ultimately show ?thesis using i(3) by (simp add: inj_on_insert)
  qed
  moreover have "triv \<or> ms_live t = insert i (set (ms_slots s))"
  proof -
    have "ms_live t = insert i (ms_live s)" using dr mx i(1,2) by (auto simp: ms_live_def)
    then show ?thesis using ks by (auto simp: ms_keys_def ms_slots_def simp del: set_concat)
  qed
  ultimately show ?thesis unfolding ms_keys_def S by simp
qed

lemma insert_fresh:
  assumes ok: "ok s" and new: "ms_lookup key s (key v) = None" and nf: "\<not> ms_full s"
  shows "\<exists>i t. ms_insert hT eT v s = Some ((i, True), t) \<and> ok t \<and> ms_max t = ms_max s
    \<and> ms_buckets_num t = ms_buckets_num s \<and> ms_lookup key t = (ms_lookup key s)(key v \<mapsto> (i, v))"
proof -
  let ?b = "hT v mod length (ms_chains s)"
  note sh = ms_okD(1) [OF ok]
  have n: "?b < length (ms_chains s)" using bucket_of(2) [OF ok] by simp
  from ms_insert_impl_shape [OF sh n nf, of v] obtain i t fs' where
    t: "ms_insert_impl ?b v s = Some (i, t)"
    "ms_shape t ((ms_chains s)[?b := i # ms_chains s ! ?b]) fs'" "i \<noteq> 0" "i \<le> ms_max s"
    "i \<notin> set (ms_slots s)" "ms_max t = ms_max s"
    "\<forall>j > 0. ms_deref t j = (if j = i then Some v else ms_deref s j)" by (auto simp: ms_slots_def)
  have "ms_insert hT eT v s = Some ((i, True), t)"
    using t(1) bucket_of(1) [OF ok] insert_find [OF ok, of v] new nf by (simp add: ms_insert_def)
  moreover have okt: "ok t"
    using keys_insert [OF ok new refl _ t(4,5,6)] t(2,3,7) by (auto intro: ms_okI)
  moreover have "ms_buckets_num t = ms_buckets_num s"
    using ms_shapeD(1) [OF t(2)] ms_shapeD(1) [OF sh] by simp
  moreover have "ms_lookup key t = (ms_lookup key s)(key v \<mapsto> (i, v))"
  proof (rule ms_lookup_eqI [OF okt])
    fix k j w
    have S: "set (ms_slots t) = insert i (set (ms_slots s))"
      using n unfolding ms_shape_lists(3) [OF t(2)]
      by (auto simp: concat_upd concat_split [OF n] ms_slots_def simp del: set_concat)
    have "0 < j \<and> j \<noteq> i" if "j \<in> set (ms_slots s)"
      using ms_shape_slot(1) [OF sh] that t(5) by (auto simp: ms_slots_def simp del: set_concat)
    then show "((ms_lookup key s)(key v \<mapsto> (i, v))) k = Some (j, w) \<longleftrightarrow>
        j \<in> set (ms_slots t) \<and> ms_deref t j = Some w \<and> key w = k"
      using ms_lookup_some [OF ok, of k j w] t(3,7) new ms_lookup_none [OF ok, of "key v"]
      unfolding S by (cases "j = i") auto
  qed
  ultimately show ?thesis using t(6) by blast
qed

lemma erase_at:
  assumes ok: "ok s" and l: "ms_lookup key s k = Some (x, v)"
  shows "\<exists>t. ms_erase triv hK eK k s = Some (x, t) \<and> ok t \<and> ms_max t = ms_max s
    \<and> ms_buckets_num t = ms_buckets_num s \<and> ms_lookup key t = (ms_lookup key s)(k := None)"
proof -
  let ?cs = "ms_chains s"
  let ?b = "hK k mod length ?cs"
  note sh = ms_okD(1) [OF ok] and ks = ms_okD(2) [OF ok]
  have n: "?b < length ?cs" using bucket_of(2) [OF ok] by simp
  have x0: "x \<noteq> 0" using lookup_pos [OF ok l] by simp
  have f: "found (List.find (ms_match eK k s) (?cs ! ?b)) = x"
    using bucket_find [OF ok, of k] l by simp
  then obtain us ws where c: "?cs ! ?b = us @ x # ws" "ms_match eK k s x" "\<forall>u \<in> set us. \<not> ms_match eK k s u"
    using found_find_split x0 by blast
  define pre where "pre = (if us = [] then PBucket ?b else PNext (last us))"
  define t where "t = ms_unlinked triv pre x s"
  have ch: "chain (ms_nx s) (ms_buckets s ! ?b) (us @ x # ws)" using ms_shapeD(4) [OF sh n] c(1) by simp
  have bne: "ms_buckets s ! ?b \<noteq> 0" using chain_start_0 [OF ch] by simp
  have S: "set (ms_slots s) = insert x (set (concat (?cs[?b := us @ ws])))"
    "x \<notin> set (concat (?cs[?b := us @ ws]))" 
    using n c(1) ms_shapeD(6) [OF sh] concat_split [OF n]
    by (auto simp: concat_upd ms_slots_def simp del: set_concat)
  have xs: "x \<in> set (ms_slots s)" using S by simp
  have live: "ms_deref s x = Some v" using ms_lookup_some [OF ok] l by blast
  have used: "0 < ms_used s" using ms_shapeD(11) [OF sh] length_pos_if_in_set [OF xs] by (simp add: ms_slots_def)
  have tsh: "ms_shape t (?cs[?b := us @ ws]) (x # ms_frees s)" "ms_max t = ms_max s"
    and dr: "\<And>j. 0 < j \<Longrightarrow> ms_deref t j = (if j = x \<and> \<not> triv then None else ms_deref s j)"
    using ms_unlinked_shape [OF sh n c(1), of t triv] by (auto simp: t_def pre_def)
  have dp: "ms_deref (s0\<lparr>ms_next := a, ms_free := b, ms_used := c\<rparr>) x = ms_deref s0 x" for s0 :: "'a mem_set" and a b c
    by (simp add: ms_deref_def)
  have dstore: "ms_deref (ms_store pre y s) x = ms_deref s x" "ms_value (ms_store pre y s) = ms_value s"
    "ms_free (ms_store pre y s) = ms_free s" "ms_used (ms_store pre y s) = ms_used s" for y
    by (cases pre; simp add: ms_deref_def)+
  have "ms_erase triv hK eK k s = Some (x, t)"
    using used bucket_of(1) [OF ok] n ms_shapeD(1) [OF sh] bne x0 live
      ms_erase_seek_chain [OF ch c(3,2), of "PBucket ?b"]
    by (simp add: ms_erase_def ms_destruct_one_def pre_def [symmetric] t_def ms_unlinked_def Let_def
        dstore dp)
  moreover have old: "0 < j" "j \<noteq> x" if "j \<in> set (concat (?cs[?b := us @ ws]))" for j
    using S that ms_shape_slot(1) [OF sh, of j] by (auto simp: ms_slots_def simp del: set_concat)
  moreover have okt: "ok t"
  proof (rule ms_okI [OF tsh(1)])
    have "\<exists>w. ms_deref t j = Some w \<and> hT w mod length ?cs = d"
      if d: "d < length ?cs" "j \<in> set (?cs[?b := us @ ws] ! d)" for d j
    proof -
      have "j \<in> set (?cs ! d)" using d c(1) by (cases "d = ?b") auto
      moreover have "j \<in> set (concat (?cs[?b := us @ ws]))" unfolding in_concat_nth using d by auto
      ultimately show ?thesis using dr old [of j] d(1) ks by (simp add: ms_keys_def)
    qed
    moreover have "inj_on (\<lambda>j. key (the (ms_deref t j))) (set (concat (?cs[?b := us @ ws])))"
    proof -
      have "inj_on (\<lambda>j. key (the (ms_deref s j))) (set (concat (?cs[?b := us @ ws])))"
        using ks S(1) by (auto simp: ms_keys_def ms_slots_def intro: inj_on_subset simp del: set_concat)
      then show ?thesis by (rule inj_on_cong [THEN iffD1, rotated]) (use dr old in auto)
    qed
    moreover have "triv \<or> ms_live t = set (concat (?cs[?b := us @ ws]))"
    proof (cases triv)
      case False
      then have "ms_live t = ms_live s - {x}" using dr tsh(2) by (auto simp: ms_live_def split: if_splits)
      then show ?thesis using ks S False by (auto simp: ms_keys_def ms_slots_def simp del: set_concat)
    qed simp
    ultimately show "ms_keys triv hT key t (?cs[?b := us @ ws])" by (simp add: ms_keys_def)
  qed
  moreover have "ms_buckets_num t = ms_buckets_num s"
    using ms_shapeD(1) [OF tsh(1)] ms_shapeD(1) [OF sh] by simp
  moreover have "ms_lookup key t = (ms_lookup key s)(k := None)"
  proof (rule ms_lookup_eqI [OF okt])
    fix k' j w
    have C: "j \<in> set (ms_slots t) \<longleftrightarrow> j \<in> set (ms_slots s) \<and> j \<noteq> x"
      using S unfolding ms_shape_lists(3) [OF tsh(1)] by auto
    have d: "ms_deref t j = ms_deref s j" if "j \<in> set (ms_slots t)"
      using dr old [of j] that unfolding ms_shape_lists(3) [OF tsh(1)] by auto
    have "key v = k" using lookup_pos [OF ok l] by simp
    moreover have "j = x" if "j \<in> set (ms_slots s)" "ms_deref s j = Some w" "key w = k"
      using ms_lookup_some [OF ok, of k j w] l that by simp
    moreover note live
    ultimately have "k' \<noteq> k \<longleftrightarrow> j \<noteq> x"
      if "j \<in> set (ms_slots s)" "ms_deref s j = Some w" "key w = k'"
      using that by (metis option.inject)
    then show "((ms_lookup key s)(k := None)) k' = Some (j, w) \<longleftrightarrow>
        j \<in> set (ms_slots t) \<and> ms_deref t j = Some w \<and> key w = k'"
      using ms_lookup_some [OF ok, of k' j w] C d by (cases "k' = k") auto
  qed
  ultimately show ?thesis using tsh(2) by blast
qed

lemma erase_absent:
  assumes ok: "ok s" and l: "ms_lookup key s k = None"
  shows "ms_erase triv hK eK k s = Some (0, s)"
proof -
  let ?b = "hK k mod length (ms_chains s)"
  note sh = ms_okD(1) [OF ok]
  have n: "?b < length (ms_chains s)" using bucket_of(2) [OF ok] by simp
  have "0 \<notin> set (ms_chains s ! ?b)" using chain_0_notin [OF ms_shapeD(4) [OF sh n]] .
  then have "\<forall>u \<in> set (ms_chains s ! ?b). \<not> ms_match eK k s u"
    using bucket_find [OF ok, of k] l by (simp add: found_find_0)
  from ms_erase_seek_none [OF ms_shapeD(4) [OF sh n] this] obtain q where
    "ms_erase_seek (ms_nx s) (ms_match eK k s) (PBucket ?b) (ms_buckets s ! ?b) = Some (q, 0)" by blast
  then show ?thesis using n bucket_of(1) [OF ok] ms_shapeD(1) [OF sh]
    by (simp add: ms_erase_def)
qed

lemma erase_iter:
  assumes ok: "ok s" and l: "ms_lookup key s k = Some (x, v)"
  shows "ms_erase_iter triv hT eT x s = ms_erase triv hK eK k s"
proof -
  have "ms_deref s x = Some v" "key v = k" "x \<noteq> 0"
    using ms_lookup_some [OF ok] lookup_pos [OF ok l] l by auto
  moreover from this have "ms_match eT v s = ms_match eK k s" "hT v = hK k"
    by (simp_all add: match_value hash_key)
  then have "ms_erase triv hT eT v s = ms_erase triv hK eK k s" by (simp only: ms_erase_def)
  ultimately show ?thesis by (simp add: ms_erase_iter_def)
qed

text \<open>The set keeps the contract of the keyed containers, also when it is full.\<close>

sublocale keyed: keyed_store ok "ms_lookup key" ms_max ms_used key "ms_insert hT eT"
  "ms_find_index hK eK" "ms_erase triv hK eK"
proof unfold_locales
  fix s :: "'a mem_set" and k i v w
  assume ok: "ok s"
  show "finite (dom (ms_lookup key s))" "ms_used s = card (dom (ms_lookup key s))"
    using ms_lookup_card [OF ok] by auto
  show "ms_used s \<le> ms_max s" using ms_shapeD(10,11,13) [OF ms_okD(1) [OF ok]] by simp
  show "ms_lookup key s k = Some (i, v) \<Longrightarrow> key v = k \<and> i \<noteq> 0" using lookup_pos [OF ok] by blast
  show "ms_find_index hK eK k s = Some (case ms_lookup key s k of None \<Rightarrow> 0 | Some (i, _) \<Rightarrow> i)"
    by (rule find_index_spec [OF ok])
  show "ms_lookup key s (key v) = None \<Longrightarrow> ms_used s < ms_max s \<Longrightarrow>
    \<exists>i t. ms_insert hT eT v s = Some ((i, True), t) \<and> ok t \<and> ms_max t = ms_max s
      \<and> ms_lookup key t = (ms_lookup key s)(key v \<mapsto> (i, v))"
    using insert_fresh [OF ok, of v] by (auto simp: ms_full_def)
  show "ms_lookup key s (key v) = Some (i, w) \<Longrightarrow> ms_used s < ms_max s \<Longrightarrow>
    ms_insert hT eT v s = Some ((i, False), s)" using insert_present [OF ok] by blast
  show "ms_lookup key s (key v) = Some (i, w) \<Longrightarrow> ms_insert hT eT v s = Some ((i, False), s)"
    using insert_present [OF ok] by blast
  show "ms_lookup key s (key v) = None \<Longrightarrow> ms_used s = ms_max s \<Longrightarrow>
    ms_insert hT eT v s = Some ((0, False), s)" using insert_refused [OF ok] by (simp add: ms_full_def)
  show "\<exists>t. ms_erase triv hK eK k s = Some (case ms_lookup key s k of None \<Rightarrow> 0 | Some (i, _) \<Rightarrow> i, t)
      \<and> ok t \<and> ms_max t = ms_max s \<and> ms_lookup key t = (ms_lookup key s)(k := None)"
  proof (cases "ms_lookup key s k")
    case None
    then have "(ms_lookup key s)(k := None) = ms_lookup key s" by auto
    with None erase_absent [OF ok None] ok show ?thesis by simp
  next
    case (Some e)
    obtain x v where e: "e = (x, v)" by force
    with Some erase_at [OF ok, of k x v] show ?thesis by auto
  qed
qed

end

section \<open>Iteration\<close>

text \<open>\<^verbatim>\<open>for (it = begin(); it != end(); ++it)\<close>: the slots visited from \<open>i\<close> on.\<close>

partial_function (option) ms_traverse :: "('a \<Rightarrow> nat) \<Rightarrow> 'a mem_set \<Rightarrow> nat \<Rightarrow> nat list option" where
  "ms_traverse h s i =
     (if i = 0 then Some []
      else do { j \<leftarrow> ms_iter_next h s i; xs \<leftarrow> ms_traverse h s j; Some (i # xs) })"

declare ms_traverse.simps [code]

lemma scan_chains:
  assumes "ms_shape s cs fs" "b \<le> length cs"
  shows "scan_buckets (drop b (ms_buckets s)) = hd (concat (drop b cs) @ [0])"
  using assms(2)
proof (induction "length cs - b" arbitrary: b)
  case 0
  then show ?case using ms_shapeD(12) [OF assms(1)] by simp
next
  case (Suc m)
  then have b: "b < length cs" "b < length (ms_buckets s)" using ms_shapeD(12) [OF assms(1)] by auto
  then have d: "drop b (ms_buckets s) = ms_buckets s ! b # drop (Suc b) (ms_buckets s)"
    "drop b cs = cs ! b # drop (Suc b) cs" by (simp_all add: Cons_nth_drop_Suc)
  have "scan_buckets (drop (Suc b) (ms_buckets s)) = hd (concat (drop (Suc b) cs) @ [0])"
    using Suc b by (intro Suc.hyps(1)) auto
  moreover have c: "chain (ms_nx s) (ms_buckets s ! b) (cs ! b)" by (rule ms_shapeD(4) [OF assms(1) b(1)])
  ultimately show ?case unfolding d by (cases "cs ! b") auto
qed

lemma ms_iter_next_last:
  assumes "ms_shape s cs fs" "b < length cs" "ms_nx s i = 0" "ms_deref s i = Some v" "hT v mod length cs = b"
  shows "ms_iter_next hT s i = Some (hd (concat (drop (Suc b) cs) @ [0]))"
  using assms scan_chains [OF assms(1), of "Suc b"] ms_bucket_some [OF assms(1), of "hT v"]
  by (simp add: ms_iter_next_def)

lemma ms_traverse_chain:
  assumes sh: "ms_shape s cs fs" and ks: "ms_keys triv hT key s cs" and b: "b < length cs"
    and rest: "ms_traverse hT s (hd (concat (drop (Suc b) cs) @ [0])) = Some (concat (drop (Suc b) cs))"
  shows "chain (ms_nx s) i ws \<Longrightarrow> set ws \<subseteq> set (cs ! b) \<Longrightarrow> ws \<noteq> [] \<Longrightarrow>
    ms_traverse hT s i = Some (ws @ concat (drop (Suc b) cs))"
proof (induction ws arbitrary: i)
  case (Cons w ws)
  then have "w \<in> set (cs ! b)" by simp
  then obtain v where v: "ms_deref s w = Some v" "hT v mod length cs = b"
    using ks b unfolding ms_keys_def by blast
  show ?case
  proof (cases "ws = []")
    case True
    with Cons.prems have "ms_nx s w = 0" "i = w" "w \<noteq> 0" by auto
    with ms_iter_next_last [of s cs fs b w v hT] sh b v rest True show ?thesis
      by (subst ms_traverse.simps) simp
  next
    case False
    with Cons.prems have "ms_nx s w \<noteq> 0" "i = w" "w \<noteq> 0" by (cases ws; simp)+
    moreover have "ms_traverse hT s (ms_nx s w) = Some (ws @ concat (drop (Suc b) cs))"
      using Cons False by simp
    ultimately show ?thesis by (subst ms_traverse.simps) (simp add: ms_iter_next_def)
  qed
qed simp

lemma ms_traverse_buckets:
  assumes sh: "ms_shape s cs fs" and ks: "ms_keys triv hT key s cs" and "b \<le> length cs"
  shows "ms_traverse hT s (hd (concat (drop b cs) @ [0])) = Some (concat (drop b cs))"
  using assms(3)
proof (induction "length cs - b" arbitrary: b)
  case 0
  then show ?case by (simp add: ms_traverse.simps)
next
  case (Suc m)
  then have b: "b < length cs" by auto
  then have d: "drop b cs = cs ! b # drop (Suc b) cs" by (simp add: Cons_nth_drop_Suc)
  have rest: "ms_traverse hT s (hd (concat (drop (Suc b) cs) @ [0])) = Some (concat (drop (Suc b) cs))"
    using Suc b by (intro Suc.hyps(1)) auto
  show ?case
  proof (cases "cs ! b = []")
    case True
    with rest show ?thesis unfolding d by simp
  next
    case False
    have c: "chain (ms_nx s) (ms_buckets s ! b) (cs ! b)" by (rule ms_shapeD(4) [OF sh b])
    with False have "hd (concat (drop b cs) @ [0]) = ms_buckets s ! b" unfolding d by (cases "cs ! b") auto
    with ms_traverse_chain [OF sh ks b rest c _ False] show ?thesis unfolding d by simp
  qed
qed

lemma ms_traverse_slots:
  assumes "ms_ok triv hT key s"
  shows "ms_traverse hT s (ms_begin s) = Some (ms_slots s)"
  using ms_traverse_buckets [OF ms_okD [OF assms], of 0] scan_chains [OF ms_okD(1) [OF assms], of 0]
  by (simp add: ms_begin_def ms_slots_def)

section \<open>Clearing\<close>

lemma ms_nx_value [simp]: "ms_nx (s\<lparr>ms_value := vs\<rparr>) = ms_nx s"
  by (simp add: ms_nx_def fun_eq_iff)

lemma ms_max_value [simp]: "ms_max (s\<lparr>ms_value := vs\<rparr>) = length vs"
  by (simp add: ms_max_def)

lemma ms_destruct_loop_chain:
  "chain (ms_nx s) i ws \<Longrightarrow> distinct ws \<Longrightarrow> \<forall>w \<in> set ws. ms_deref s w \<noteq> None \<and> w \<le> ms_max s \<Longrightarrow>
   0 < ms_buckets_num s \<Longrightarrow>
   ms_destruct_loop h i s = (if ws = [] then Some s
     else if ms_buckets_num s = 1 then Some (s\<lparr>ms_value := upd_all (\<lambda>_. None) ws (ms_value s)\<rparr>)
     else None)"
proof (induction ws arbitrary: i s)
  case Nil
  then show ?case by (simp add: ms_destruct_loop.simps)
next
  case (Cons w ws)
  let ?s = "s\<lparr>ms_value := (ms_value s)[w - 1 := None]\<rparr>"
  have w: "i = w" "w \<noteq> 0" "ms_deref s w \<noteq> None" "w \<le> ms_max s" "w \<notin> set ws" using Cons.prems by auto
  have d1: "ms_destruct_one False w s = Some ?s" using w by (simp add: ms_destruct_one_def)
  have n: "ms_buckets_num ?s = ms_buckets_num s" by (simp add: ms_buckets_num_def)
  have dead: "ms_deref ?s w = None" using w by (simp add: ms_deref_def ms_max_def)
  show ?case
  proof (cases "ws = []")
    case True
    then have "ms_nx s w = 0" using Cons.prems w by simp
    then have "ms_iter_next h ?s w = (if ms_buckets_num s = 1 then Some 0 else None)"
      using dead n Cons.prems(4) by (auto simp: ms_iter_next_def ms_bucket_index_def ms_buckets_num_def)
    with d1 w True show ?thesis
      by (subst ms_destruct_loop.simps) (simp add: ms_destruct_loop.simps [of h 0])
  next
    case False
    with Cons.prems have nz: "ms_nx s w \<noteq> 0" by (cases ws) auto
    have "0 \<notin> set ws" using chain_0_notin [OF Cons.prems(1)] by simp
    then have l: "\<forall>v \<in> set ws. ms_deref ?s v \<noteq> None \<and> v \<le> ms_max ?s"
      using Cons.prems(3) w(2,5) unfolding ms_deref_def ms_max_def
      by (auto simp: nth_list_update) (metis One_nat_def Suc_pred gr0I)
    have "ms_destruct_loop h (ms_nx s w) ?s = (if ms_buckets_num s = 1
        then Some (?s\<lparr>ms_value := upd_all (\<lambda>_. None) ws (ms_value ?s)\<rparr>) else None)"
      using Cons.IH [of ?s "ms_nx s w"] Cons.prems l n False by simp
    with d1 w nz show ?thesis
      by (subst ms_destruct_loop.simps) (simp add: ms_iter_next_def)
  qed
qed

lemma ms_blank_ok:
  assumes "0 < ms_buckets_num s" "length (ms_next s) = ms_max s" "ms_raw_used s = 0" "ms_used s = 0"
    "ms_free s = 0" "\<forall>b < ms_buckets_num s. ms_buckets s ! b = 0" "triv \<or> ms_live s = {}"
  shows "ms_ok triv hT key s" "ms_lookup key s = Map.empty"
proof -
  let ?cs = "replicate (ms_buckets_num s) []"
  have sh: "ms_shape s ?cs []" using assms by (auto simp: ms_shape_def)
  moreover have "ms_keys triv hT key s ?cs" using assms by (auto simp: ms_keys_def)
  ultimately show ok: "ms_ok triv hT key s" by (rule ms_okI)
  show "ms_lookup key s = Map.empty"
    using ms_shape_lists(3) [OF sh] by (intro ms_lookup_eqI [OF ok]) auto
qed

lemma ms_clear_spec:
  assumes ok: "ms_ok triv hT key s"
  shows "(\<not> triv \<and> ms_used s \<noteq> 0 \<and> ms_buckets_num s \<noteq> 1 \<and> ms_clear triv hT s = None)
    \<or> (\<exists>t. (triv \<or> ms_used s = 0 \<or> ms_buckets_num s = 1) \<and> ms_clear triv hT s = Some t
        \<and> ms_ok triv hT key t \<and> ms_lookup key t = Map.empty \<and> ms_max t = ms_max s)"
proof -
  let ?cs = "ms_chains s"
  note sh = ms_okD(1) [OF ok] and ks = ms_okD(2) [OF ok]
  note shd = ms_shapeD [OF sh]
  define res where "res = (\<lambda>vs. s\<lparr>ms_value := vs, ms_next := replicate (length (ms_next s)) 0, ms_used := 0,
    ms_raw_used := 0, ms_free := 0, ms_buckets := replicate (length (ms_buckets s)) 0\<rparr>)"
  have res: "ms_ok triv hT key (res vs) \<and> ms_lookup key (res vs) = Map.empty \<and> ms_max (res vs) = ms_max s"
    if "length vs = ms_max s" "triv \<or> (\<forall>i > 0. i \<le> ms_max s \<longrightarrow> vs ! (i - 1) = None)" for vs
  proof -
    have "triv \<or> ms_live (res vs) = {}"
      using that by (auto simp: res_def ms_live_def ms_deref_def ms_max_def)
    moreover have "0 < ms_buckets_num (res vs)" "length (ms_next (res vs)) = ms_max (res vs)"
      using shd(1,2,3) that(1) by (auto simp: res_def ms_buckets_num_def ms_max_def)
    ultimately show ?thesis
      using ms_blank_ok(1) [of "res vs" triv hT key] ms_blank_ok(2) [of "res vs" triv key] that(1)
      by (simp add: res_def ms_max_def ms_buckets_num_def)
  qed
  have dead: "triv \<or> (\<forall>i > 0. i \<le> ms_max s \<longrightarrow> i \<notin> set (ms_slots s) \<longrightarrow> ms_value s ! (i - 1) = None)"
    using ks by (auto simp: ms_keys_def ms_live_def ms_deref_def ms_slots_def simp del: set_concat)
  have b: "ms_begin s = hd (ms_slots s @ [0])"
    using scan_chains [OF sh, of 0] by (simp add: ms_begin_def ms_slots_def)
  consider "triv" | "\<not> triv" "ms_used s = 0" | "\<not> triv" "ms_used s \<noteq> 0" by blast
  then show ?thesis
  proof cases
    case 1
    then have "ms_clear triv hT s = Some (res (ms_value s))"
      by (simp add: ms_clear_def ms_destruct_all_def res_def)
    with 1 res [of "ms_value s"] show ?thesis by (simp add: ms_max_def)
  next
    case 2
    then have "ms_slots s = []" using shd(11) by (simp add: ms_slots_def)
    with 2 b have "ms_clear triv hT s = Some (res (ms_value s))"
      by (simp add: ms_clear_def ms_destruct_all_def res_def ms_destruct_loop.simps)
    with 2 dead res [of "ms_value s"] \<open>ms_slots s = []\<close> show ?thesis by (auto simp: ms_max_def)
  next
    case 3
    then have "ms_slots s \<noteq> []" using shd(11) by (auto simp: ms_slots_def)
    then obtain d where d: "d < length ?cs" "?cs ! d \<noteq> []" "ms_begin s = hd (?cs ! d)"
      using hd_concat_nonempty [of ?cs] b by (auto simp: ms_slots_def)
    have ch: "chain (ms_nx s) (ms_begin s) (?cs ! d)" using shd(4) [OF d(1)] d(2,3) by (cases "?cs ! d") auto
    have sub: "set (?cs ! d) \<subseteq> set (concat ?cs)" unfolding concat_split [OF d(1)] by auto
    have live: "\<forall>w \<in> set (?cs ! d). ms_deref s w \<noteq> None \<and> w \<le> ms_max s"
      using sub ms_keys_live [OF ks] ms_shape_slot(2) [OF sh] by blast
    have dst: "distinct (?cs ! d)" using shd(6) concat_split [OF d(1)] by (metis distinct_append)
    note loop = ms_destruct_loop_chain [OF ch dst live, of hT]
    show ?thesis
    proof (cases "ms_buckets_num s = 1")
      case False
      then have "ms_clear triv hT s = None"
        using loop 3 shd(1,2) d(2) by (simp add: ms_clear_def ms_destruct_all_def)
      with 3 False show ?thesis by simp
    next
      case True
      let ?vs = "upd_all (\<lambda>_. None) (?cs ! d) (ms_value s)"
      have "?cs = [?cs ! d]" using True shd(1) d(1) by (cases ?cs) auto
      then have sl: "ms_slots s = ?cs ! d" by (metis append_Nil2 concat.simps(1,2) ms_slots_def)
      have "ms_clear triv hT s = Some (res ?vs)"
        using loop 3 True d(2) by (simp add: ms_clear_def ms_destruct_all_def res_def)
      moreover have pos: "\<forall>j \<in> set (?cs ! d). 0 < j" using sub ms_shape_slot(1) [OF sh] by blast
      have "\<forall>i > 0. i \<le> ms_max s \<longrightarrow> ?vs ! (i - 1) = None"
        using upd_all_nth [OF pos, of _ "ms_value s" "\<lambda>_. None"] dead 3 sl by (auto simp: ms_max_def)
      ultimately show ?thesis using res [of ?vs] True by (auto simp: ms_max_def)
    qed
  qed
qed

section \<open>Copying\<close>

lemma ms_copy_loop_traverse:
  assumes sl: "set xs \<subseteq> S" "\<forall>i \<in> S. 0 < i \<and> i \<le> ms_max s \<and> ms_deref s i \<noteq> None"
  shows "ms_traverse h s i = Some xs \<Longrightarrow> length vs = ms_max s \<Longrightarrow>
    ms_copy_loop h s i i (s\<lparr>ms_value := vs\<rparr>) = Some (s\<lparr>ms_value := upd_all (ms_deref s) xs vs\<rparr>)"
  using sl(1)
proof (induction xs arbitrary: i vs)
  case Nil
  then have "i = 0" by (subst (asm) ms_traverse.simps) (auto split: if_splits bind_splits)
  then show ?case by (simp add: ms_copy_loop.simps)
next
  case (Cons x xs)
  from Cons.prems(1) obtain j where j: "i \<noteq> 0" "i = x" "ms_iter_next h s i = Some j" "ms_traverse h s j = Some xs"
    by (subst (asm) ms_traverse.simps) (auto split: if_splits bind_splits)
  have x: "0 < x" "x \<le> ms_max s" "x \<in> S" using Cons.prems(3) sl(2) by auto
  then obtain v where v: "ms_deref s x = Some v" using sl(2) by blast
  let ?vs = "vs[x - 1 := Some v]"
  have "ms_deref (s\<lparr>ms_value := ?vs\<rparr>) x = Some v" using x Cons.prems(2) by (simp add: ms_deref_def)
  then have n: "ms_iter_next h (s\<lparr>ms_value := ?vs\<rparr>) x = Some j"
    using j(2,3) v by (simp add: ms_iter_next_def ms_bucket_index_def ms_buckets_num_def cong: if_cong)
  have "ms_copy_loop h s j j (s\<lparr>ms_value := ?vs\<rparr>) = Some (s\<lparr>ms_value := upd_all (ms_deref s) xs ?vs\<rparr>)"
    using Cons.IH [OF j(4), of ?vs] Cons.prems by simp
  with j v n show ?case by (subst ms_copy_loop.simps) (simp add: ms_copy_one_def)
qed

lemma ms_copy_same:
  assumes ok: "ms_ok triv hT key s"
  shows "ms_copy triv hT s = Some s"
proof (cases triv)
  case False
  note sh = ms_okD(1) [OF ok] and ks = ms_okD(2) [OF ok]
  let ?none = "replicate (ms_max s) None"
  let ?vs = "upd_all (ms_deref s) (ms_slots s) ?none"
  have live: "\<forall>i \<in> set (ms_slots s). 0 < i \<and> i \<le> ms_max s \<and> ms_deref s i \<noteq> None"
    using ms_shape_slot [OF sh] ms_keys_live [OF ks] unfolding ms_slots_def by blast
  have bg: "ms_begin (s\<lparr>ms_value := ?none\<rparr>) = ms_begin s" by (simp add: ms_begin_def)
  have "ms_copy triv hT s = Some (s\<lparr>ms_value := ?vs\<rparr>)"
    using ms_copy_loop_traverse [OF subset_refl live ms_traverse_slots [OF ok], of ?none] False
    unfolding ms_copy_def Let_def bg by simp
  moreover have "?vs = ms_value s"
  proof (rule nth_equalityI)
    show "length ?vs = length (ms_value s)" by (simp add: ms_max_def)
    fix p assume "p < length ?vs"
    then have p: "Suc p \<le> ms_max s" by simp
    have pos: "\<forall>j \<in> set (ms_slots s). 0 < j" using live by blast
    have "ms_deref s (Suc p) = None" if "Suc p \<notin> set (ms_slots s)"
      using ks False p that by (auto simp: ms_keys_def ms_live_def ms_slots_def simp del: set_concat)
    with upd_all_nth [OF pos, of "Suc p" ?none "ms_deref s"] p show "?vs ! p = ms_value s ! p"
      by (auto simp: ms_deref_def split: if_splits)
  qed
  ultimately show ?thesis by simp
qed (simp add: ms_copy_def)

section \<open>The shared-memory layer\<close>

text \<open>
  The block: the members of \<^verbatim>\<open>Head\<close> that are not in the set's state, and the set.
  \<open>sz\<close> is \<^verbatim>\<open>sizeof(T)\<close>, \<open>z\<close> the element of zero bytes; sizes are \<^verbatim>\<open>size_t\<close> and wrap.
  The layer requires trivially copyable elements.
\<close>

record 'a ms_block =
  mb_mem_size :: nat
  mb_max_num :: nat
  mb_buckets_num :: nat
  mb_value_offset :: nat
  mb_set :: "'a mem_set"

definition ms_need_mem_size :: "nat \<Rightarrow> nat \<Rightarrow> nat \<Rightarrow> nat" where
  "ms_need_mem_size sz max_num buckets_num =
     (56 + 8 * buckets_num + 8 * max_num + sz * (max_num * sz div sz)) mod 2 ^ 64"

definition ms_zeroed :: "'a \<Rightarrow> nat \<Rightarrow> nat \<Rightarrow> 'a mem_set" where
  "ms_zeroed z n b = \<lparr>ms_used = 0, ms_raw_used = 0, ms_free = 0, ms_buckets = replicate b 0,
     ms_next = replicate n 0, ms_value = replicate n (Some z)\<rparr>"

definition ms_init :: "'a \<Rightarrow> nat \<Rightarrow> 'a ms_block option \<Rightarrow> nat \<Rightarrow> nat \<Rightarrow> nat \<Rightarrow> bool \<Rightarrow>
    bool \<times> 'a ms_block option" where
  "ms_init z sz mem mem_size max_num buckets_num check =
     (case mem of
        None \<Rightarrow> (False, None)
      | Some h \<Rightarrow>
          if ms_need_mem_size sz max_num buckets_num \<noteq> mem_size then (False, mem)
          else if check then
            (if mb_mem_size h \<noteq> mem_size \<or> mb_max_num h \<noteq> max_num \<or> mb_buckets_num h \<noteq> buckets_num
             then (False, mem) else (True, mem))
          else (True, Some \<lparr>mb_mem_size = mem_size, mb_max_num = max_num, mb_buckets_num = buckets_num,
            mb_value_offset = 56 + 8 * buckets_num + 8 * max_num, mb_set = ms_zeroed z max_num buckets_num\<rparr>))"

lemma ms_zeroed_ok:
  assumes "0 < b"
  shows "ms_ok True hT key (ms_zeroed z n b)" "ms_lookup key (ms_zeroed z n b) = Map.empty"
    "ms_max (ms_zeroed z n b) = n"
  using ms_blank_ok(1) [of "ms_zeroed z n b" True hT key] ms_blank_ok(2) [of "ms_zeroed z n b" True key] assms
  by (simp_all add: ms_zeroed_def ms_buckets_num_def ms_max_def)

section \<open>The public containers\<close>

text \<open>\<^verbatim>\<open>MemSet<T>\<close> with the default functors: the value is its own key.\<close>

interpretation mset: hash_eq triv hash is_equal hash is_equal extract_key for triv hash
  by unfold_locales (auto simp: is_equal_def extract_key_def)

text \<open>
  \<^verbatim>\<open>base_specialization.h\<close>: the hash and the equality of a \<^verbatim>\<open>Pair\<close> look at its first
  member only, and compare it with a bare key.  The specialisations for \<^verbatim>\<open>std::pair\<close> are the
  same over the tuple.
\<close>

definition pair_hash :: "('k \<Rightarrow> nat) \<Rightarrow> ('k, 'v) kv \<Rightarrow> nat" where
  "pair_hash hash t = hash (kv_first t)"

definition pair_eq :: "('k, 'v) kv \<Rightarrow> ('k, 'v) kv \<Rightarrow> bool" where
  "pair_eq x y \<longleftrightarrow> is_equal (kv_first x) (kv_first y)"

definition pair_eq_key :: "('k, 'v) kv \<Rightarrow> 'k \<Rightarrow> bool" where
  "pair_eq_key x y \<longleftrightarrow> is_equal (kv_first x) y"

definition std_pair_hash :: "('k \<Rightarrow> nat) \<Rightarrow> 'k \<times> 'v \<Rightarrow> nat" where
  "std_pair_hash hash t = hash (fst t)"

definition std_pair_eq :: "'k \<times> 'v \<Rightarrow> 'k \<times> 'v \<Rightarrow> bool" where
  "std_pair_eq x y \<longleftrightarrow> is_equal (fst x) (fst y)"

interpretation mmap: hash_eq triv "pair_hash hash" pair_eq hash pair_eq_key kv_first for triv hash
  by unfold_locales (auto simp: pair_hash_def pair_eq_def pair_eq_key_def is_equal_def)

text \<open>\<^verbatim>\<open>MemMap<KEY, VALUE>\<close>.\<close>

definition mm_insert :: "('k \<Rightarrow> nat) \<Rightarrow> 'k \<Rightarrow> 'v \<Rightarrow> ('k, 'v) kv mem_set \<Rightarrow>
    ((nat \<times> bool) \<times> ('k, 'v) kv mem_set) option" where
  "mm_insert hash k v s = ms_insert (pair_hash hash) pair_eq \<lparr>kv_first = k, kv_second = v\<rparr> s"

definition mm_find :: "('k \<Rightarrow> nat) \<Rightarrow> 'k \<Rightarrow> ('k, 'v) kv mem_set \<Rightarrow> nat option" where
  "mm_find hash k s = ms_find_index hash pair_eq_key k s"

definition mm_exist :: "('k \<Rightarrow> nat) \<Rightarrow> 'k \<Rightarrow> ('k, 'v) kv mem_set \<Rightarrow> bool option" where
  "mm_exist hash k s = ms_exist hash pair_eq_key k s"

definition mm_erase :: "bool \<Rightarrow> ('k \<Rightarrow> nat) \<Rightarrow> 'k \<Rightarrow> ('k, 'v) kv mem_set \<Rightarrow> ('k, 'v) kv mem_set option" where
  "mm_erase triv hash k s = map_option snd (ms_erase triv hash pair_eq_key k s)"

definition mm_erase_iter :: "bool \<Rightarrow> ('k \<Rightarrow> nat) \<Rightarrow> nat \<Rightarrow> ('k, 'v) kv mem_set \<Rightarrow> ('k, 'v) kv mem_set option" where
  "mm_erase_iter triv hash i s = map_option snd (ms_erase_iter triv (pair_hash hash) pair_eq i s)"

text \<open>The values by key, and the ordinary map a \<^verbatim>\<open>MemMap\<close> stands for.\<close>

definition ms_vals :: "('a \<Rightarrow> 'k) \<Rightarrow> 'a mem_set \<Rightarrow> 'k \<Rightarrow> 'a option" where
  "ms_vals key s k = map_option snd (ms_lookup key s k)"

definition mm_map :: "('k, 'v) kv mem_set \<Rightarrow> 'k \<Rightarrow> 'v option" where
  "mm_map s k = map_option (\<lambda>e. kv_second (snd e)) (ms_lookup kv_first s k)"


text \<open>The operations of a client of \<^verbatim>\<open>MemMap\<close>; \<open>MEraseIt\<close> is
  \<^verbatim>\<open>erase(find(key))\<close> guarded by the comparison with \<^verbatim>\<open>end()\<close>.\<close>

datatype ('k, 'v) mm_op = MInsert 'k 'v | MErase 'k | MEraseIt 'k

fun mm_step :: "bool \<Rightarrow> ('k \<Rightarrow> nat) \<Rightarrow> ('k, 'v) mm_op \<Rightarrow> ('k, 'v) kv mem_set \<Rightarrow> ('k, 'v) kv mem_set option" where
  "mm_step triv hash (MInsert k v) s = map_option snd (mm_insert hash k v s)"
| "mm_step triv hash (MErase k) s = mm_erase triv hash k s"
| "mm_step triv hash (MEraseIt k) s =
     do { i \<leftarrow> mm_find hash k s; if i \<noteq> 0 then mm_erase_iter triv hash i s else Some s }"

fun mm_run :: "bool \<Rightarrow> ('k \<Rightarrow> nat) \<Rightarrow> ('k, 'v) mm_op list \<Rightarrow> ('k, 'v) kv mem_set \<Rightarrow> ('k, 'v) kv mem_set option" where
  "mm_run triv hash [] s = Some s"
| "mm_run triv hash (p # ps) s = do { s \<leftarrow> mm_step triv hash p s; mm_run triv hash ps s }"

fun mm_spec :: "nat \<Rightarrow> ('k, 'v) mm_op \<Rightarrow> ('k \<rightharpoonup> 'v) \<Rightarrow> ('k \<rightharpoonup> 'v)" where
  "mm_spec n (MInsert k v) m = (if m k = None \<and> card (dom m) < n then m(k \<mapsto> v) else m)"
| "mm_spec n (MErase k) m = m(k := None)"
| "mm_spec n (MEraseIt k) m = m(k := None)"

abbreviation mm_ok :: "bool \<Rightarrow> ('k \<Rightarrow> nat) \<Rightarrow> ('k, 'v) kv mem_set \<Rightarrow> bool" where
  "mm_ok triv hash \<equiv> ms_ok triv (pair_hash hash) kv_first"

lemma mm_map_dom: "dom (mm_map s) = dom (ms_lookup kv_first s)"
  by (auto simp: mm_map_def dom_def)

lemma mm_map_none: "mm_map s k = None \<longleftrightarrow> ms_lookup kv_first s k = None"
  by (simp add: mm_map_def)

lemma mm_step_refines:
  assumes ok: "mm_ok triv hash s"
  shows "\<exists>t. mm_step triv hash p s = Some t \<and> mm_ok triv hash t \<and> ms_max t = ms_max s
    \<and> mm_map t = mm_spec (ms_max s) p (mm_map s)"
proof -
  have er: "\<exists>i t. ms_erase triv hash pair_eq_key k s = Some (i, t) \<and> mm_ok triv hash t \<and> ms_max t = ms_max s
      \<and> mm_map t = (mm_map s)(k := None)" for k
    using mmap.keyed.erase_lookup [OF ok, of k] by (auto simp: mm_map_def fun_eq_iff)
  show ?thesis
  proof (cases p)
    case (MInsert k v)
    let ?e = "\<lparr>kv_first = k, kv_second = v\<rparr>"
    have c: "card (dom (mm_map s)) = ms_used s" "ms_used s \<le> ms_max s"
      using mmap.keyed.count_card [OF ok] mmap.keyed.count_cap [OF ok] by (simp_all add: mm_map_dom)
    show ?thesis
    proof (cases "ms_lookup kv_first s k")
      case (Some e)
      then have "mm_map s k \<noteq> None" by (simp add: mm_map_none)
      with Some MInsert ok show ?thesis
        using mmap.keyed.insert_old_full [OF ok, of ?e "fst e" "snd e"] by (auto simp: mm_insert_def)
    next
      case None
      then have n: "mm_map s k = None" by (simp add: mm_map_none)
      show ?thesis
      proof (cases "ms_used s < ms_max s")
        case True
        from mmap.keyed.insert_new [OF ok, of ?e] None True obtain i t where
          t: "ms_insert (pair_hash hash) pair_eq ?e s = Some ((i, True), t)" "mm_ok triv hash t"
          "ms_max t = ms_max s" "ms_lookup kv_first t = (ms_lookup kv_first s)(k \<mapsto> (i, ?e))" by auto
        moreover have "mm_map t = (mm_map s)(k \<mapsto> v)" using t(4) by (auto simp: mm_map_def fun_eq_iff)
        ultimately show ?thesis using MInsert n c True by (simp add: mm_insert_def)
      next
        case False
        then have "ms_insert (pair_hash hash) pair_eq ?e s = Some ((0, False), s)"
          using mmap.keyed.insert_full [OF ok, of ?e] None c by simp
        then show ?thesis using MInsert n c False ok by (simp add: mm_insert_def)
      qed
    qed
  next
    case (MErase k)
    then show ?thesis using er [of k] by (auto simp: mm_erase_def)
  next
    case (MEraseIt k)
    note f = mmap.keyed.find_lookup [OF ok, of k]
    show ?thesis
    proof (cases "ms_lookup kv_first s k")
      case None
      then have "(mm_map s)(k := None) = mm_map s" by (auto simp: mm_map_def)
      with None f MEraseIt ok show ?thesis by (simp add: mm_find_def)
    next
      case (Some e)
      obtain x v where e: "e = (x, v)" by force
      have "x \<noteq> 0" using mmap.keyed.lookup_key [OF ok] Some e by blast
      with Some e f mmap.erase_iter [OF ok, of k x v] er [of k] MEraseIt show ?thesis
        by (auto simp: mm_find_def mm_erase_iter_def)
    qed
  qed
qed

lemma mm_run_refines:
  "mm_ok triv hash s \<Longrightarrow> \<exists>t. mm_run triv hash ps s = Some t \<and> mm_ok triv hash t \<and> ms_max t = ms_max s
    \<and> mm_map t = fold (mm_spec (ms_max s)) ps (mm_map s)"
proof (induction ps arbitrary: s)
  case (Cons p ps)
  from mm_step_refines [OF Cons.prems, of p] obtain t where
    t: "mm_step triv hash p s = Some t" "mm_ok triv hash t" "ms_max t = ms_max s"
    "mm_map t = mm_spec (ms_max s) p (mm_map s)" by blast
  have "fold (mm_spec (ms_max s)) (p # ps) (mm_map s) = fold (mm_spec (ms_max t)) ps (mm_map t)"
    by (simp only: fold_simps t(3,4))
  with Cons.IH [OF t(2)] t(1,3) show ?case by auto
qed simp

lemma ms_static_new:
  assumes "0 < n"
  shows "\<exists>b > 0. ms_static sz n = Some (ms_new n b)"
  using fix_bucket_size_bounds [OF assms, of sz] by (auto simp: ms_static_def)

section \<open>Properties\<close>

text \<open>C1. A \<^verbatim>\<open>MemMap\<close> of any capacity, hash function and element size that is fed any
  sequence of inserts, erasures by key and erasures by iterator never aborts, and stores exactly
  what a finite map bounded by the capacity would: a present key keeps its value, an absent
  one is refused when the map is full.\<close>

theorem mm_run_is_map:
  fixes hash :: "'k \<Rightarrow> nat" and ps :: "('k, 'v) mm_op list"
  assumes "0 < n"
  shows "\<exists>s t. ms_static sz n = Some s \<and> mm_run triv hash ps s = Some t \<and> mm_ok triv hash t
    \<and> mm_map t = fold (mm_spec n) ps Map.empty \<and> ms_size t = card (dom (mm_map t))"
proof -
  from ms_static_new [OF assms, of sz] obtain b where b: "0 < b"
    "ms_static sz n = Some (ms_new n b :: ('k, 'v) kv mem_set)" by blast
  define s :: "('k, 'v) kv mem_set" where "s = ms_new n b"
  have new: "mm_ok triv hash s" "mm_map s = Map.empty" "ms_max s = n"
    by (simp_all add: s_def mm_map_def fun_eq_iff ms_new_ok [OF b(1)])
  obtain t where t: "mm_run triv hash ps s = Some t" "mm_ok triv hash t"
    "mm_map t = fold (mm_spec n) ps Map.empty"
    using mm_run_refines [OF new(1), of ps] new(2,3) by auto
  moreover have "ms_size t = card (dom (mm_map t))"
    using ms_lookup_card(2) [OF t(2)] by (simp add: ms_size_def mm_map_dom)
  ultimately show ?thesis using b by (auto simp: s_def)
qed

theorem mm_run_is_map_witness:
  "\<exists>s t. ms_static 8 (2 :: nat) = Some s
    \<and> mm_run False (\<lambda>k. k) [MInsert 1 CHR ''a'', MInsert 5 CHR ''b'', MInsert 6 CHR ''c'',
         MErase 1, MInsert 7 CHR ''d''] s = Some t
    \<and> mm_map t = [5 \<mapsto> CHR ''b'', 7 \<mapsto> CHR ''d''] \<and> ms_size t = 2"
proof -
  let ?ps = "[MInsert (1 :: nat) CHR ''a'', MInsert 5 CHR ''b'', MInsert 6 CHR ''c'', MErase 1, MInsert 7 CHR ''d'']"
  have d: "dom [1 \<mapsto> CHR ''a''] = {1 :: nat}" "dom [1 \<mapsto> CHR ''a'', 5 \<mapsto> CHR ''b''] = {5, 1 :: nat}"
    "dom [5 \<mapsto> CHR ''b''] = {5 :: nat}" "dom [5 \<mapsto> CHR ''b'', 7 \<mapsto> CHR ''d''] = {7, 5 :: nat}"
    by auto
  have u: "[1 \<mapsto> CHR ''a'', 5 \<mapsto> CHR ''b''](1 := None) = [5 :: nat \<mapsto> CHR ''b'']" by auto
  have f: "fold (mm_spec 2) ?ps Map.empty = [5 \<mapsto> CHR ''b'', 7 \<mapsto> CHR ''d'']"
    by (simp only: fold_simps mm_spec.simps) (simp add: d u fun_upd_twist)
  have "card {7, 5 :: nat} = 2" by simp
  with mm_run_is_map [of 2 8 False "\<lambda>k. k" ?ps] show ?thesis
    unfolding f by (metis d(4) zero_less_numeral)
qed

text \<open>\<^verbatim>\<open>find\<close> returns an iterator other than \<^verbatim>\<open>end()\<close> exactly for the keys of the map, and
  dereferencing it reads the stored pair; \<^verbatim>\<open>exist\<close> agrees; \<^verbatim>\<open>insert\<close> of a present key
  returns that iterator and false and changes nothing, also in a full map; \<^verbatim>\<open>insert\<close> of an absent
  key into a full map returns \<^verbatim>\<open>end()\<close> and false and changes nothing.\<close>

lemma mm_find_insert_results:
  assumes "mm_ok triv hash s"
  shows "\<exists>i. mm_find hash k s = Some i \<and> mm_exist hash k s = Some (i \<noteq> 0)
    \<and> (case mm_map s k of
         None \<Rightarrow> i = 0 \<and> (ms_full s = (mm_insert hash k v s = Some ((0, False), s)))
       | Some w \<Rightarrow> i \<noteq> 0 \<and> ms_deref s i = Some \<lparr>kv_first = k, kv_second = w\<rparr>
           \<and> mm_insert hash k v s = Some ((i, False), s))"
proof -
  note f = mmap.keyed.find_lookup [OF assms, of k]
  let ?e = "\<lparr>kv_first = k, kv_second = v\<rparr>"
  show ?thesis
  proof (cases "ms_lookup kv_first s k")
    case None
    have u: "ms_used s \<le> ms_max s" by (rule mmap.keyed.count_cap [OF assms])
    have "ms_full s = (mm_insert hash k v s = Some ((0, False), s))"
      using mmap.keyed.insert_new [OF assms, of ?e] mmap.keyed.insert_full [OF assms, of ?e] None u
      by (cases "ms_used s = ms_max s") (auto simp: mm_insert_def ms_full_def)
    with None f show ?thesis by (simp add: mm_find_def mm_exist_def ms_exist_def mm_map_def)
  next
    case (Some e)
    obtain i w where e: "e = (i, w)" by force
    with Some have "ms_deref s i = Some w" "kv_first w = k" using ms_lookup_some [OF assms] by auto
    moreover have "i \<noteq> 0" using mmap.keyed.lookup_key [OF assms] Some e by blast
    moreover have "mm_insert hash k v s = Some ((i, False), s)"
      using mmap.keyed.insert_old_full [OF assms, of ?e i w] Some e by (simp add: mm_insert_def)
    ultimately show ?thesis using Some f e
      by (auto simp: mm_find_def mm_exist_def ms_exist_def mm_map_def)
  qed
qed

text \<open>A map of capacity 2 with three buckets that two inserts have filled.\<close>

definition mm_demo :: "(nat, char) kv mem_set" where
  "mm_demo = the (mm_run False (\<lambda>k. k) [MInsert 1 CHR ''a'', MInsert 4 CHR ''b''] (ms_new 2 3))"

lemma mm_demo_ok: "mm_ok False (\<lambda>k. k) mm_demo"
  and mm_demo_map: "mm_map mm_demo 4 = Some CHR ''b''" "mm_map mm_demo 9 = None"
proof -
  let ?s = "ms_new 2 3 :: (nat, char) kv mem_set"
  have "mm_ok False (\<lambda>k. k) ?s" by (rule ms_new_ok) simp
  from mm_run_refines [OF this, of "[MInsert 1 CHR ''a'', MInsert 4 CHR ''b'']"]
  show "mm_ok False (\<lambda>k. k) mm_demo" by (auto simp: mm_demo_def)
  show "mm_map mm_demo 4 = Some CHR ''b''" "mm_map mm_demo 9 = None" by code_simp+
qed

lemma mm_find_insert_results_example:
  "mm_find (\<lambda>k. k) 9 mm_demo = Some 0 \<and> mm_insert (\<lambda>k. k) 9 CHR ''z'' mm_demo = Some ((0, False), mm_demo)
   \<and> (\<exists>i. mm_find (\<lambda>k. k) 4 mm_demo = Some i \<and> ms_deref mm_demo i = Some \<lparr>kv_first = 4, kv_second = CHR ''b''\<rparr>
        \<and> mm_insert (\<lambda>k. k) 4 CHR ''z'' mm_demo = Some ((i, False), mm_demo))"
proof -
  have "ms_full mm_demo" by code_simp
  with mm_find_insert_results [OF mm_demo_ok, of 9 "CHR ''z''"]
    mm_find_insert_results [OF mm_demo_ok, of 4 "CHR ''z''"]
  show ?thesis by (auto simp: mm_demo_map)
qed

text \<open>C34. Iterating from \<^verbatim>\<open>begin()\<close> to \<^verbatim>\<open>end()\<close> ends, and visits every stored element
  once: the slots visited are distinct, as many as \<^verbatim>\<open>size()\<close>, and dereferencing them gives exactly
  the entries of the map.\<close>

theorem ms_iteration:
  assumes "ms_ok triv hT key s"
  shows "\<exists>xs. ms_traverse hT s (ms_begin s) = Some xs \<and> distinct xs \<and> length xs = ms_size s
    \<and> {(i, v). i \<in> set xs \<and> ms_deref s i = Some v} = ran (ms_lookup key s)"
proof -
  note sh = ms_shapeD [OF ms_okD(1) [OF assms]]
  have "{(i, v). i \<in> set (ms_slots s) \<and> ms_deref s i = Some v} = ran (ms_lookup key s)"
    using ms_lookup_some [OF assms] by (auto simp: ran_def)
  with ms_traverse_slots [OF assms] sh(6,11) show ?thesis
    by (auto simp: ms_slots_def ms_size_def)
qed

theorem ms_iteration_witness:
  "ms_traverse (pair_hash (\<lambda>k. k)) mm_demo (ms_begin mm_demo) = Some [2, 1]
    \<and> {(i, v). i \<in> set [2, 1] \<and> ms_deref mm_demo i = Some v} = ran (ms_lookup kv_first mm_demo)"
proof -
  have "ms_slots mm_demo = [2, 1]" by code_simp
  with ms_traverse_slots [OF mm_demo_ok]
  have "ms_traverse (pair_hash (\<lambda>k. k)) mm_demo (ms_begin mm_demo) = Some [2, 1]" by simp
  with ms_iteration [OF mm_demo_ok] show ?thesis by auto
qed

text \<open>C31. \<^verbatim>\<open>clear\<close> empties the set, except for elements with a destructor in a non-empty set of
  more than one bucket: there \<^verbatim>\<open>destruct_all\<close> advances its iterator after it has destroyed the
  element, and the advance computes the hash of the destroyed element.\<close>

theorem ms_clear_reads_destroyed:
  assumes "ms_ok triv hT key s"
  shows "(ms_clear triv hT s = None) = (\<not> triv \<and> \<not> ms_used s = 0 \<and> \<not> ms_buckets_num s = 1)
    \<and> (case ms_clear triv hT s of None \<Rightarrow> True
       | Some t \<Rightarrow> ms_ok triv hT key t \<and> ms_lookup key t = Map.empty \<and> ms_max t = ms_max s)"
  using ms_clear_spec [OF assms] by auto

theorem ms_clear_reads_destroyed_witness:
  "ms_clear False (pair_hash (\<lambda>k. k)) mm_demo = None"
proof -
  have "ms_used mm_demo = 2" "ms_buckets_num mm_demo = 3" by code_simp+
  with ms_clear_reads_destroyed [OF mm_demo_ok] show ?thesis by simp
qed

text \<open>C38. A copy-constructed set is the original, slot by slot: the element-wise construction over
  the copied links meets every stored element and leaves every other cell dead.\<close>

theorem ms_copy_is_same:
  assumes "ms_ok triv hT key s"
  shows "ms_copy triv hT s = Some s"
  by (rule ms_copy_same [OF assms])

theorem ms_copy_is_same_witness: "ms_copy False (pair_hash (\<lambda>k. k)) mm_demo = Some mm_demo"
  using ms_copy_is_same [OF mm_demo_ok] .


definition ms_raw_block :: "nat ms_block" where
  "ms_raw_block = \<lparr>mb_mem_size = 7, mb_max_num = 7, mb_buckets_num = 7, mb_value_offset = 7,
     mb_set = ms_zeroed 9 4 4\<rparr>"


end
