(* ===== verification/MemLru.thy ===== *)
theory MemLru
  imports MemSet
begin

text \<open>
  \<^verbatim>\<open>src/containers/inner/base_mem_lru_set.h\<close>, its data layers
  \<^verbatim>\<open>mem_lru_set_data.h\<close>, and the public \<^verbatim>\<open>MemLRUSet\<close> and \<^verbatim>\<open>MemLRUMap\<close>: the
  hash set of theory \<open>MemSet\<close> with a circular list over its slots in order of recency, the most
  recent first.  A disuse callback gets the value by reference, so it returns its answer and the
  value it leaves; \<^term>\<open>None\<close> is the null callback.
\<close>

section \<open>State and operations\<close>

record 'a mem_lru =
  lru_link :: "link list"
  lru_base :: "'a mem_set"

definition lru_new :: "nat \<Rightarrow> nat \<Rightarrow> 'a mem_lru" where
  "lru_new n b = \<lparr>lru_link = replicate (n + 1) link0, lru_base = ms_new n b\<rparr>"

definition lru_clear :: "bool \<Rightarrow> ('a \<Rightarrow> nat) \<Rightarrow> 'a mem_lru \<Rightarrow> 'a mem_lru option" where
  "lru_clear triv h s =
     do { b \<leftarrow> ms_clear triv h (lru_base s);
          Some (s\<lparr>lru_base := b, lru_link := (lru_link s)[0 := link0]\<rparr>) }"

definition lru_size :: "'a mem_lru \<Rightarrow> nat" where
  "lru_size s = ms_size (lru_base s)"

definition lru_find :: "('k \<Rightarrow> nat) \<Rightarrow> ('a \<Rightarrow> 'k \<Rightarrow> bool) \<Rightarrow> 'k \<Rightarrow> 'a mem_lru \<Rightarrow> nat option" where
  "lru_find h e k s = ms_find_index h e k (lru_base s)"

text \<open>The result is the index \<^verbatim>\<open>m_base.erase\<close> reports; \<^verbatim>\<open>erase\<close> itself is void.\<close>

definition lru_erase :: "bool \<Rightarrow> ('k \<Rightarrow> nat) \<Rightarrow> ('a \<Rightarrow> 'k \<Rightarrow> bool) \<Rightarrow> 'k \<Rightarrow> 'a mem_lru \<Rightarrow>
    (nat \<times> 'a mem_lru) option" where
  "lru_erase triv h e k s =
     do { (i, b) \<leftarrow> ms_erase triv h e k (lru_base s);
          if i > 0 then
            let m = unlink (lru_link s) i
            in Some (i, s\<lparr>lru_base := b, lru_link := m[i := link0]\<rparr>)
          else Some (i, s\<lparr>lru_base := b\<rparr>) }"

definition lru_erase_iter :: "bool \<Rightarrow> ('a \<Rightarrow> nat) \<Rightarrow> ('a \<Rightarrow> 'a \<Rightarrow> bool) \<Rightarrow> nat \<Rightarrow> 'a mem_lru \<Rightarrow>
    (nat \<times> 'a mem_lru) option" where
  "lru_erase_iter triv h e i s = do { v \<leftarrow> ms_deref (lru_base s) i; lru_erase triv h e v s }"

definition lru_active :: "('k \<Rightarrow> nat) \<Rightarrow> ('a \<Rightarrow> 'k \<Rightarrow> bool) \<Rightarrow> 'k \<Rightarrow> 'a mem_lru \<Rightarrow>
    (nat \<times> 'a mem_lru) option" where
  "lru_active h e k s =
     do { i \<leftarrow> ms_find_index h e k (lru_base s);
          if i \<noteq> 0 then Some (i, s\<lparr>lru_link := link_front (unlink (lru_link s) i) i\<rparr>)
          else Some (i, s) }"

text \<open>The loop of \<^verbatim>\<open>disuse\<close>: \<open>i\<close> elements are out, \<open>n\<close> are still to go.\<close>

primrec lru_disuse_loop :: "bool \<Rightarrow> ('a \<Rightarrow> nat) \<Rightarrow> ('a \<Rightarrow> 'a \<Rightarrow> bool) \<Rightarrow> ('a \<Rightarrow> bool \<times> 'a) option \<Rightarrow>
    nat \<Rightarrow> nat \<Rightarrow> 'a mem_lru \<Rightarrow> (nat \<times> 'a mem_lru) option" where
  "lru_disuse_loop triv h e cb 0 i s = Some (i, s)"
| "lru_disuse_loop triv h e cb (Suc n) i s =
     (if ms_empty (lru_base s) then Some (i, s)
      else do {
        let p = pv (lru_link s) 0;
        v \<leftarrow> ms_deref (lru_base s) p;
        (go, s) \<leftarrow> (case cb of
            None \<Rightarrow> Some (True, s)
          | Some f \<Rightarrow> Some (fst (f v), s\<lparr>lru_base := ms_copy_one p (snd (f v)) (lru_base s)\<rparr>));
        if \<not> go then Some (i, s)
        else do {
          v \<leftarrow> ms_deref (lru_base s) (pv (lru_link s) 0);
          (_, s) \<leftarrow> lru_erase triv h e v s;
          lru_disuse_loop triv h e cb n (i + 1) s } })"

definition lru_disuse :: "bool \<Rightarrow> ('a \<Rightarrow> nat) \<Rightarrow> ('a \<Rightarrow> 'a \<Rightarrow> bool) \<Rightarrow> nat \<Rightarrow>
    ('a \<Rightarrow> bool \<times> 'a) option \<Rightarrow> 'a mem_lru \<Rightarrow> (nat \<times> 'a mem_lru) option" where
  "lru_disuse triv h e num cb s = lru_disuse_loop triv h e cb num 0 s"

text \<open>The second half of \<^verbatim>\<open>insert\<close>, from \<^verbatim>\<open>insert2\<close> on.\<close>

definition lru_insert_base :: "('a \<Rightarrow> nat) \<Rightarrow> ('a \<Rightarrow> 'a \<Rightarrow> bool) \<Rightarrow> 'a \<Rightarrow> 'a mem_lru \<Rightarrow>
    ((nat \<times> bool) \<times> 'a mem_lru) option" where
  "lru_insert_base h e v s =
     do { ((i, inserted), b) \<leftarrow> ms_insert h e v (lru_base s);
          let s = s\<lparr>lru_base := b\<rparr>;
          Some ((i, inserted),
            if inserted then s\<lparr>lru_link := link_front (lru_link s) i\<rparr> else s) }"

definition lru_insert :: "bool \<Rightarrow> ('a \<Rightarrow> nat) \<Rightarrow> ('a \<Rightarrow> 'a \<Rightarrow> bool) \<Rightarrow> bool \<Rightarrow>
    ('a \<Rightarrow> bool \<times> 'a) option \<Rightarrow> 'a \<Rightarrow> 'a mem_lru \<Rightarrow> ((nat \<times> bool) \<times> 'a mem_lru) option" where
  "lru_insert triv h e force cb v s =
     (if ms_full (lru_base s) then
        do { i \<leftarrow> lru_find h e v s;
             if i \<noteq> 0 then Some ((i, False), s)
             else if \<not> force then Some ((0, False), s)
             else do { (n, s) \<leftarrow> lru_disuse triv h e 1 cb s;
                       if n = 0 then Some ((0, False), s) else lru_insert_base h e v s } }
      else lru_insert_base h e v s)"

definition lru_begin :: "'a mem_lru \<Rightarrow> nat" where
  "lru_begin s = nx (lru_link s) 0"

definition lru_iter_next :: "'a mem_lru \<Rightarrow> nat \<Rightarrow> nat" where
  "lru_iter_next s i = nx (lru_link s) i"

definition lru_iter_prev :: "'a mem_lru \<Rightarrow> nat \<Rightarrow> nat" where
  "lru_iter_prev s i = pv (lru_link s) i"

section \<open>The shared-memory layer\<close>

record 'a lru_block =
  lb_mem_size :: nat
  lb_max_num :: nat
  lb_link :: "link list"
  lb_base :: "'a ms_block"

definition lru_need_mem_size :: "nat \<Rightarrow> nat \<Rightarrow> nat \<Rightarrow> nat" where
  "lru_need_mem_size sz max_num buckets_num =
     (16 + 16 * (max_num + 1) + ms_need_mem_size sz max_num buckets_num) mod 2 ^ 64"

definition lru_init :: "'a \<Rightarrow> nat \<Rightarrow> 'a lru_block option \<Rightarrow> nat \<Rightarrow> nat \<Rightarrow> nat \<Rightarrow> bool \<Rightarrow>
    bool \<times> 'a lru_block option" where
  "lru_init z sz mem mem_size max_num buckets_num check =
     (case mem of
        None \<Rightarrow> (False, None)
      | Some h \<Rightarrow>
          if mem_size < 16 then (False, mem)
          else if check \<and> (lb_max_num h \<noteq> max_num \<or> lb_mem_size h \<noteq> mem_size) then (False, mem)
          else if \<not> check \<and> mem_size \<noteq> lru_need_mem_size sz max_num buckets_num then (False, mem)
          else
            (case ms_init z sz (Some (lb_base h)) (ms_need_mem_size sz max_num buckets_num)
                max_num buckets_num check of
               (True, Some b) \<Rightarrow>
                 (True, Some (if check then h\<lparr>lb_base := b\<rparr>
                   else \<lparr>lb_mem_size = mem_size, lb_max_num = max_num,
                          lb_link = replicate (max_num + 1) link0, lb_base = b\<rparr>))
             | _ \<Rightarrow> (False, mem)))"

section \<open>Abstraction and invariant\<close>

text \<open>The slots and the values, most recently used first.\<close>

definition lru_order :: "'a mem_lru \<Rightarrow> nat list" where
  "lru_order s = walk (nx (lru_link s)) (nx (lru_link s) 0) (ms_used (lru_base s))"

definition lru_vals :: "'a mem_set \<Rightarrow> nat list \<Rightarrow> 'a list" where
  "lru_vals b xs = map (\<lambda>i. the (ms_deref b i)) xs"

definition lru_items :: "'a mem_lru \<Rightarrow> 'a list" where
  "lru_items s = lru_vals (lru_base s) (lru_order s)"

definition lru_max :: "'a mem_lru \<Rightarrow> nat" where
  "lru_max s = ms_max (lru_base s)"

definition lru_rep :: "bool \<Rightarrow> ('a \<Rightarrow> nat) \<Rightarrow> ('a \<Rightarrow> 'k) \<Rightarrow> 'a mem_lru \<Rightarrow> nat list \<Rightarrow> bool" where
  "lru_rep triv hT key s xs \<longleftrightarrow> ms_ok triv hT key (lru_base s) \<and> dll (lru_link s) xs
     \<and> set xs = set (ms_slots (lru_base s)) \<and> length (lru_link s) = lru_max s + 1 \<and> 0 < lru_max s"

definition lru_ok :: "bool \<Rightarrow> ('a \<Rightarrow> nat) \<Rightarrow> ('a \<Rightarrow> 'k) \<Rightarrow> 'a mem_lru \<Rightarrow> bool" where
  "lru_ok triv hT key s \<longleftrightarrow> lru_rep triv hT key s (lru_order s)"

lemma lru_rep_length: "lru_rep triv hT key s xs \<Longrightarrow> length xs = ms_used (lru_base s)"
  using ms_shapeD(6,11) [of "lru_base s" "ms_chains (lru_base s)"]
  by (auto simp: lru_rep_def ms_ok_def ms_slots_def simp flip: distinct_card simp del: set_concat
      dest: dll_distinct)

lemma lru_rep_order: "lru_rep triv hT key s xs \<Longrightarrow> lru_order s = xs"
  using lru_rep_length [of triv hT key s xs] dll_walk [of "lru_link s" xs]
  by (simp add: lru_order_def lru_rep_def)

lemma lru_repI: "lru_rep triv hT key s xs \<Longrightarrow> lru_ok triv hT key s \<and> lru_items s = lru_vals (lru_base s) xs"
  by (simp add: lru_ok_def lru_items_def lru_rep_order)

lemma lru_okD:
  assumes "lru_ok triv hT key s"
  shows "ms_ok triv hT key (lru_base s)" "dll (lru_link s) (lru_order s)"
    "set (lru_order s) = set (ms_slots (lru_base s))" "length (lru_link s) = lru_max s + 1" "0 < lru_max s"
  using assms by (auto simp: lru_ok_def lru_rep_def)

section \<open>What the set's operations do to its slots, from their effect on the entries\<close>

lemma ms_slots_lookup:
  assumes "ms_ok triv hT key s"
  shows "i \<in> set (ms_slots s) \<longleftrightarrow> (\<exists>k v. ms_lookup key s k = Some (i, v))"
proof -
  have "\<exists>v. ms_deref s i = Some v" if "i \<in> set (ms_slots s)"
    using ms_keys_live [OF ms_okD(2) [OF assms]] that by (simp add: ms_slots_def)
  then show ?thesis using ms_lookup_some [OF assms] by blast
qed

lemma ms_slots_inserted:
  assumes ok: "ms_ok triv hT key s" and ok': "ms_ok triv hT key t"
    and new: "ms_lookup key s (key v) = None"
    and l: "ms_lookup key t = (ms_lookup key s)(key v \<mapsto> (i, v))"
  shows "set (ms_slots t) = insert i (set (ms_slots s))" "i \<notin> set (ms_slots s)" "ms_deref t i = Some v"
    "\<forall>j \<in> set (ms_slots s). ms_deref t j = ms_deref s j"
proof -
  show "ms_deref t i = Some v" using ms_lookup_some [OF ok', of "key v" i v] l by simp
  have keep: "ms_lookup key t k = Some (j, w)" "k \<noteq> key v" if "ms_lookup key s k = Some (j, w)" for k j w
    using that new l by auto
  show "\<forall>j \<in> set (ms_slots s). ms_deref t j = ms_deref s j"
  proof
    fix j assume "j \<in> set (ms_slots s)"
    then obtain k w where k: "ms_lookup key s k = Some (j, w)" using ms_slots_lookup [OF ok] by blast
    show "ms_deref t j = ms_deref s j"
      using ms_lookup_some [OF ok, of k j w] ms_lookup_some [OF ok', of k j w] k keep(1) [OF k] by simp
  qed
  show "i \<notin> set (ms_slots s)"
  proof
    assume "i \<in> set (ms_slots s)"
    then obtain k w where k: "ms_lookup key s k = Some (i, w)" using ms_slots_lookup [OF ok] by blast
    then have "ms_deref t i = Some w" "key w = k" "k \<noteq> key v"
      using ms_lookup_some [OF ok', of k i w] keep [OF k] by auto
    with \<open>ms_deref t i = Some v\<close> show False by simp
  qed
  have "j \<in> set (ms_slots t) \<longleftrightarrow> j = i \<or> j \<in> set (ms_slots s)" for j
  proof -
    have "(\<exists>k w. ms_lookup key t k = Some (j, w)) \<longleftrightarrow> j = i \<or> (\<exists>k w. ms_lookup key s k = Some (j, w))"
      using keep by (auto simp: l split: if_splits)
    then show ?thesis by (simp add: ms_slots_lookup [OF ok] ms_slots_lookup [OF ok'])
  qed
  then show "set (ms_slots t) = insert i (set (ms_slots s))" by auto
qed

lemma ms_slots_erased:
  assumes ok: "ms_ok triv hT key s" and ok': "ms_ok triv hT key t"
    and old: "ms_lookup key s k = Some (x, v)"
    and l: "ms_lookup key t = (ms_lookup key s)(k := None)"
  shows "set (ms_slots t) = set (ms_slots s) - {x}" "x \<in> set (ms_slots s)" "ms_deref s x = Some v"
    "\<forall>j \<in> set (ms_slots t). ms_deref t j = ms_deref s j"
proof -
  show x: "x \<in> set (ms_slots s)" "ms_deref s x = Some v"
    using ms_lookup_some [OF ok, of k x v] old by auto
  have sub: "ms_lookup key s k' = Some (j, w)" "j \<noteq> x" if "ms_lookup key t k' = Some (j, w)" for k' j w
  proof -
    show s: "ms_lookup key s k' = Some (j, w)" using that l by (auto split: if_splits)
    have "k' \<noteq> k" using that l by (auto split: if_splits)
    moreover have "ms_deref s j = Some w" "key w = k'" using ms_lookup_some [OF ok, of k' j w] s by auto
    moreover have "key v = k" using ms_lookup_some [OF ok, of k x v] old by simp
    ultimately show "j \<noteq> x" using x(2) by auto
  qed
  show "\<forall>j \<in> set (ms_slots t). ms_deref t j = ms_deref s j"
  proof
    fix j assume "j \<in> set (ms_slots t)"
    then obtain k' w where k: "ms_lookup key t k' = Some (j, w)" using ms_slots_lookup [OF ok'] by blast
    show "ms_deref t j = ms_deref s j"
      using ms_lookup_some [OF ok, of k' j w] ms_lookup_some [OF ok', of k' j w] k sub(1) [OF k] by simp
  qed
  have "j \<in> set (ms_slots t) \<longleftrightarrow> j \<in> set (ms_slots s) \<and> j \<noteq> x" for j
  proof
    assume "j \<in> set (ms_slots t)"
    then show "j \<in> set (ms_slots s) \<and> j \<noteq> x"
      using sub ms_slots_lookup [OF ok] ms_slots_lookup [OF ok'] by metis
  next
    assume j: "j \<in> set (ms_slots s) \<and> j \<noteq> x"
    then obtain k' w where k: "ms_lookup key s k' = Some (j, w)" using ms_slots_lookup [OF ok] by blast
    then have "k' \<noteq> k" using old j by auto
    with k l have "ms_lookup key t k' = Some (j, w)" by simp
    then show "j \<in> set (ms_slots t)" using ms_slots_lookup [OF ok'] by blast
  qed
  then show "set (ms_slots t) = set (ms_slots s) - {x}" by auto
qed

text \<open>A callback that keeps the key may change the value it is shown.\<close>

lemma ms_rewrite_value:
  assumes ok: "ms_ok triv hT key s" and p: "p \<in> set (ms_slots s)" "ms_deref s p = Some v"
    and k: "key v' = key v" "hT v' = hT v" and t: "t = ms_copy_one p v' s"
  shows "ms_ok triv hT key t" "ms_slots t = ms_slots s" "ms_max t = ms_max s" "ms_used t = ms_used s"
    "\<And>j. 0 < j \<Longrightarrow> ms_deref t j = (if j = p then Some v' else ms_deref s j)"
proof -
  note sh = ms_okD(1) [OF ok] and ks = ms_okD(2) [OF ok]
  have p0: "0 < p" "p \<le> ms_max s" using ms_shape_slot [OF sh] p(1) by (auto simp: ms_slots_def)
  have nx: "ms_nx t = ms_nx s" by (simp add: t ms_copy_one_def)
  have f: "ms_buckets t = ms_buckets s" "ms_raw_used t = ms_raw_used s" "ms_free t = ms_free s"
    "ms_next t = ms_next s" by (simp_all add: t ms_copy_one_def)
  show u: "ms_used t = ms_used s" and mx: "ms_max t = ms_max s" by (simp_all add: t ms_copy_one_def ms_max_def)
  have bn: "ms_buckets_num t = ms_buckets_num s" by (simp add: ms_buckets_num_def f)
  have c: "ms_chains t = ms_chains s" using nx f by (simp add: ms_chains_def)
  have fr: "ms_frees t = ms_frees s" using nx f by (simp add: ms_frees_def)
  show "ms_slots t = ms_slots s" using c by (simp add: ms_slots_def)
  show dr: "ms_deref t j = (if j = p then Some v' else ms_deref s j)" if "0 < j" for j
    using that p0 by (auto simp: t ms_copy_one_def ms_deref_def ms_max_def nth_list_update)
  have "ms_shape t (ms_chains s) (ms_frees s)"
    using sh unfolding ms_shape_def nx f u mx bn by blast
  moreover have "ms_keys triv hT key t (ms_chains s)"
  proof -
    have pos: "0 < j" if "j \<in> set (concat (ms_chains s))" for j using ms_shape_slot(1) [OF sh that] .
    have keq: "key (the (ms_deref t j)) = key (the (ms_deref s j))" if "j \<in> set (concat (ms_chains s))" for j
      using dr [OF pos [OF that]] p(2) k(1) by auto
    have "\<exists>w. ms_deref t j = Some w \<and> hT w mod length (ms_chains s) = b"
      if b: "b < length (ms_chains s)" "j \<in> set (ms_chains s ! b)" for b j
    proof -
      have j0: "0 < j" by (rule pos) (use b in \<open>auto simp: in_concat_nth simp del: set_concat\<close>)
      obtain w where "ms_deref s j = Some w" "hT w mod length (ms_chains s) = b"
        using ks b unfolding ms_keys_def by blast
      then show ?thesis using dr [OF j0] p(2) k(2) by (cases "j = p") auto
    qed
    moreover have "inj_on (\<lambda>j. key (the (ms_deref t j))) (set (concat (ms_chains s)))"
      using ks keq unfolding ms_keys_def by (subst inj_on_cong [OF keq]) auto
    moreover have "ms_live t = ms_live s" using dr mx p(2) by (auto simp: ms_live_def split: if_splits)
    ultimately show ?thesis using ks by (simp add: ms_keys_def)
  qed
  ultimately show "ms_ok triv hT key t" by (rule ms_okI)
qed

section \<open>The specification: a list of values, most recent first\<close>

fun lru_disuse_spec :: "('a \<Rightarrow> bool \<times> 'a) option \<Rightarrow> nat \<Rightarrow> 'a list \<Rightarrow> nat \<times> 'a list" where
  "lru_disuse_spec cb 0 xs = (0, xs)"
| "lru_disuse_spec cb (Suc n) xs =
     (if xs = [] then (0, [])
      else if (case cb of None \<Rightarrow> True | Some f \<Rightarrow> fst (f (last xs)))
      then (let (m, ys) = lru_disuse_spec cb n (butlast xs) in (m + 1, ys))
      else (0, butlast xs @ [snd (the cb (last xs))]))"

definition lru_insert_spec :: "('a \<Rightarrow> 'k) \<Rightarrow> nat \<Rightarrow> bool \<Rightarrow> ('a \<Rightarrow> bool \<times> 'a) option \<Rightarrow> 'a \<Rightarrow> 'a list \<Rightarrow> bool \<times> 'a list" where
  "lru_insert_spec key n force cb v xs =
     (if key v \<in> key ` set xs then (False, xs)
      else if length xs < n then (True, v # xs)
      else if \<not> force then (False, xs)
      else (let (m, ys) = lru_disuse_spec cb 1 xs in if m = 0 then (False, ys) else (True, v # ys)))"

definition lru_active_spec :: "('a \<Rightarrow> 'k) \<Rightarrow> 'k \<Rightarrow> 'a list \<Rightarrow> 'a list" where
  "lru_active_spec key k xs = filter (\<lambda>x. key x = k) xs @ filter (\<lambda>x. key x \<noteq> k) xs"

text \<open>A disuse callback may change the value it is shown, but not its key.\<close>

definition lru_keeps_key :: "('a \<Rightarrow> 'k) \<Rightarrow> ('a \<Rightarrow> bool \<times> 'a) option \<Rightarrow> bool" where
  "lru_keeps_key key cb \<longleftrightarrow> (\<forall>f v. cb = Some f \<longrightarrow> key (snd (f v)) = key v)"

text \<open>The operations of a client and their results: whether a value was inserted, found, and how
  many were disused.\<close>

datatype ('k, 'a) lru_op = LInsert 'a bool "('a \<Rightarrow> bool \<times> 'a) option" | LErase 'k | LActive 'k
  | LDisuse nat "('a \<Rightarrow> bool \<times> 'a) option"

fun lru_op_ok :: "('a \<Rightarrow> 'k) \<Rightarrow> ('k, 'a) lru_op \<Rightarrow> bool" where
  "lru_op_ok key (LInsert v force cb) = lru_keeps_key key cb"
| "lru_op_ok key (LDisuse n cb) = lru_keeps_key key cb"
| "lru_op_ok key _ = True"

fun lru_step :: "bool \<Rightarrow> ('a \<Rightarrow> nat) \<Rightarrow> ('a \<Rightarrow> 'a \<Rightarrow> bool) \<Rightarrow> ('k \<Rightarrow> nat) \<Rightarrow> ('a \<Rightarrow> 'k \<Rightarrow> bool) \<Rightarrow>
    ('k, 'a) lru_op \<Rightarrow> 'a mem_lru \<Rightarrow> (nat \<times> 'a mem_lru) option" where
  "lru_step triv hT eT hK eK (LInsert v force cb) s =
     map_option (\<lambda>((_, b), s). (of_bool b, s)) (lru_insert triv hT eT force cb v s)"
| "lru_step triv hT eT hK eK (LErase k) s = map_option (\<lambda>(_, s). (0, s)) (lru_erase triv hK eK k s)"
| "lru_step triv hT eT hK eK (LActive k) s =
     map_option (\<lambda>(i, s). (of_bool (i \<noteq> 0), s)) (lru_active hK eK k s)"
| "lru_step triv hT eT hK eK (LDisuse n cb) s = lru_disuse triv hT eT n cb s"

fun lru_spec :: "('a \<Rightarrow> 'k) \<Rightarrow> nat \<Rightarrow> ('k, 'a) lru_op \<Rightarrow> 'a list \<Rightarrow> nat \<times> 'a list" where
  "lru_spec key n (LInsert v force cb) xs = (let (b, ys) = lru_insert_spec key n force cb v xs in (of_bool b, ys))"
| "lru_spec key n (LErase k) xs = (0, filter (\<lambda>x. key x \<noteq> k) xs)"
| "lru_spec key n (LActive k) xs = (of_bool (k \<in> key ` set xs), lru_active_spec key k xs)"
| "lru_spec key n (LDisuse m cb) xs = lru_disuse_spec cb m xs"

fun lru_run :: "('op \<Rightarrow> 's \<Rightarrow> (nat \<times> 's) option) \<Rightarrow> 'op list \<Rightarrow> 's \<Rightarrow> (nat list \<times> 's) option" where
  "lru_run step [] s = Some ([], s)"
| "lru_run step (p # ps) s = do { (r, s) \<leftarrow> step p s; (rs, s) \<leftarrow> lru_run step ps s; Some (r # rs, s) }"

fun lru_spec_run :: "('op \<Rightarrow> 'a list \<Rightarrow> nat \<times> 'a list) \<Rightarrow> 'op list \<Rightarrow> 'a list \<Rightarrow> nat list \<times> 'a list" where
  "lru_spec_run spec [] xs = ([], xs)"
| "lru_spec_run spec (p # ps) xs =
     (let (r, ys) = spec p xs; (rs, zs) = lru_spec_run spec ps ys in (r # rs, zs))"

section \<open>Refinement\<close>

context hash_eq begin

abbreviation lok :: "'a mem_lru \<Rightarrow> bool" where
  "lok \<equiv> lru_ok triv hT key"

lemma lru_lookup_items:
  assumes "lok s"
  shows "ms_lookup key (lru_base s) k = None \<longleftrightarrow> k \<notin> key ` set (lru_items s)"
    "ms_lookup key (lru_base s) k = Some (i, v) \<Longrightarrow>
      \<exists>ys zs. lru_order s = ys @ i # zs \<and> v \<in> set (lru_items s) \<and> key v = k \<and> ms_deref (lru_base s) i = Some v"
proof -
  note d = lru_okD [OF assms]
  have live: "\<exists>v. ms_deref (lru_base s) i = Some v" if "i \<in> set (lru_order s)" for i
    using ms_keys_live [OF ms_okD(2) [OF d(1)]] that d(3) by (simp add: ms_slots_def)
  have it: "v \<in> set (lru_items s) \<longleftrightarrow> (\<exists>i \<in> set (ms_slots (lru_base s)). ms_deref (lru_base s) i = Some v)" for v
  proof
    assume "v \<in> set (lru_items s)"
    then obtain i where i: "i \<in> set (lru_order s)" "v = the (ms_deref (lru_base s) i)"
      by (auto simp: lru_items_def lru_vals_def)
    with live [of i] d(3) show "\<exists>i \<in> set (ms_slots (lru_base s)). ms_deref (lru_base s) i = Some v" by auto
  next
    assume "\<exists>i \<in> set (ms_slots (lru_base s)). ms_deref (lru_base s) i = Some v"
    then obtain i where "i \<in> set (lru_order s)" "ms_deref (lru_base s) i = Some v" using d(3) by auto
    then show "v \<in> set (lru_items s)" by (force simp: lru_items_def lru_vals_def)
  qed
  show "ms_lookup key (lru_base s) k = None \<longleftrightarrow> k \<notin> key ` set (lru_items s)"
    unfolding ms_lookup_none [OF d(1)] using it by blast
  assume "ms_lookup key (lru_base s) k = Some (i, v)"
  then have i: "i \<in> set (lru_order s)" "ms_deref (lru_base s) i = Some v" "key v = k"
    using ms_lookup_some [OF d(1)] d(3) by auto
  moreover obtain ys zs where "lru_order s = ys @ i # zs" using split_list [OF i(1)] by blast
  moreover have "v \<in> set (lru_items s)" using it i d(3) by auto
  ultimately show "\<exists>ys zs. lru_order s = ys @ i # zs \<and> v \<in> set (lru_items s) \<and> key v = k
      \<and> ms_deref (lru_base s) i = Some v" by blast
qed

text \<open>The values split at a slot of the list; no other value has its key.\<close>

lemma lru_items_split:
  assumes "lok s" "ms_lookup key (lru_base s) k = Some (i, v)" "lru_order s = ys @ i # zs"
  shows "lru_items s = lru_vals (lru_base s) ys @ v # lru_vals (lru_base s) zs"
    "\<forall>w \<in> set (lru_vals (lru_base s) ys) \<union> set (lru_vals (lru_base s) zs). key w \<noteq> k" "key v = k"
proof -
  note d = lru_okD [OF assms(1)]
  have v: "ms_deref (lru_base s) i = Some v" "key v = k" using ms_lookup_some [OF d(1)] assms(2) by auto
  then show "lru_items s = lru_vals (lru_base s) ys @ v # lru_vals (lru_base s) zs"
    using assms(3) by (simp add: lru_items_def lru_vals_def)
  show "key v = k" by (rule v(2))
  have "inj_on (\<lambda>j. key (the (ms_deref (lru_base s) j))) (set (lru_order s))"
    using ms_okD(2) [OF d(1)] d(3) by (simp add: ms_keys_def ms_slots_def)
  moreover have "i \<notin> set ys \<union> set zs" using dll_distinct [OF d(2)] assms(3) by auto
  ultimately have "key (the (ms_deref (lru_base s) j)) \<noteq> key (the (ms_deref (lru_base s) i))"
    if "j \<in> set ys \<union> set zs" for j using that assms(3) by (auto simp: inj_on_def)
  with v show "\<forall>w \<in> set (lru_vals (lru_base s) ys) \<union> set (lru_vals (lru_base s) zs). key w \<noteq> k"
    by (auto simp: lru_vals_def)
qed

lemma lru_filter_split:
  "\<forall>w \<in> set as \<union> set bs. key w \<noteq> k \<Longrightarrow> key v = k \<Longrightarrow>
   filter (\<lambda>x. key x = k) (as @ v # bs) = [v] \<and> filter (\<lambda>x. key x \<noteq> k) (as @ v # bs) = as @ bs"
  by (auto simp: filter_empty_conv filter_id_conv)

lemma lru_erase_spec:
  assumes ok: "lok s"
  shows "\<exists>t. lru_erase triv hK eK k s
      = Some (case ms_lookup key (lru_base s) k of None \<Rightarrow> 0 | Some (i, _) \<Rightarrow> i, t)
    \<and> lok t \<and> lru_max t = lru_max s \<and> lru_items t = filter (\<lambda>x. key x \<noteq> k) (lru_items s)
    \<and> ms_lookup key (lru_base t) = (ms_lookup key (lru_base s))(k := None)"
proof -
  let ?b = "lru_base s"
  note d = lru_okD [OF ok]
  from keyed.erase_lookup [OF d(1), of k] obtain b where b:
    "ms_erase triv hK eK k ?b = Some (case ms_lookup key ?b k of None \<Rightarrow> 0 | Some (i, _) \<Rightarrow> i, b)"
    "ms_ok triv hT key b" "ms_max b = ms_max ?b" "ms_lookup key b = (ms_lookup key ?b)(k := None)" by blast
  show ?thesis
  proof (cases "ms_lookup key ?b k")
    case None
    have "ms_erase triv hK eK k ?b = Some (0, ?b)" by (rule erase_absent [OF d(1) None])
    then have "lru_erase triv hK eK k s = Some (0, s)" by (simp add: lru_erase_def)
    moreover have "filter (\<lambda>x. key x \<noteq> k) (lru_items s) = lru_items s"
      using lru_lookup_items(1) [OF ok, of k] None by (auto simp: filter_id_conv)
    moreover have "(ms_lookup key ?b)(k := None) = ms_lookup key ?b" using None by auto
    ultimately show ?thesis using None ok by simp
  next
    case (Some e)
    obtain i v where e: "ms_lookup key ?b k = Some (i, v)" using Some by (cases e) auto
    obtain ys zs where o: "lru_order s = ys @ i # zs" using lru_lookup_items(2) [OF ok e] by blast
    note sp = lru_items_split [OF ok e o]
    note er = ms_slots_erased [OF d(1) b(2) e b(4)]
    have i: "0 < i" "i < length (lru_link s)" "i \<notin> set (ys @ zs)"
      using dll_0_notin [OF d(2)] dll_in_range [OF d(2), of i] dll_distinct [OF d(2)] o by auto
    define m where "m = (unlink (lru_link s) i)[i := link0]"
    define t where "t = s\<lparr>lru_base := b, lru_link := m\<rparr>"
    have "lru_erase triv hK eK k s = Some (i, t)"
      using b(1) e i by (simp add: lru_erase_def Let_def t_def m_def)
    moreover have "dll m (ys @ zs)"
    proof (rule dll_frame)
      show "dll (unlink (lru_link s) i) (ys @ zs)" using dll_unlink d(2) o by simp
    qed (use i in \<open>auto simp: m_def link_simps\<close>)
    moreover have st: "set (ys @ zs) = set (ms_slots b)"
      using er(1) d(3) o i(3) by auto
    ultimately have "lru_rep triv hT key t (ys @ zs)"
      using b(2,3) d(4,5) by (simp add: lru_rep_def t_def m_def lru_max_def)
    from lru_repI [OF this] have t: "lok t" "lru_items t = lru_vals b (ys @ zs)" by (auto simp: t_def)
    have "lru_vals b (ys @ zs) = lru_vals ?b (ys @ zs)"
      unfolding lru_vals_def using er(4) st by (intro map_cong) auto
    moreover have "filter (\<lambda>x. key x \<noteq> k) (lru_items s) = lru_vals ?b (ys @ zs)"
      using lru_filter_split [OF sp(2,3)] by (simp add: sp(1)) (simp add: lru_vals_def)
    ultimately show ?thesis
      using \<open>lru_erase triv hK eK k s = Some (i, t)\<close> t e b(3,4)
      by (intro exI [of _ t]) (simp add: t_def lru_max_def)
  qed
qed

lemma lru_erase_value:
  "lok s \<Longrightarrow> v \<in> set (lru_items s) \<Longrightarrow> lru_erase triv hT eT v s = lru_erase triv hK eK (key v) s"
proof -
  have "ms_match eT v b = ms_match eK (key v) b" for b by (rule match_value)
  then have "ms_erase triv hT eT v b = ms_erase triv hK eK (key v) b" for b
    by (simp only: ms_erase_def hash_key)
  then show "lru_erase triv hT eT v s = lru_erase triv hK eK (key v) s" by (simp only: lru_erase_def)
qed

lemma lru_active_refines:
  assumes ok: "lok s"
  shows "\<exists>t. lru_active hK eK k s
      = Some (case ms_lookup key (lru_base s) k of None \<Rightarrow> 0 | Some (i, _) \<Rightarrow> i, t)
    \<and> lok t \<and> lru_max t = lru_max s \<and> lru_items t = lru_active_spec key k (lru_items s)
    \<and> lru_base t = lru_base s"
proof -
  let ?b = "lru_base s"
  note d = lru_okD [OF ok]
  note f = find_index_spec [OF d(1), of k]
  show ?thesis
  proof (cases "ms_lookup key ?b k")
    case None
    have "\<forall>x \<in> set (lru_items s). key x \<noteq> k" using lru_lookup_items(1) [OF ok, of k] None by auto
    then have "lru_active_spec key k (lru_items s) = lru_items s"
      by (auto simp: lru_active_spec_def filter_empty_conv filter_id_conv)
    with None f ok show ?thesis by (simp add: lru_active_def)
  next
    case (Some e)
    obtain i v where e: "ms_lookup key ?b k = Some (i, v)" using Some by (cases e) auto
    obtain ys zs where o: "lru_order s = ys @ i # zs" using lru_lookup_items(2) [OF ok e] by blast
    note sp = lru_items_split [OF ok e o]
    have i: "i \<noteq> 0" "i < length (lru_link s)" "i \<notin> set (ys @ zs)"
      using dll_0_notin [OF d(2)] dll_in_range [OF d(2), of i] dll_distinct [OF d(2)] o by auto
    define t where "t = s\<lparr>lru_link := link_front (unlink (lru_link s) i) i\<rparr>"
    have "dll (unlink (lru_link s) i) (ys @ zs)" using dll_unlink d(2) o by simp
    then have "dll (lru_link t) (i # ys @ zs)"
      using dll_link_front i by (simp add: t_def)
    then have "lru_rep triv hT key t (i # ys @ zs)"
      using d o by (auto simp: lru_rep_def t_def lru_max_def)
    from lru_repI [OF this] have t: "lok t" "lru_items t = lru_vals ?b (i # ys @ zs)" by (auto simp: t_def)
    have "lru_vals ?b (i # ys @ zs) = v # lru_vals ?b ys @ lru_vals ?b zs"
      using ms_lookup_some [OF d(1), of k i v] e by (simp add: lru_vals_def)
    also have "\<dots> = lru_active_spec key k (lru_items s)"
      using lru_filter_split [OF sp(2,3)] by (simp add: lru_active_spec_def sp(1))
    finally show ?thesis using t f e i by (intro exI [of _ t]) (simp add: lru_active_def t_def lru_max_def)
  qed
qed

text \<open>The callback on the least recent value.\<close>

lemma lru_callback:
  assumes ok: "lok s" and o: "lru_order s = ys @ [p]" and k: "key w = key v"
    and v: "ms_deref (lru_base s) p = Some v" and t: "t = s\<lparr>lru_base := ms_copy_one p w (lru_base s)\<rparr>"
  shows "lok t" "lru_max t = lru_max s" "lru_items t = butlast (lru_items s) @ [w]" "lru_order t = ys @ [p]"
    "ms_used (lru_base t) = ms_used (lru_base s)" "ms_deref (lru_base t) p = Some w" "lru_link t = lru_link s"
proof -
  note d = lru_okD [OF ok]
  have p: "p \<in> set (ms_slots (lru_base s))" using d(3) o by auto
  have p0: "0 < p" using ms_shape_slot(1) [OF ms_okD(1) [OF d(1)]] p by (simp add: ms_slots_def)
  have h: "hT w = hT v" using k by (simp add: hash_key)
  note r = ms_rewrite_value [OF d(1) p v k h refl]
  have "lru_rep triv hT key t (ys @ [p])"
    using r d o by (simp add: lru_rep_def t lru_max_def)
  from lru_repI [OF this] lru_rep_order [OF this]
  show "lok t" "lru_order t = ys @ [p]" by auto
  have pos: "0 < j" if "j \<in> set ys" for j using dll_0_notin [OF d(2)] that o by (auto intro: gr0I)
  have "p \<notin> set ys" using dll_distinct [OF d(2)] o by simp
  then have "lru_vals (lru_base t) ys = lru_vals (lru_base s) ys"
    using r(5) pos by (auto simp: lru_vals_def t)
  moreover show "ms_deref (lru_base t) p = Some w" using r(5) [OF p0] by (simp add: t)
  moreover have "lru_items s = lru_vals (lru_base s) ys @ [v]" using o v by (simp add: lru_items_def lru_vals_def)
  moreover have "lru_items t = lru_vals (lru_base t) (ys @ [p])"
    using lru_repI [OF \<open>lru_rep triv hT key t (ys @ [p])\<close>] by simp
  ultimately show "lru_items t = butlast (lru_items s) @ [w]" by (simp add: lru_vals_def)
  show "lru_max t = lru_max s" "ms_used (lru_base t) = ms_used (lru_base s)" "lru_link t = lru_link s"
    using r(3,4) by (simp_all add: t lru_max_def)
qed

lemma lru_items_last:
  assumes ok: "lok s" and ne: "lru_items s \<noteq> []"
  shows "\<exists>ys p. lru_order s = ys @ [p] \<and> pv (lru_link s) 0 = p
    \<and> ms_deref (lru_base s) p = Some (last (lru_items s)) \<and> \<not> ms_empty (lru_base s)"
proof -
  note d = lru_okD [OF ok]
  obtain ys p where o: "lru_order s = ys @ [p]"
    using ne by (cases "lru_order s" rule: rev_cases) (auto simp: lru_items_def lru_vals_def)
  have "pv (lru_link s) 0 = p" using dll_last [OF d(2)] o by simp
  moreover have "\<exists>v. ms_deref (lru_base s) p = Some v"
    using ms_keys_live [OF ms_okD(2) [OF d(1)], of p] d(3) o by (auto simp: ms_slots_def simp del: set_concat)
  moreover have "last (lru_items s) = the (ms_deref (lru_base s) p)" using o by (simp add: lru_items_def lru_vals_def)
  moreover have "length (lru_order s) = ms_used (lru_base s)"
    using lru_rep_length [of triv hT key s] ok by (simp add: lru_ok_def)
  ultimately show ?thesis using o by (auto simp: ms_empty_def)
qed

lemma lru_items_empty: "lok s \<Longrightarrow> lru_items s = [] \<longleftrightarrow> ms_empty (lru_base s)"
  using lru_rep_length [of triv hT key s "lru_order s"] lru_okD(5) [of triv hT key s]
  by (auto simp: lru_ok_def lru_items_def lru_vals_def ms_empty_def lru_max_def)

lemma lru_items_distinct: "lok s \<Longrightarrow> distinct (map key (lru_items s))"
proof -
  assume ok: "lok s"
  note d = lru_okD [OF ok]
  have "inj_on (\<lambda>j. key (the (ms_deref (lru_base s) j))) (set (lru_order s))"
    using ms_okD(2) [OF d(1)] d(3) by (simp add: ms_keys_def ms_slots_def)
  then show ?thesis using dll_distinct [OF d(2)]
    by (simp add: lru_items_def lru_vals_def comp_def distinct_map)
qed

lemma filter_last: "distinct (map key xs) \<Longrightarrow> xs \<noteq> [] \<Longrightarrow>
  filter (\<lambda>x. key x \<noteq> key (last xs)) xs = butlast xs"
proof (cases xs rule: rev_cases)
  case (snoc ys y)
  moreover assume "distinct (map key xs)"
  ultimately have "\<forall>x \<in> set ys. key x \<noteq> key y" by (auto simp: image_iff)
  with snoc show ?thesis by (simp add: filter_id_conv)
qed simp

lemma lru_disuse_refines:
  assumes "lru_keeps_key key cb"
  shows "lok s \<Longrightarrow> \<exists>t. lru_disuse_loop triv hT eT cb n i s = Some (i + fst (lru_disuse_spec cb n (lru_items s)), t)
    \<and> lok t \<and> lru_max t = lru_max s \<and> lru_items t = snd (lru_disuse_spec cb n (lru_items s))"
proof (induction n arbitrary: i s)
  case (Suc n)
  show ?case
  proof (cases "lru_items s = []")
    case True
    then show ?thesis using lru_items_empty [OF Suc.prems] Suc.prems by simp
  next
    case False
    obtain ys p where o: "lru_order s = ys @ [p]" and h: "pv (lru_link s) 0 = p"
      and v: "ms_deref (lru_base s) p = Some (last (lru_items s))" and ne: "\<not> ms_empty (lru_base s)"
      using lru_items_last [OF Suc.prems False] by blast
    let ?v = "last (lru_items s)"
    define go where "go = (case cb of None \<Rightarrow> True | Some f \<Rightarrow> fst (f ?v))"
    define w where "w = (case cb of None \<Rightarrow> ?v | Some f \<Rightarrow> snd (f ?v))"
    define s1 where "s1 = (case cb of None \<Rightarrow> s | Some f \<Rightarrow> s\<lparr>lru_base := ms_copy_one p w (lru_base s)\<rparr>)"
    have kw: "key w = key ?v" using assms by (auto simp: w_def lru_keeps_key_def split: option.splits)
    have s1: "lok s1" "lru_max s1 = lru_max s" "lru_items s1 = butlast (lru_items s) @ [w]"
      "ms_deref (lru_base s1) p = Some w" "lru_link s1 = lru_link s"
      using lru_callback [OF Suc.prems o kw v refl] Suc.prems False v
      by (auto simp: s1_def w_def split: option.splits)
    have "w \<in> set (lru_items s1)" using s1(3) by simp
    from lru_erase_value [OF s1(1) this] lru_erase_spec [OF s1(1), of "key w"] obtain j t where
      t: "lru_erase triv hT eT w s1 = Some (j, t)" "lok t" "lru_max t = lru_max s1"
      "lru_items t = filter (\<lambda>x. key x \<noteq> key w) (lru_items s1)" by auto
    have it: "lru_items t = butlast (lru_items s)"
      using filter_last [OF lru_items_distinct [OF s1(1)]] t(4) s1(3) by simp
    have l: "lru_disuse_loop triv hT eT cb (Suc n) i s
        = (if \<not> go then Some (i, s1) else lru_disuse_loop triv hT eT cb n (i + 1) t)"
      using ne h v t(1) s1(4,5) by (simp add: go_def s1_def w_def split: option.splits)
    show ?thesis
    proof (cases go)
      case True
      from Suc.IH [OF t(2), of "i + 1"] obtain u where
        u: "lru_disuse_loop triv hT eT cb n (i + 1) t = Some (i + 1 + fst (lru_disuse_spec cb n (butlast (lru_items s))), u)"
        "lok u" "lru_max u = lru_max t" "lru_items u = snd (lru_disuse_spec cb n (butlast (lru_items s)))"
        unfolding it by blast
      have "lru_disuse_spec cb (Suc n) (lru_items s) =
          (fst (lru_disuse_spec cb n (butlast (lru_items s))) + 1, snd (lru_disuse_spec cb n (butlast (lru_items s))))"
        using True False by (simp add: go_def split_beta)
      then show ?thesis using l True u t(3) s1(2) by simp
    next
      case no: False
      then obtain f where f: "cb = Some f" by (auto simp: go_def split: option.splits)
      then show ?thesis using l no s1 False by (simp add: go_def w_def)
    qed
  qed
qed simp

lemma lru_used_items: "lok s \<Longrightarrow> ms_used (lru_base s) = length (lru_items s)"
  using lru_rep_length [of triv hT key s "lru_order s"]
  by (simp add: lru_ok_def lru_items_def lru_vals_def)

lemma lru_bounded: "lok s \<Longrightarrow> length (lru_items s) \<le> lru_max s"
  using keyed.count_cap [OF lru_okD(1)] by (simp add: lru_max_def flip: lru_used_items)

text \<open>The result index of an insert is where the key is found afterwards.\<close>

definition lands :: "'a mem_lru \<Rightarrow> 'a \<Rightarrow> nat \<Rightarrow> bool" where
  "lands t v i \<longleftrightarrow> i = (case ms_lookup key (lru_base t) (key v) of None \<Rightarrow> 0 | Some (j, _) \<Rightarrow> j)"

lemma lru_insert_base_fresh:
  assumes ok: "lok s" and new: "key v \<notin> key ` set (lru_items s)" and room: "length (lru_items s) < lru_max s"
  shows "\<exists>i t. lru_insert_base hT eT v s = Some ((i, True), t) \<and> lok t \<and> lru_max t = lru_max s
    \<and> lru_items t = v # lru_items s
    \<and> ms_lookup key (lru_base t) = (ms_lookup key (lru_base s))(key v \<mapsto> (i, v))"
proof -
  let ?b = "lru_base s"
  note d = lru_okD [OF ok]
  have none: "ms_lookup key ?b (key v) = None" using lru_lookup_items(1) [OF ok] new by simp
  have "\<not> ms_full ?b" using room lru_used_items [OF ok] by (simp add: ms_full_def lru_max_def)
  from insert_fresh [OF d(1) none this] obtain i b where b: "ms_insert hT eT v ?b = Some ((i, True), b)"
    "ms_ok triv hT key b" "ms_max b = ms_max ?b" "ms_lookup key b = (ms_lookup key ?b)(key v \<mapsto> (i, v))" by blast
  note ins = ms_slots_inserted [OF d(1) b(2) none b(4)]
  define t where "t = s\<lparr>lru_base := b, lru_link := link_front (lru_link s) i\<rparr>"
  have "i \<in> set (ms_slots b)" using ins(1) by simp
  then have i: "i \<noteq> 0" "i \<le> ms_max b"
    using ms_shape_slot [OF ms_okD(1) [OF b(2)]] by (auto simp: ms_slots_def simp del: set_concat)
  have "dll (link_front (lru_link s) i) (i # lru_order s)"
    using i ins(2) d(3,4) b(3) by (intro dll_link_front [OF d(2)]) (auto simp: lru_max_def)
  then have "lru_rep triv hT key t (i # lru_order s)"
    using b(2,3) ins(1) d(3,4,5) by (simp add: lru_rep_def t_def lru_max_def)
  from lru_repI [OF this] have t: "lok t" "lru_items t = lru_vals b (i # lru_order s)" by (auto simp: t_def)
  have "lru_vals b (lru_order s) = lru_items s"
    unfolding lru_vals_def lru_items_def using ins(4) d(3) by (intro map_cong) auto
  then have "lru_items t = v # lru_items s" using t(2) ins(3) by (simp add: lru_vals_def)
  then show ?thesis using t(1) b by (intro exI [of _ i] exI [of _ t]) (simp add: lru_insert_base_def t_def lru_max_def)
qed

lemma lru_insert_base_old:
  assumes ok: "lok s" and old: "key v \<in> key ` set (lru_items s)"
  shows "\<exists>i w. lru_insert_base hT eT v s = Some ((i, False), s) \<and> ms_lookup key (lru_base s) (key v) = Some (i, w)
    \<and> ms_find_index hT eT v (lru_base s) = Some i \<and> i \<noteq> 0"
proof -
  note d = lru_okD [OF ok]
  obtain i w where l: "ms_lookup key (lru_base s) (key v) = Some (i, w)"
    using lru_lookup_items(1) [OF ok, of "key v"] old by (cases "ms_lookup key (lru_base s) (key v)") auto
  have "ms_find_index hT eT v (lru_base s) = ms_find_index hK eK (key v) (lru_base s)"
    by (simp add: ms_find_index_def ms_find_index_impl_def hash_key match_value)
  then show ?thesis
    using insert_present [OF d(1) l] find_index_spec [OF d(1), of "key v"] l lookup_pos(1) [OF d(1) l]
    by (simp add: lru_insert_base_def)
qed

lemma lru_insert_refines:
  assumes ok: "lok s" and cb: "lru_keeps_key key cb"
  shows "\<exists>i t. lru_insert triv hT eT force cb v s
      = Some ((i, fst (lru_insert_spec key (lru_max s) force cb v (lru_items s))), t)
    \<and> lok t \<and> lru_max t = lru_max s \<and> lands t v i
    \<and> lru_items t = snd (lru_insert_spec key (lru_max s) force cb v (lru_items s))"
proof (cases "key v \<in> key ` set (lru_items s)")
  case True
  from lru_insert_base_old [OF ok True] obtain i w where
    o: "lru_insert_base hT eT v s = Some ((i, False), s)" "ms_lookup key (lru_base s) (key v) = Some (i, w)"
    "ms_find_index hT eT v (lru_base s) = Some i" "i \<noteq> 0" by blast
  then show ?thesis using True ok
    by (intro exI [of _ i] exI [of _ s]) (simp add: lru_insert_def lru_find_def lru_insert_spec_def lands_def)
next
  case new: False
  note d = lru_okD [OF ok]
  have none: "ms_lookup key (lru_base s) (key v) = None" using lru_lookup_items(1) [OF ok] new by simp
  have full: "ms_full (lru_base s) \<longleftrightarrow> \<not> length (lru_items s) < lru_max s"
    using lru_used_items [OF ok] lru_bounded [OF ok] by (auto simp: ms_full_def lru_max_def)
  show ?thesis
  proof (cases "length (lru_items s) < lru_max s")
    case True
    with lru_insert_base_fresh [OF ok new True] new full show ?thesis
      by (auto simp: lru_insert_def lru_insert_spec_def lands_def)
  next
    case False
    have f0: "lru_find hT eT v s = Some 0"
      using find_index_spec [OF d(1), of "key v"] none
      by (simp add: lru_find_def ms_find_index_def ms_find_index_impl_def hash_key match_value)
    show ?thesis
    proof (cases force)
      case nforce: False
      with f0 full False new none ok show ?thesis
        by (intro exI [of _ 0] exI [of _ s]) (simp add: lru_insert_def lru_insert_spec_def lands_def)
    next
      case True
      let ?D = "lru_disuse_spec cb 1 (lru_items s)"
      from lru_disuse_refines [OF cb ok, of 1 0] obtain t where
        t: "lru_disuse triv hT eT 1 cb s = Some (fst ?D, t)" "lok t" "lru_max t = lru_max s"
        "lru_items t = snd ?D" by (auto simp: lru_disuse_def)
      have ne: "lru_items s \<noteq> []" using False d(5) by (cases "lru_items s") auto
      obtain ys y where sy: "lru_items s = ys @ [y]" using ne by (cases "lru_items s" rule: rev_cases) auto
      have D: "?D = (if (case cb of None \<Rightarrow> True | Some f \<Rightarrow> fst (f y)) then (1, ys) else (0, ys @ [snd (the cb y)]))"
        using sy by (simp cong: option.case_cong)
      have nk: "key v \<notin> key ` set (lru_items t)"
        using new cb sy D t(4) by (auto simp: lru_keeps_key_def split: if_splits option.splits)
      show ?thesis
      proof (cases "fst ?D = 0")
        case z: True
        then show ?thesis using t full False new True f0 lru_lookup_items(1) [OF t(2), of "key v"] nk
          by (intro exI [of _ 0] exI [of _ t])
            (simp add: lru_insert_def lru_insert_spec_def lands_def split_beta del: lru_disuse_spec.simps)
      next
        case nz: False
        then have "length (lru_items t) < lru_max t"
          using D t(3,4) sy lru_bounded [OF ok] by (auto split: if_splits)
        from lru_insert_base_fresh [OF t(2) nk this] t nz full False new True f0 show ?thesis
          by (auto simp: lru_insert_def lru_insert_spec_def lands_def split_beta simp del: lru_disuse_spec.simps)
      qed
    qed
  qed
qed

text \<open>While there is room, the LRU containers keep the contract of the keyed containers.\<close>

sublocale lruk: keyed_base lok "\<lambda>s. ms_lookup key (lru_base s)" lru_max lru_size key
  "lru_insert triv hT eT force cb" "lru_find hK eK" "lru_erase triv hK eK" for force cb
proof unfold_locales
  fix s :: "'a mem_lru" and k i v w
  assume ok: "lok s"
  note d = lru_okD [OF ok]
  show "finite (dom (ms_lookup key (lru_base s)))" "lru_size s = card (dom (ms_lookup key (lru_base s)))"
    "lru_size s \<le> lru_max s"
    using keyed.dom_finite [OF d(1)] keyed.count_card [OF d(1)] keyed.count_cap [OF d(1)]
    by (simp_all add: lru_size_def ms_size_def lru_max_def)
  show "ms_lookup key (lru_base s) k = Some (i, v) \<Longrightarrow> key v = k \<and> i \<noteq> 0"
    using keyed.lookup_key [OF d(1)] by blast
  show "lru_find hK eK k s = Some (case ms_lookup key (lru_base s) k of None \<Rightarrow> 0 | Some (i, _) \<Rightarrow> i)"
    by (simp add: lru_find_def find_index_spec [OF d(1)])
  have room: "\<not> ms_full (lru_base s)" "length (lru_items s) < lru_max s" if "lru_size s < lru_max s"
    using that lru_used_items [OF ok] by (auto simp: lru_size_def ms_size_def ms_full_def lru_max_def)
  show "\<exists>i t. lru_insert triv hT eT force cb v s = Some ((i, True), t) \<and> lok t \<and> lru_max t = lru_max s
      \<and> ms_lookup key (lru_base t) = (ms_lookup key (lru_base s))(key v \<mapsto> (i, v))"
    if "ms_lookup key (lru_base s) (key v) = None" "lru_size s < lru_max s"
    using lru_insert_base_fresh [OF ok _ room(2) [OF that(2)], of v] lru_lookup_items(1) [OF ok] that(1)
      room(1) [OF that(2)] by (auto simp: lru_insert_def)
  show "lru_insert triv hT eT force cb v s = Some ((i, False), s)"
    if "ms_lookup key (lru_base s) (key v) = Some (i, w)" "lru_size s < lru_max s"
    using insert_present [OF d(1) that(1)] room(1) [OF that(2)] by (simp add: lru_insert_def lru_insert_base_def)
  show "\<exists>t. lru_erase triv hK eK k s = Some (case ms_lookup key (lru_base s) k of None \<Rightarrow> 0 | Some (i, _) \<Rightarrow> i, t)
      \<and> lok t \<and> lru_max t = lru_max s \<and> ms_lookup key (lru_base t) = (ms_lookup key (lru_base s))(k := None)"
    using lru_erase_spec [OF ok, of k] by blast
qed

lemma lru_step_refines:
  assumes ok: "lok s" and p: "lru_op_ok key p"
  shows "\<exists>t. lru_step triv hT eT hK eK p s = Some (fst (lru_spec key (lru_max s) p (lru_items s)), t)
    \<and> lok t \<and> lru_max t = lru_max s \<and> lru_items t = snd (lru_spec key (lru_max s) p (lru_items s))"
proof (cases p)
  case (LInsert v force cb)
  from lru_insert_refines [OF ok, of cb force v] p LInsert obtain i t where
    "lru_insert triv hT eT force cb v s
      = Some ((i, fst (lru_insert_spec key (lru_max s) force cb v (lru_items s))), t)"
    "lok t" "lru_max t = lru_max s"
    "lru_items t = snd (lru_insert_spec key (lru_max s) force cb v (lru_items s))" by auto
  with LInsert show ?thesis by (simp add: split_beta)
next
  case (LErase k)
  with lru_erase_spec [OF ok, of k] show ?thesis by auto
next
  case (LActive k)
  from lru_active_refines [OF ok, of k] obtain t where
    t: "lru_active hK eK k s = Some (case ms_lookup key (lru_base s) k of None \<Rightarrow> 0 | Some (i, _) \<Rightarrow> i, t)"
    "lok t" "lru_max t = lru_max s" "lru_items t = lru_active_spec key k (lru_items s)" by blast
  have "(case ms_lookup key (lru_base s) k of None \<Rightarrow> 0 | Some (i, _) \<Rightarrow> i) \<noteq> 0 \<longleftrightarrow> k \<in> key ` set (lru_items s)"
    using lru_lookup_items(1) [OF ok, of k] lookup_pos(1) [OF lru_okD(1) [OF ok]]
    by (auto split: option.splits)
  with t LActive show ?thesis by simp
next
  case (LDisuse n cb)
  with lru_disuse_refines [of cb s n 0] ok p show ?thesis by (simp add: lru_disuse_def)
qed

lemma lru_run_refines:
  "lok s \<Longrightarrow> list_all (lru_op_ok key) ps \<Longrightarrow>
   \<exists>t. lru_run (lru_step triv hT eT hK eK) ps s
        = Some (fst (lru_spec_run (lru_spec key (lru_max s)) ps (lru_items s)), t)
     \<and> lok t \<and> lru_max t = lru_max s \<and> lru_items t = snd (lru_spec_run (lru_spec key (lru_max s)) ps (lru_items s))"
proof (induction ps arbitrary: s)
  case (Cons p ps)
  from lru_step_refines [OF Cons.prems(1), of p] Cons.prems(2) obtain t where
    t: "lru_step triv hT eT hK eK p s = Some (fst (lru_spec key (lru_max s) p (lru_items s)), t)"
    "lok t" "lru_max t = lru_max s" "lru_items t = snd (lru_spec key (lru_max s) p (lru_items s))" by auto
  from Cons.IH [OF t(2)] Cons.prems(2) obtain u where
    "lru_run (lru_step triv hT eT hK eK) ps t
      = Some (fst (lru_spec_run (lru_spec key (lru_max t)) ps (lru_items t)), u)"
    "lok u" "lru_max u = lru_max t" "lru_items u = snd (lru_spec_run (lru_spec key (lru_max t)) ps (lru_items t))"
    by auto
  with t show ?case by (simp add: split_beta)
qed simp

end

section \<open>The public containers\<close>

lemma lru_blank_ok:
  assumes "ms_ok triv hT key b" "ms_used b = 0" "0 < ms_max b"
  shows "lru_ok triv hT key \<lparr>lru_link = replicate (ms_max b + 1) link0, lru_base = b\<rparr>"
    "lru_items \<lparr>lru_link = replicate (ms_max b + 1) link0, lru_base = b\<rparr> = []"
proof -
  let ?s = "\<lparr>lru_link = replicate (ms_max b + 1) link0, lru_base = b\<rparr>"
  have "ms_slots b = []" using ms_shapeD(11) [OF ms_okD(1) [OF assms(1)]] assms(2) by (simp add: ms_slots_def)
  moreover have "dll (replicate (ms_max b + 1) link0) []" by (simp add: dll_Nil nx_def pv_def link0_def)
  ultimately have "lru_rep triv hT key ?s []" using assms by (simp add: lru_rep_def lru_max_def)
  from lru_repI [OF this] show "lru_ok triv hT key ?s" "lru_items ?s = []" by (simp_all add: lru_vals_def)
qed

text \<open>The compile-time layer.\<close>

definition lru_static :: "nat \<Rightarrow> nat \<Rightarrow> 'a mem_lru option" where
  "lru_static sizeof_T n = do { b \<leftarrow> fix_bucket_size sizeof_T n; Some (lru_new n b) }"

lemma lru_static_ok:
  assumes "0 < n"
  shows "\<exists>s :: 'a mem_lru. lru_static sz n = Some s \<and> lru_ok triv hT key s \<and> lru_items s = [] \<and> lru_max s = n"
proof -
  obtain b where b: "0 < b" "fix_bucket_size sz n = Some b" using fix_bucket_size_bounds [OF assms] by blast
  let ?b = "ms_new n b :: 'a mem_set"
  have "ms_ok triv hT key ?b" "ms_used ?b = 0" "ms_max ?b = n"
    by (simp_all add: ms_new_ok [OF b(1)]) (simp add: ms_new_def)
  with lru_blank_ok [of triv hT key ?b] assms b show ?thesis
    by (auto simp: lru_static_def lru_new_def lru_max_def)
qed

text \<open>The shared-memory layer: a block created with its needed size holds an empty container.\<close>

lemma lru_create_ok:
  assumes "0 < n" "0 < b" "m = lru_need_mem_size sz n b" "16 \<le> m"
  shows "\<exists>blk. lru_init z sz (Some h) m n b False = (True, Some blk)
    \<and> lru_ok True hT key \<lparr>lru_link = lb_link blk, lru_base = mb_set (lb_base blk)\<rparr>
    \<and> lru_items \<lparr>lru_link = lb_link blk, lru_base = mb_set (lb_base blk)\<rparr> = []
    \<and> lru_init z sz (Some blk) m n b True = (True, Some blk)"
proof -
  let ?z = "ms_zeroed z n b"
  have "ms_ok True hT key ?z" "ms_max ?z = n" by (rule ms_zeroed_ok [OF assms(2)])+
  moreover have "ms_used ?z = 0" by (simp add: ms_zeroed_def)
  ultimately show ?thesis using lru_blank_ok [of True hT key ?z] assms
    by (auto simp: lru_init_def ms_init_def)
qed

text \<open>\<^verbatim>\<open>MemLRUMap\<close>; \<^verbatim>\<open>MemLRUSet\<close> is the interpretation \<open>mset\<close> of the same contract.\<close>

definition lm_insert :: "bool \<Rightarrow> ('k \<Rightarrow> nat) \<Rightarrow> 'k \<Rightarrow> 'v \<Rightarrow> bool \<Rightarrow> (('k, 'v) kv \<Rightarrow> bool \<times> ('k, 'v) kv) option \<Rightarrow>
    ('k, 'v) kv mem_lru \<Rightarrow> ((nat \<times> bool) \<times> ('k, 'v) kv mem_lru) option" where
  "lm_insert triv hash k v force cb s =
     lru_insert triv (pair_hash hash) pair_eq force cb \<lparr>kv_first = k, kv_second = v\<rparr> s"

definition lm_find :: "('k \<Rightarrow> nat) \<Rightarrow> 'k \<Rightarrow> ('k, 'v) kv mem_lru \<Rightarrow> nat option" where
  "lm_find hash k s = lru_find hash pair_eq_key k s"

definition lm_erase :: "bool \<Rightarrow> ('k \<Rightarrow> nat) \<Rightarrow> 'k \<Rightarrow> ('k, 'v) kv mem_lru \<Rightarrow> (nat \<times> ('k, 'v) kv mem_lru) option" where
  "lm_erase triv hash k s = lru_erase triv hash pair_eq_key k s"

definition lm_active :: "('k \<Rightarrow> nat) \<Rightarrow> 'k \<Rightarrow> ('k, 'v) kv mem_lru \<Rightarrow> (nat \<times> ('k, 'v) kv mem_lru) option" where
  "lm_active hash k s = lru_active hash pair_eq_key k s"

definition lm_step :: "bool \<Rightarrow> ('k \<Rightarrow> nat) \<Rightarrow> ('k, ('k, 'v) kv) lru_op \<Rightarrow> ('k, 'v) kv mem_lru \<Rightarrow>
    (nat \<times> ('k, 'v) kv mem_lru) option" where
  "lm_step triv hash = lru_step triv (pair_hash hash) pair_eq hash pair_eq_key"

abbreviation lm_ok :: "bool \<Rightarrow> ('k \<Rightarrow> nat) \<Rightarrow> ('k, 'v) kv mem_lru \<Rightarrow> bool" where
  "lm_ok triv hash \<equiv> lru_ok triv (pair_hash hash) kv_first"

section \<open>Properties\<close>

text \<open>C2. Any sequence of inserts (forced or not, with or without a disuse callback that keeps
  keys), erasures, activations and disuses on a new \<^verbatim>\<open>MemLRUMap\<close> runs without aborting, answers
  and ends exactly as the specification on a list kept most recent first: an insert into a full
  map evicts the last element if it is forced and the callback agrees, \<^verbatim>\<open>active\<close> moves the
  element to the front, \<^verbatim>\<open>disuse\<close> takes elements from the back until the callback refuses.\<close>

theorem lru_run_is_list:
  assumes "0 < n" "list_all (lru_op_ok kv_first) ps"
  shows "\<exists>s t. lru_static sz n = Some s
    \<and> lru_run (lm_step triv hash) ps s = Some (fst (lru_spec_run (lru_spec kv_first n) ps []), t)
    \<and> lru_items t = snd (lru_spec_run (lru_spec kv_first n) ps [])
    \<and> lru_size t = length (lru_items t) \<and> length (lru_items t) \<le> n \<and> lm_ok triv hash t"
proof -
  from lru_static_ok [OF assms(1), of sz triv "pair_hash hash" kv_first] obtain s :: "('a, 'b) kv mem_lru" where
    s: "lru_static sz n = Some s" "lm_ok triv hash s" "lru_items s = []" "lru_max s = n" by auto
  from mmap.lru_run_refines [OF s(2) assms(2)] obtain t where
    t: "lru_run (lm_step triv hash) ps s = Some (fst (lru_spec_run (lru_spec kv_first n) ps []), t)"
    "lm_ok triv hash t" "lru_max t = n" "lru_items t = snd (lru_spec_run (lru_spec kv_first n) ps [])"
    unfolding lm_step_def s(3,4) by blast
  have "lru_size t = length (lru_items t)" "length (lru_items t) \<le> n"
    using mmap.lru_used_items [OF t(2)] mmap.lru_bounded [OF t(2)] t(3) by (simp_all add: lru_size_def ms_size_def)
  with s t show ?thesis by blast
qed

abbreviation lm_entry :: "nat \<Rightarrow> char \<Rightarrow> (nat, char) kv" where
  "lm_entry k v \<equiv> \<lparr>kv_first = k, kv_second = v\<rparr>"

definition lm_demo_ops :: "(nat, (nat, char) kv) lru_op list" where
  "lm_demo_ops = [LInsert (lm_entry 3 CHR ''a'') False None, LInsert (lm_entry 5 CHR ''b'') False None,
     LActive 3, LInsert (lm_entry 7 CHR ''c'') True None]"

theorem lru_run_is_list_witness:
  "\<exists>s t. lru_static 8 2 = Some s \<and> lru_run (lm_step False (\<lambda>k. k)) lm_demo_ops s = Some ([1, 1, 1, 1], t)
    \<and> lru_items t = [lm_entry 7 CHR ''c'', lm_entry 3 CHR ''a'']"
proof -
  have "lru_spec_run (lru_spec kv_first 2) lm_demo_ops []
      = ([1, 1, 1, 1], [lm_entry 7 CHR ''c'', lm_entry 3 CHR ''a''])" by code_simp
  moreover have "list_all (lru_op_ok kv_first) lm_demo_ops" by (simp add: lm_demo_ops_def lru_keeps_key_def)
  ultimately show ?thesis using lru_run_is_list [of 2 lm_demo_ops 8 False "\<lambda>k. k"] by auto
qed

text \<open>A forced insert of an absent key into a full map without callback succeeds, evicts the
  least recently used entry and no other, and puts the new entry first; afterwards \<^verbatim>\<open>find\<close>
  returns the iterator that the insert returned, and \<^verbatim>\<open>end()\<close> for the evicted key.\<close>

lemma lru_forced_insert_evicts_last:
  assumes "lm_ok triv hash s" "length (lru_items s) = lru_max s" "k \<notin> kv_first ` set (lru_items s)"
  shows "\<exists>i t. lm_insert triv hash k v True None s = Some ((i, True), t) \<and> lm_ok triv hash t
    \<and> lru_items t = \<lparr>kv_first = k, kv_second = v\<rparr> # butlast (lru_items s)
    \<and> lm_find hash k t = Some i \<and> i \<noteq> 0 \<and> lm_find hash (kv_first (last (lru_items s))) t = Some 0"
proof -
  let ?e = "\<lparr>kv_first = k, kv_second = v\<rparr>"
  have "lru_keeps_key kv_first None" by (simp add: lru_keeps_key_def)
  from mmap.lru_insert_refines [OF assms(1) this, of True ?e] obtain i t where
    t: "lru_insert triv (pair_hash hash) pair_eq True None ?e s
      = Some ((i, fst (lru_insert_spec kv_first (lru_max s) True None ?e (lru_items s))), t)"
    "lm_ok triv hash t" "mmap.lands t ?e i"
    "lru_items t = snd (lru_insert_spec kv_first (lru_max s) True None ?e (lru_items s))" by blast
  have ne: "lru_items s \<noteq> []" using assms(2) lru_okD(5) [OF assms(1)] by auto
  then have sp: "lru_insert_spec kv_first (lru_max s) True None ?e (lru_items s) = (True, ?e # butlast (lru_items s))"
    using assms(2,3) by (simp add: lru_insert_spec_def)
  have f: "lm_find hash k' t = Some (case ms_lookup kv_first (lru_base t) k' of None \<Rightarrow> 0 | Some (i, _) \<Rightarrow> i)" for k'
    using mmap.lruk.find_lookup [OF t(2)] by (simp add: lm_find_def)
  have "lm_find hash k t = Some i" using f [of k] t(3) by (simp add: mmap.lands_def)
  moreover have "i \<noteq> 0"
    using t(3,4) sp mmap.lru_lookup_items(1) [OF t(2), of k] mmap.lruk.lookup_key [OF t(2), of k]
    by (auto simp: mmap.lands_def split: option.splits)
  moreover have "kv_first (last (lru_items s)) \<notin> kv_first ` set (lru_items t)"
  proof -
    obtain ys y where y: "lru_items s = ys @ [y]" using ne by (cases "lru_items s" rule: rev_cases) auto
    then have "kv_first y \<notin> kv_first ` set ys" using mmap.lru_items_distinct [OF assms(1)] by simp
    then show ?thesis using y t(4) sp assms(3) by auto
  qed
  then have "ms_lookup kv_first (lru_base t) (kv_first (last (lru_items s))) = None"
    by (simp only: mmap.lru_lookup_items(1) [OF t(2)] not_False_eq_True)
  then have "lm_find hash (kv_first (last (lru_items s))) t = Some 0" by (simp add: f)
  ultimately show ?thesis using t sp by (auto simp: lm_insert_def)
qed

definition lm_demo :: "(nat, char) kv mem_lru" where
  "lm_demo = snd (the (lru_run (lm_step False (\<lambda>k. k)) lm_demo_ops (lru_new 2 1)))"

lemma lm_demo_ok: "lm_ok False (\<lambda>k. k) lm_demo"
  and lm_demo_items: "lru_items lm_demo = [lm_entry 7 CHR ''c'', lm_entry 3 CHR ''a'']"
proof -
  let ?b = "ms_new 2 1 :: (nat, char) kv mem_set"
  have b: "mm_ok False (\<lambda>k. k) ?b" "ms_max ?b = 2" "ms_used ?b = 0"
    by (simp_all add: ms_new_ok) (simp add: ms_new_def)
  then have "lm_ok False (\<lambda>k. k) (lru_new 2 1 :: (nat, char) kv mem_lru)"
    using lru_blank_ok(1) [of False "pair_hash (\<lambda>k. k)" kv_first ?b] by (simp add: lru_new_def)
  moreover have "list_all (lru_op_ok kv_first) lm_demo_ops" by (simp add: lm_demo_ops_def lru_keeps_key_def)
  ultimately show "lm_ok False (\<lambda>k. k) lm_demo"
    using mmap.lru_run_refines [of False "\<lambda>k. k" "lru_new 2 1" lm_demo_ops] by (auto simp: lm_demo_def lm_step_def)
  show "lru_items lm_demo = [lm_entry 7 CHR ''c'', lm_entry 3 CHR ''a'']" by code_simp
qed

lemma lru_forced_insert_evicts_last_example:
  "\<exists>i t. lm_insert False (\<lambda>k. k) 9 CHR ''d'' True None lm_demo = Some ((i, True), t)
    \<and> lru_items t = [lm_entry 9 CHR ''d'', lm_entry 7 CHR ''c''] \<and> lm_find (\<lambda>k. k) 3 t = Some 0"
proof -
  have "lru_max lm_demo = 2" by code_simp
  with lru_forced_insert_evicts_last [OF lm_demo_ok, of 9 "CHR ''d''"] show ?thesis
    by (auto simp: lm_demo_items)
qed

text \<open>Iterating from \<^verbatim>\<open>begin()\<close> visits the entries from the most to the least recently used
  and then reaches \<^verbatim>\<open>end()\<close>; iterating from \<^verbatim>\<open>end()\<close> backwards visits them in reverse.\<close>

lemma lru_iteration:
  assumes "lru_ok triv hT key s"
  shows "map (ms_deref (lru_base s)) (walk (lru_iter_next s) (lru_begin s) (lru_size s)) = map Some (lru_items s)
    \<and> map (ms_deref (lru_base s)) (walk (lru_iter_prev s) (lru_iter_prev s 0) (lru_size s)) = map Some (rev (lru_items s))
    \<and> (lru_iter_next s ^^ Suc (lru_size s)) 0 = 0"
proof -
  note d = lru_okD [OF assms]
  have f: "lru_iter_next s = nx (lru_link s)" "lru_iter_prev s = pv (lru_link s)" "lru_begin s = nx (lru_link s) 0"
    by (simp_all add: fun_eq_iff lru_iter_next_def lru_iter_prev_def lru_begin_def)
  have u: "lru_size s = length (lru_order s)"
    using lru_rep_length [of triv hT key s "lru_order s"] assms by (simp add: lru_ok_def lru_size_def ms_size_def)
  have live: "map (ms_deref (lru_base s)) (lru_order s) = map Some (lru_items s)"
    using ms_keys_live [OF ms_okD(2) [OF d(1)]] d(3)
    by (fastforce simp: lru_items_def lru_vals_def ms_slots_def simp del: set_concat)
  have r: "map (ms_deref (lru_base s)) (rev (lru_order s)) = map Some (rev (lru_items s))"
    unfolding rev_map [symmetric] live ..
  have e: "(nx (lru_link s) ^^ Suc (length (lru_order s))) 0 = 0"
    using d(2) by (intro seg_end) (simp add: dll_def)
  show ?thesis unfolding f u dll_walk [OF d(2)] dll_walk_back [OF d(2)] using live r e by blast
qed

lemma lru_iteration_example:
  "map (ms_deref (lru_base lm_demo)) (walk (lru_iter_next lm_demo) (lru_begin lm_demo) (lru_size lm_demo))
    = [Some (lm_entry 7 CHR ''c''), Some (lm_entry 3 CHR ''a'')]"
  using lru_iteration [OF lm_demo_ok] by (simp add: lm_demo_items)

end
