(* ===== verification/Slots.thy ===== *)
theory Slots
  imports Links
begin

text \<open>
  The allocation of slots that \<^verbatim>\<open>BaseMemList\<close> and \<^verbatim>\<open>FixedMemPool\<close> share:
  slots 1, 2, ... are handed out in order until the first release, a released slot goes on
  the free chain, which is used before a fresh one.  The used slots are on the circular list
  of theory \<open>Links\<close>, so the used and the free slots partition the slots ever handed out.
\<close>

section \<open>The partition\<close>

text \<open>\<open>fh\<close> is the head of the free chain, \<open>raw\<close> the number of slots ever handed out.\<close>

definition slots :: "link list \<Rightarrow> nat \<Rightarrow> nat \<Rightarrow> nat list \<Rightarrow> nat list \<Rightarrow> bool" where
  "slots m fh raw xs fs \<longleftrightarrow> dll m xs \<and> chain (nx m) fh fs \<and> distinct (xs @ fs)
     \<and> set (xs @ fs) = {1..raw} \<and> raw < length m"

text \<open>The state between the allocation of a slot and its insertion into the list.\<close>

definition spare :: "link list \<Rightarrow> nat \<Rightarrow> nat \<Rightarrow> nat \<Rightarrow> nat list \<Rightarrow> nat list \<Rightarrow> bool" where
  "spare m i fh raw xs fs \<longleftrightarrow> dll m xs \<and> chain (nx m) fh fs \<and> distinct (i # xs @ fs)
     \<and> set (i # xs @ fs) = {1..raw} \<and> raw < length m"

lemma slots_dll: "slots m fh raw xs fs \<Longrightarrow> dll m xs"
  and slots_chain: "slots m fh raw xs fs \<Longrightarrow> chain (nx m) fh fs"
  and slots_distinct: "slots m fh raw xs fs \<Longrightarrow> distinct (xs @ fs)"
  and slots_set: "slots m fh raw xs fs \<Longrightarrow> set xs \<union> set fs = {1..raw}"
  and slots_raw: "slots m fh raw xs fs \<Longrightarrow> raw < length m"
  by (auto simp: slots_def)

lemma slots_length: "slots m fh raw xs fs \<Longrightarrow> length xs + length fs = raw"
  using card_interval_length [of "xs @ fs" raw] by (auto simp: slots_def)

lemma slots_empty: "0 < length m \<Longrightarrow> slots (m[0 := link0]) 0 0 [] []"
  by (auto simp: slots_def dll_Nil link_simps)

lemma slots_used_bounds:
  assumes "slots m fh raw xs fs" "x \<in> set xs"
  shows "0 < x \<and> x \<le> raw \<and> x < length m"
proof -
  have "x \<in> {1..raw}" using slots_set [OF assms(1)] assms(2) by blast
  then show ?thesis using slots_raw [OF assms(1)] by simp
qed

lemma spare_bounds:
  assumes "spare m i fh raw xs fs"
  shows "i \<notin> set xs \<and> i \<notin> set fs \<and> i \<noteq> 0 \<and> i \<le> raw \<and> i < length m"
proof -
  have "i \<in> {1..raw}" using assms by (auto simp: spare_def)
  then show ?thesis using assms by (auto simp: spare_def)
qed

section \<open>Allocation\<close>

lemma slots_take_raw:
  assumes "slots m fh raw xs fs" "fh = 0" "raw + 1 < length m"
  shows "fs = []" "spare m (raw + 1) fh (raw + 1) xs []"
proof -
  show f: "fs = []" using chain_start_0 [OF slots_chain [OF assms(1)]] assms(2) by simp
  with assms show "spare m (raw + 1) fh (raw + 1) xs []"
    by (auto simp: slots_def spare_def)
qed

lemma slots_take_free:
  assumes "slots m fh raw xs fs" "fh \<noteq> 0"
  shows "fs = fh # tl fs" "spare m fh (nx m fh) raw xs (tl fs)"
proof -
  obtain ys where "fs = fh # ys" "chain (nx m) (nx m fh) ys"
    using chain_nonempty [OF slots_chain [OF assms(1)] assms(2)] by blast
  with assms(1) show "fs = fh # tl fs" "spare m fh (nx m fh) raw xs (tl fs)"
    by (auto simp: slots_def spare_def)
qed

text \<open>A fresh list of moves keeps the free chain when it writes only the header and list slots.\<close>

lemma chain_upd_list:
  assumes "chain f h fs" "set fs \<inter> insert 0 (set xs) = {}" "u \<in> insert 0 (set xs)"
  shows "chain (f(u := v)) h fs"
  using assms by (subst chain_upd_notin) auto

lemma spare_front:
  assumes "spare m i fh raw xs fs"
  shows "slots (link_front m i) fh raw (i # xs) fs"
proof -
  note s = assms [unfolded spare_def]
  note b = spare_bounds [OF assms]
  have d: "dll m xs" using s by blast
  have h: "nx m 0 = hd (xs @ [0])" by (rule dll_first [OF d])
  have r: "0 < length m" "nx m 0 < length m"
    using dll_length_pos [OF d] dll_ends_in_range [of m "[]" xs] d h by auto
  have "0 \<notin> set fs" using s chain_0_notin by blast
  then have "chain (nx (link_front m i)) fh fs"
    using link_front_maps(1) [OF r, of i] b s by simp
  then show ?thesis using dll_link_front [OF d, of i] b s by (auto simp: slots_def)
qed

text \<open>
  \<^verbatim>\<open>m_link[head.prev].next = i; m_link[i].prev = head.prev; m_link[i].next = 0; head.prev = i;\<close>
\<close>

definition link_back :: "link list \<Rightarrow> nat \<Rightarrow> link list" where
  "link_back m i =
     (let m = set_next m (pv m 0) i;
          m = set_prev m i (pv m 0);
          m = set_next m i 0
      in set_prev m 0 i)"

lemma length_link_back [simp]: "length (link_back m i) = length m"
  by (simp add: link_back_def Let_def)

lemma link_back_maps:
  assumes "0 < length m" "pv m 0 < length m" "i < length m" "i \<noteq> 0"
  shows "nx (link_back m i) = (nx m)(pv m 0 := i, i := 0)"
    and "pv (link_back m i) = (pv m)(0 := i, i := pv m 0)"
  using assms by (auto simp: link_back_def Let_def link_simps fun_eq_iff)

lemma spare_back:
  assumes "spare m i fh raw xs fs"
  shows "slots (link_back m i) fh raw (xs @ [i]) fs"
proof -
  note s = assms [unfolded spare_def]
  note b = spare_bounds [OF assms]
  have d: "dll m xs" using s by blast
  have h: "pv m 0 = last (0 # xs)" by (rule dll_last [OF d])
  have r: "0 < length m" "pv m 0 < length m"
    using dll_length_pos [OF d] dll_ends_in_range [of m xs "[]"] d h by auto
  note maps = link_back_maps [OF r, of i]
  have "dll (link_back m i) (xs @ [i])"
    using dll_insert [of m xs "[]" i "link_back m i"] d b maps h by simp
  moreover have "pv m 0 \<in> insert 0 (set xs)"
    using h last_in_set [of "0 # xs"] by simp
  then have "chain (nx (link_back m i)) fh fs"
    using maps b s chain_0_notin [of "nx m" fh fs] by (auto simp: chain_upd_notin disjoint_iff)
  ultimately show ?thesis using b s by (auto simp: slots_def)
qed

section \<open>Release\<close>

lemma slots_release:
  assumes "slots m fh raw (ys @ x # zs) fs" and len: "length m' = length m"
    and n: "\<And>j. j \<noteq> x \<Longrightarrow> nx m' j = ((nx m)(last (0 # ys) := hd (zs @ [0]))) j"
    and p: "\<And>j. j \<noteq> x \<Longrightarrow> pv m' j = ((pv m)(hd (zs @ [0]) := last (0 # ys))) j"
    and x: "nx m' x = fh"
  shows "slots m' x raw (ys @ zs) (x # fs)"
proof -
  note s = assms(1) [unfolded slots_def]
  have d: "dll m' (ys @ zs)" using s n p by (intro dll_remove [OF _ len]) auto
  have "last (0 # ys) \<in> insert 0 (set ys)" using last_in_set [of "0 # ys"] by simp
  moreover have "0 \<notin> set fs" using s chain_0_notin by blast
  ultimately have "last (0 # ys) \<notin> set fs" "x \<notin> set fs" using s by auto
  then have "chain (nx m') fh fs = chain (nx m) fh fs"
    by (intro chain_cong) (use n in fastforce)
  moreover have "x \<noteq> 0" using s by (auto simp: dll_def)
  ultimately show ?thesis using d s x len by (auto simp: slots_def)
qed

lemma slots_ends_in_range:
  "slots m fh raw (ys @ zs) fs \<Longrightarrow> last (0 # ys) < length m \<and> hd (zs @ [0]) < length m"
  by (rule dll_ends_in_range) (rule slots_dll)

end
