(* ===== verification/MemList.thy ===== *)
theory MemList
  imports Slots Interfaces
begin

text \<open>
  \<^verbatim>\<open>src/containers/inner/base_mem_list.h\<close> (exposed by \<^verbatim>\<open>src/containers/mem_list.h\<close>):
  the bidirectional list in a block of memory without pointers.  Slot 0 of the link array is
  the header, slot \<open>i\<close> holds the value \<open>i - 1\<close>.  A value cell is \<^term>\<open>None\<close> while no object
  lives in it.  \<open>triv\<close> is \<^verbatim>\<open>std::is_trivially_copyable_v<T>\<close>, which selects the
  branches of the \<^verbatim>\<open>if constexpr\<close>; destroying an object that does not live is undefined
  behaviour in the code and an aborted run here.  An iterator is its index; index 0 is
  \<^verbatim>\<open>end()\<close>.
\<close>

section \<open>State and operations\<close>

record 'a mem_list =
  ml_used :: nat
  ml_free_index :: nat
  ml_raw_used :: nat
  ml_link :: "link list"
  ml_value :: "'a option list"

text \<open>\<^verbatim>\<open>MAX_SIZE\<close> is the number of value cells; there is one link more.\<close>

definition ml_max :: "'a mem_list \<Rightarrow> nat" where
  "ml_max s = length (ml_value s)"

definition ml_new :: "nat \<Rightarrow> 'a mem_list" where
  "ml_new n = \<lparr>ml_used = 0, ml_free_index = 0, ml_raw_used = 0,
     ml_link = replicate (n + 1) link0, ml_value = replicate n None\<rparr>"

definition ml_empty :: "'a mem_list \<Rightarrow> bool" where
  "ml_empty s \<longleftrightarrow> ml_used s = 0"

definition ml_full :: "'a mem_list \<Rightarrow> bool" where
  "ml_full s \<longleftrightarrow> ml_max s \<le> ml_used s"

definition ml_size :: "'a mem_list \<Rightarrow> nat" where
  "ml_size s = ml_used s"

definition ml_alloc_index :: "'a mem_list \<Rightarrow> (nat \<times> 'a mem_list) option" where
  "ml_alloc_index s =
     do { (i, s) \<leftarrow>
            (if ml_free_index s = 0 then
               do { cassert (ml_raw_used s < ml_max s);
                    Some (ml_raw_used s + 1, s\<lparr>ml_raw_used := ml_raw_used s + 1\<rparr>) }
             else Some (ml_free_index s, s\<lparr>ml_free_index := nx (ml_link s) (ml_free_index s)\<rparr>));
          cassert (i > 0);
          Some (i, s) }"

text \<open>\<^verbatim>\<open>copy_one\<close>: assignment and placement new both leave the value in the cell.\<close>

definition ml_copy_one :: "nat \<Rightarrow> 'a \<Rightarrow> 'a mem_list \<Rightarrow> 'a mem_list" where
  "ml_copy_one i v s = s\<lparr>ml_value := (ml_value s)[i - 1 := Some v]\<rparr>"

definition ml_destruct_one :: "bool \<Rightarrow> nat \<Rightarrow> 'a mem_list \<Rightarrow> 'a mem_list option" where
  "ml_destruct_one triv i s =
     (if triv then Some s
      else do { cassert (0 < i \<and> i \<le> ml_max s \<and> ml_value s ! (i - 1) \<noteq> None);
                Some (s\<lparr>ml_value := (ml_value s)[i - 1 := None]\<rparr>) })"

text \<open>\<^verbatim>\<open>while (beg != end()) { beg->~T(); ++beg; }\<close>\<close>

partial_function (option) destruct_loop ::
  "(nat \<Rightarrow> nat) \<Rightarrow> nat \<Rightarrow> 'a option list \<Rightarrow> 'a option list option" where
  "destruct_loop f i vs =
     (if i = 0 then Some vs
      else do { cassert (i \<le> length vs \<and> vs ! (i - 1) \<noteq> None);
                destruct_loop f (f i) (vs[i - 1 := None]) })"

declare destruct_loop.simps [code]

definition ml_destruct_all :: "bool \<Rightarrow> 'a mem_list \<Rightarrow> 'a mem_list option" where
  "ml_destruct_all triv s =
     (if triv then Some s
      else do { vs \<leftarrow> destruct_loop (nx (ml_link s)) (nx (ml_link s) 0) (ml_value s);
                Some (s\<lparr>ml_value := vs\<rparr>) })"

definition ml_clear :: "bool \<Rightarrow> 'a mem_list \<Rightarrow> 'a mem_list option" where
  "ml_clear triv s =
     do { s \<leftarrow> ml_destruct_all triv s;
          Some (s\<lparr>ml_used := 0, ml_link := (ml_link s)[0 := link0], ml_free_index := 0,
                  ml_raw_used := 0\<rparr>) }"

definition ml_push_front :: "'a \<Rightarrow> 'a mem_list \<Rightarrow> (nat \<times> 'a mem_list) option" where
  "ml_push_front v s =
     (if ml_full s then Some (0, s)
      else do { (i, s) \<leftarrow> ml_alloc_index s;
                let s = ml_copy_one i v s;
                Some (i, s\<lparr>ml_link := link_front (ml_link s) i, ml_used := ml_used s + 1\<rparr>) })"

definition ml_push_back :: "'a \<Rightarrow> 'a mem_list \<Rightarrow> (nat \<times> 'a mem_list) option" where
  "ml_push_back v s =
     (if ml_full s then Some (0, s)
      else do { (i, s) \<leftarrow> ml_alloc_index s;
                let s = ml_copy_one i v s;
                Some (i, s\<lparr>ml_link := link_back (ml_link s) i, ml_used := ml_used s + 1\<rparr>) })"

definition ml_pop_front :: "bool \<Rightarrow> 'a mem_list \<Rightarrow> 'a mem_list option" where
  "ml_pop_front triv s =
     (if ml_empty s then Some s
      else
        let m = ml_link s;
            d = nx m 0;
            m = set_next m 0 (nx m d);
            m = set_prev m (nx m d) 0;
            m = set_next m d (ml_free_index s)
        in do { s \<leftarrow> ml_destruct_one triv d (s\<lparr>ml_link := m, ml_free_index := d\<rparr>);
                cassert (ml_used s > 0);
                Some (s\<lparr>ml_used := ml_used s - 1\<rparr>) })"

definition ml_pop_back :: "bool \<Rightarrow> 'a mem_list \<Rightarrow> 'a mem_list option" where
  "ml_pop_back triv s =
     (if ml_empty s then Some s
      else
        let m = ml_link s;
            d = pv m 0;
            m = set_prev m 0 (pv m d);
            m = set_next m (pv m d) 0;
            m = set_next m d (ml_free_index s)
        in do { s \<leftarrow> ml_destruct_one triv d (s\<lparr>ml_link := m, ml_free_index := d\<rparr>);
                cassert (ml_used s > 0);
                Some (s\<lparr>ml_used := ml_used s - 1\<rparr>) })"

definition ml_erase :: "bool \<Rightarrow> nat \<Rightarrow> 'a mem_list \<Rightarrow> 'a mem_list option" where
  "ml_erase triv i s =
     do { cassert (ml_used s > 0);
          s \<leftarrow> ml_destruct_one triv i s;
          let m = unlink (ml_link s) i;
          let m = set_next m i (ml_free_index s);
          Some (s\<lparr>ml_link := m, ml_free_index := i, ml_used := ml_used s - 1\<rparr>) }"

definition ml_find_pos_if :: "('a \<Rightarrow> bool) \<Rightarrow> 'a mem_list \<Rightarrow> nat option" where
  "ml_find_pos_if p s =
     seek (nx (ml_link s)) (\<lambda>i. case ml_value s ! (i - 1) of None \<Rightarrow> False | Some x \<Rightarrow> p x)
       (nx (ml_link s) 0)"

definition ml_find_pos :: "'a \<Rightarrow> 'a mem_list \<Rightarrow> nat option" where
  "ml_find_pos v s = ml_find_pos_if (\<lambda>x. x = v) s"

definition ml_erase_value :: "bool \<Rightarrow> 'a \<Rightarrow> 'a mem_list \<Rightarrow> 'a mem_list option" where
  "ml_erase_value triv v s =
     do { i \<leftarrow> ml_find_pos v s; if i \<noteq> 0 then ml_erase triv i s else Some s }"

text \<open>\<^verbatim>\<open>get\<close> and the dereferenced iterator; \<^verbatim>\<open>begin()\<close>, \<^verbatim>\<open>++\<close> and \<^verbatim>\<open>--\<close>.\<close>

definition ml_get :: "nat \<Rightarrow> 'a mem_list \<Rightarrow> 'a option" where
  "ml_get i s = ml_value s ! (i - 1)"

definition ml_begin :: "'a mem_list \<Rightarrow> nat" where
  "ml_begin s = nx (ml_link s) 0"

definition ml_iter_next :: "'a mem_list \<Rightarrow> nat \<Rightarrow> nat" where
  "ml_iter_next s i = nx (ml_link s) i"

definition ml_iter_prev :: "'a mem_list \<Rightarrow> nat \<Rightarrow> nat" where
  "ml_iter_prev s i = pv (ml_link s) i"

section \<open>Abstraction and invariant\<close>

text \<open>The used slots in list order, the free slots in chain order, the nodes and the elements.\<close>

definition ml_order :: "'a mem_list \<Rightarrow> nat list" where
  "ml_order s = walk (nx (ml_link s)) (nx (ml_link s) 0) (ml_used s)"

definition ml_frees :: "'a mem_list \<Rightarrow> nat list" where
  "ml_frees s = walk (nx (ml_link s)) (ml_free_index s) (ml_raw_used s - ml_used s)"

definition ml_nodes :: "'a mem_list \<Rightarrow> (nat \<times> 'a) list" where
  "ml_nodes s = map (\<lambda>i. (i, the (ml_get i s))) (ml_order s)"

definition ml_items :: "'a mem_list \<Rightarrow> 'a list" where
  "ml_items s = map snd (ml_nodes s)"

text \<open>The slots in which an object lives.  Objects of a type that is not trivially copyable
  live in the used slots only.\<close>

definition ml_live :: "'a mem_list \<Rightarrow> nat set" where
  "ml_live s = {i. 0 < i \<and> i \<le> ml_max s \<and> ml_get i s \<noteq> None}"

definition ml_rep :: "bool \<Rightarrow> 'a mem_list \<Rightarrow> nat list \<Rightarrow> nat list \<Rightarrow> bool" where
  "ml_rep triv s xs fs \<longleftrightarrow> slots (ml_link s) (ml_free_index s) (ml_raw_used s) xs fs
     \<and> ml_used s = length xs \<and> length (ml_link s) = ml_max s + 1
     \<and> (\<forall>x \<in> set xs. ml_get x s \<noteq> None)
     \<and> (triv \<or> ml_live s = set xs)"

definition ml_ok :: "bool \<Rightarrow> 'a mem_list \<Rightarrow> bool" where
  "ml_ok triv s \<longleftrightarrow> ml_rep triv s (ml_order s) (ml_frees s)"

lemma ml_rep_order: "ml_rep triv s xs fs \<Longrightarrow> ml_order s = xs"
  and ml_rep_frees: "ml_rep triv s xs fs \<Longrightarrow> ml_frees s = fs"
proof -
  assume r: "ml_rep triv s xs fs"
  then show "ml_order s = xs" by (auto simp: ml_rep_def ml_order_def intro: dll_walk slots_dll)
  have "length fs = ml_raw_used s - ml_used s"
    using slots_length [of "ml_link s" "ml_free_index s" "ml_raw_used s" xs fs] r
    by (simp add: ml_rep_def)
  then show "ml_frees s = fs"
    using chain_walk [OF slots_chain, of "ml_link s" "ml_free_index s" "ml_raw_used s" xs fs] r
    by (simp add: ml_frees_def ml_rep_def)
qed

lemma ml_rep_ok: "ml_rep triv s xs fs \<Longrightarrow> ml_ok triv s"
  by (simp add: ml_ok_def ml_rep_order ml_rep_frees)

lemma ml_rep_nodes: "ml_rep triv s xs fs \<Longrightarrow> ml_nodes s = map (\<lambda>i. (i, the (ml_get i s))) xs"
  by (simp add: ml_nodes_def ml_rep_order)

lemma ml_ok_rep: "ml_ok triv s \<Longrightarrow> ml_rep triv s (ml_order s) (ml_frees s)"
  by (simp add: ml_ok_def)

lemma ml_order_nodes: "ml_order s = map fst (ml_nodes s)"
  by (simp add: ml_nodes_def comp_def)

lemma length_ml_items [simp]: "length (ml_items s) = length (ml_nodes s)"
  by (simp add: ml_items_def)

lemma ml_ok_used: "ml_ok triv s \<Longrightarrow> ml_used s = length (ml_nodes s)"
  by (simp add: ml_ok_def ml_rep_def ml_nodes_def)

lemma ml_rep_bounds:
  assumes "ml_rep triv s xs fs" "x \<in> set xs"
  shows "0 < x" "x \<le> ml_max s"
  using slots_used_bounds [of "ml_link s" "ml_free_index s" "ml_raw_used s" xs fs x] assms
  by (auto simp: ml_rep_def)

lemma ml_ok_bounded: "ml_ok triv s \<Longrightarrow> length (ml_nodes s) \<le> ml_max s"
proof -
  assume "ml_ok triv s"
  then have r: "ml_rep triv s (ml_order s) (ml_frees s)" by (rule ml_ok_rep)
  then have "length (ml_order s) \<le> ml_raw_used s" "ml_raw_used s < ml_max s + 1"
    using slots_length [of "ml_link s" _ _ "ml_order s"] slots_raw [of "ml_link s"]
    by (fastforce simp: ml_rep_def)+
  then show ?thesis by (simp add: ml_nodes_def)
qed

lemma ml_max_new [simp]: "ml_max (ml_new n) = n"
  by (simp add: ml_max_def ml_new_def)

lemma ml_new_ok: "ml_ok triv (ml_new n :: 'a mem_list)"
  and ml_new_nodes: "ml_nodes (ml_new n :: 'a mem_list) = []"
proof -
  have "replicate (n + 1) link0 = (replicate (n + 1) link0)[0 := link0]" by simp
  then have "slots (replicate (n + 1) link0) 0 0 [] []"
    using slots_empty [of "replicate (n + 1) link0"] by simp
  moreover have "i \<notin> ml_live (ml_new n :: 'a mem_list)" for i
    by (cases "0 < i \<and> i \<le> n") (auto simp: ml_live_def ml_get_def ml_new_def ml_max_def)
  then have "ml_live (ml_new n :: 'a mem_list) = {}" by blast
  ultimately have "ml_rep triv (ml_new n :: 'a mem_list) [] []" by (simp add: ml_rep_def ml_new_def ml_max_def)
  from ml_rep_ok [OF this] ml_rep_nodes [OF this]
  show "ml_ok triv (ml_new n :: 'a mem_list)" "ml_nodes (ml_new n :: 'a mem_list) = []" by simp_all
qed

section \<open>Each operation on the representation\<close>

lemma ml_alloc_rep:
  assumes "ml_rep triv s xs fs" "\<not> ml_full s"
  shows "\<exists>i fh raw fs'. ml_alloc_index s = Some (i, s\<lparr>ml_free_index := fh, ml_raw_used := raw\<rparr>)
    \<and> spare (ml_link s) i fh raw xs fs'"
proof -
  have sl: "slots (ml_link s) (ml_free_index s) (ml_raw_used s) xs fs"
    using assms by (simp add: ml_rep_def)
  show ?thesis
  proof (cases "ml_free_index s = 0")
    case True
    have "fs = []" using chain_start_0 [OF slots_chain [OF sl]] True by simp
    then have "ml_raw_used s < ml_max s"
      using slots_length [OF sl] assms by (simp add: ml_rep_def ml_full_def)
    moreover from this have "spare (ml_link s) (ml_raw_used s + 1) (ml_free_index s) (ml_raw_used s + 1) xs []"
      using slots_take_raw(2) [OF sl True] assms by (simp add: ml_rep_def)
    ultimately show ?thesis using True
      by (intro exI [of _ "ml_raw_used s + 1"] exI [of _ "ml_free_index s"] exI [of _ "[]"])
        (simp add: ml_alloc_index_def)
  next
    case False
    with slots_take_free(2) [OF sl False] show ?thesis
      by (intro exI [of _ "ml_free_index s"] exI [of _ "nx (ml_link s) (ml_free_index s)"]
          exI [of _ "ml_raw_used s"] exI [of _ "tl fs"]) (simp add: ml_alloc_index_def)
  qed
qed

lemma ml_get_copy_one:
  "0 < i \<Longrightarrow> i \<le> ml_max s \<Longrightarrow> 0 < j \<Longrightarrow>
   ml_get j (ml_copy_one i v s) = (if j = i then Some v else ml_get j s)"
  by (auto simp: ml_get_def ml_copy_one_def ml_max_def nth_list_update)

text \<open>Both pushes: the new slot takes the value, every other node keeps its own.\<close>

lemma ml_push_rep:
  assumes r: "ml_rep triv s xs fs" and sp: "spare (ml_link s) i fh raw xs fs'"
    and sl: "slots m fh raw ys fs'" and len: "length m = length (ml_link s)"
    and ys: "set ys = insert i (set xs)" "length ys = Suc (length xs)"
    and t: "t = (ml_copy_one i v (s\<lparr>ml_free_index := fh, ml_raw_used := raw\<rparr>))
              \<lparr>ml_link := m, ml_used := ml_used s + 1\<rparr>"
  shows "ml_rep triv t ys fs' \<and> ml_max t = ml_max s
    \<and> (\<forall>j \<in> set ys. ml_get j t = (if j = i then Some v else ml_get j s))"
proof -
  have i: "0 < i" "i \<le> ml_max s" "i \<notin> set xs"
    using spare_bounds [OF sp] r by (auto simp: ml_rep_def)
  have g: "ml_get j t = (if j = i then Some v else ml_get j s)" if "0 < j" for j
    using ml_get_copy_one [of i "s\<lparr>ml_free_index := fh, ml_raw_used := raw\<rparr>" j v] i that
    by (simp add: t ml_get_def ml_copy_one_def ml_max_def)
  have p: "0 < j" if "j \<in> set ys" for j using slots_used_bounds [OF sl that] by simp
  have mx: "ml_max t = ml_max s" by (simp add: t ml_max_def ml_copy_one_def)
  then have "ml_live t = insert i (ml_live s)" using g i by (auto simp: ml_live_def)
  moreover note mx
  moreover have "ml_rep triv t ys fs'"
    using r sl len ys i p g calculation by (auto simp: ml_rep_def t ml_copy_one_def)
  ultimately show ?thesis using g p by blast
qed

lemma ml_push_front_step:
  assumes "ml_ok triv s" "\<not> ml_full s"
  shows "\<exists>i t. ml_push_front v s = Some (i, t) \<and> ml_ok triv t \<and> i \<noteq> 0 \<and> ml_max t = ml_max s
    \<and> ml_nodes t = (i, v) # ml_nodes s"
proof -
  note r = ml_ok_rep [OF assms(1)]
  obtain i fh raw fs' where a: "ml_alloc_index s = Some (i, s\<lparr>ml_free_index := fh, ml_raw_used := raw\<rparr>)"
    and sp: "spare (ml_link s) i fh raw (ml_order s) fs'" using ml_alloc_rep [OF r assms(2)] by blast
  define t where "t = (ml_copy_one i v (s\<lparr>ml_free_index := fh, ml_raw_used := raw\<rparr>))
              \<lparr>ml_link := link_front (ml_link s) i, ml_used := ml_used s + 1\<rparr>"
  have "ml_push_front v s = Some (i, t)" using assms(2) a by (simp add: ml_push_front_def ml_copy_one_def t_def)
  moreover have t: "ml_rep triv t (i # ml_order s) fs'" "ml_max t = ml_max s"
    "\<forall>j \<in> set (i # ml_order s). ml_get j t = (if j = i then Some v else ml_get j s)"
    using ml_push_rep [OF r sp spare_front [OF sp], of t v] t_def by auto
  moreover have "ml_nodes t = (i, v) # ml_nodes s"
    using t(3) spare_bounds [OF sp] by (auto simp: ml_rep_nodes [OF t(1)] ml_rep_nodes [OF r])
  ultimately show ?thesis using spare_bounds [OF sp] ml_rep_ok [OF t(1)] by blast
qed

lemma ml_push_back_step:
  assumes "ml_ok triv s" "\<not> ml_full s"
  shows "\<exists>i t. ml_push_back v s = Some (i, t) \<and> ml_ok triv t \<and> i \<noteq> 0 \<and> ml_max t = ml_max s
    \<and> ml_nodes t = ml_nodes s @ [(i, v)]"
proof -
  note r = ml_ok_rep [OF assms(1)]
  obtain i fh raw fs' where a: "ml_alloc_index s = Some (i, s\<lparr>ml_free_index := fh, ml_raw_used := raw\<rparr>)"
    and sp: "spare (ml_link s) i fh raw (ml_order s) fs'" using ml_alloc_rep [OF r assms(2)] by blast
  define t where "t = (ml_copy_one i v (s\<lparr>ml_free_index := fh, ml_raw_used := raw\<rparr>))
              \<lparr>ml_link := link_back (ml_link s) i, ml_used := ml_used s + 1\<rparr>"
  have "ml_push_back v s = Some (i, t)" using assms(2) a by (simp add: ml_push_back_def ml_copy_one_def t_def)
  moreover have t: "ml_rep triv t (ml_order s @ [i]) fs'" "ml_max t = ml_max s"
    "\<forall>j \<in> set (ml_order s @ [i]). ml_get j t = (if j = i then Some v else ml_get j s)"
    using ml_push_rep [OF r sp spare_back [OF sp], of t v] t_def by auto
  moreover have "ml_nodes t = ml_nodes s @ [(i, v)]"
    using t(3) spare_bounds [OF sp] by (auto simp: ml_rep_nodes [OF t(1)] ml_rep_nodes [OF r])
  ultimately show ?thesis using spare_bounds [OF sp] ml_rep_ok [OF t(1)] by blast
qed

text \<open>The three releases: the slot leaves the list, goes on the free chain, and its object dies.\<close>

lemma ml_destruct_one_live:
  assumes "0 < i" "i \<le> ml_max s" "ml_get i s \<noteq> None"
  shows "ml_destruct_one triv i s =
    Some (s\<lparr>ml_value := (if triv then ml_value s else (ml_value s)[i - 1 := None])\<rparr>)"
  using assms by (auto simp: ml_destruct_one_def ml_get_def)

lemma ml_release_rep:
  assumes r: "ml_rep triv s (ys @ x # zs) fs"
    and m: "length m = length (ml_link s)"
      "\<And>j. j \<noteq> x \<Longrightarrow> nx m j = ((nx (ml_link s))(last (0 # ys) := hd (zs @ [0]))) j"
      "\<And>j. j \<noteq> x \<Longrightarrow> pv m j = ((pv (ml_link s))(hd (zs @ [0]) := last (0 # ys))) j"
      "nx m x = ml_free_index s"
    and t: "t = s\<lparr>ml_link := m, ml_free_index := x, ml_used := ml_used s - 1,
      ml_value := (if triv then ml_value s else (ml_value s)[x - 1 := None])\<rparr>"
  shows "ml_rep triv t (ys @ zs) (x # fs)" "ml_max t = ml_max s"
    "\<forall>j \<in> set (ys @ zs). ml_get j t = ml_get j s" "\<not> triv \<Longrightarrow> ml_get x t = None"
proof -
  have sl: "slots (ml_link s) (ml_free_index s) (ml_raw_used s) (ys @ x # zs) fs"
    using r by (simp add: ml_rep_def)
  have x: "0 < x" "x \<le> ml_max s" "x \<notin> set (ys @ zs)"
    using ml_rep_bounds [OF r, of x] slots_distinct [OF sl] by auto
  have g: "ml_get j t = ml_get j s" if "0 < j" "j \<noteq> x" for j
    using that x(1) by (simp add: t ml_get_def nth_list_update)
  have p: "0 < j" if "j \<in> set (ys @ zs)" for j using slots_used_bounds [OF sl, of j] that by auto
  show gs: "\<forall>j \<in> set (ys @ zs). ml_get j t = ml_get j s"
    by (metis g p x(3))
  show mx: "ml_max t = ml_max s" by (simp add: t ml_max_def)
  have sl': "slots m x (ml_raw_used s) (ys @ zs) (x # fs)" by (rule slots_release [OF sl m])
  show d: "\<not> triv \<Longrightarrow> ml_get x t = None" using x by (simp add: t ml_get_def ml_max_def)
  have "ml_get j t \<noteq> None \<longleftrightarrow> ml_get j s \<noteq> None \<and> j \<noteq> x" if "\<not> triv" "0 < j" for j
    using that d g [of j] by (cases "j = x") auto
  then have "\<not> triv \<Longrightarrow> ml_live t = ml_live s - {x}" using mx by (auto simp: ml_live_def)
  with sl' r m(1) gs mx x(3) show "ml_rep triv t (ys @ zs) (x # fs)" by (auto simp: ml_rep_def t)
qed

lemma ml_release_nodes:
  assumes "ml_rep triv s (ys @ x # zs) fs" "ml_rep triv t (ys @ zs) fs'"
    and "\<forall>j \<in> set (ys @ zs). ml_get j t = ml_get j s"
  shows "ml_nodes t = map (\<lambda>i. (i, the (ml_get i s))) (ys @ zs)"
  using assms(3) by (simp add: ml_rep_nodes [OF assms(2)])

lemma ml_pop_front_step:
  assumes "ml_ok triv s" "ml_nodes s \<noteq> []"
  shows "\<exists>t. ml_pop_front triv s = Some t \<and> ml_ok triv t \<and> ml_max t = ml_max s
    \<and> ml_nodes t = tl (ml_nodes s)"
proof -
  note r = ml_ok_rep [OF assms(1)]
  obtain d zs where o: "ml_order s = [] @ d # zs" using assms(2) by (cases "ml_order s") (auto simp: ml_nodes_def)
  note r = r [unfolded o]
  have sl: "slots (ml_link s) (ml_free_index s) (ml_raw_used s) ([] @ d # zs) (ml_frees s)"
    using r by (simp add: ml_rep_def)
  let ?m = "ml_link s"
  have h: "nx ?m 0 = d" "nx ?m d = hd (zs @ [0])"
    using dll_first [OF slots_dll [OF sl]] dll_nx [OF slots_dll [OF sl]] by auto
  have b: "0 < d" "d \<le> ml_max s" "ml_get d s \<noteq> None" "d < length ?m" "0 < length ?m"
    "hd (zs @ [0]) < length ?m" "0 < ml_used s"
    using ml_rep_bounds [OF r, of d] slots_used_bounds [OF sl, of d]
      slots_ends_in_range [of ?m _ _ "[d]" zs] sl r by (auto simp: ml_rep_def)
  define m where "m = set_next (set_prev (set_next ?m 0 (nx ?m d)) (nx ?m d) 0) d (ml_free_index s)"
  define t where "t = s\<lparr>ml_link := m, ml_free_index := d, ml_used := ml_used s - 1,
      ml_value := (if triv then ml_value s else (ml_value s)[d - 1 := None])\<rparr>"
  have n: "nx (set_next ?m 0 (nx ?m d)) d = nx ?m d" using b by (simp add: link_simps)
  have "ml_pop_front triv s = Some t"
    using b ml_destruct_one_live [of d "s\<lparr>ml_link := m, ml_free_index := d\<rparr>" triv] n h(1)
    by (simp add: ml_pop_front_def ml_empty_def Let_def m_def t_def ml_max_def ml_get_def link_simps)
  moreover have "length m = length ?m"
    "nx m = (nx ?m)(0 := hd (zs @ [0]), d := ml_free_index s)"
    "pv m = (pv ?m)(hd (zs @ [0]) := 0)"
    using b h by (simp_all add: m_def link_simps)
  then have rel: "ml_rep triv t ([] @ zs) (d # ml_frees s)" "ml_max t = ml_max s"
    "\<forall>j \<in> set ([] @ zs). ml_get j t = ml_get j s"
    using ml_release_rep [OF r, of m t] t_def by auto
  moreover have "ml_nodes t = tl (ml_nodes s)"
    using ml_release_nodes [OF r rel(1,3)] by (simp add: ml_nodes_def o)
  ultimately show ?thesis using ml_rep_ok [OF rel(1)] by blast
qed

lemma ml_pop_back_step:
  assumes "ml_ok triv s" "ml_nodes s \<noteq> []"
  shows "\<exists>t. ml_pop_back triv s = Some t \<and> ml_ok triv t \<and> ml_max t = ml_max s
    \<and> ml_nodes t = butlast (ml_nodes s)"
proof -
  note r = ml_ok_rep [OF assms(1)]
  obtain d ys where o: "ml_order s = ys @ d # []"
    using assms(2) by (cases "ml_order s" rule: rev_cases) (auto simp: ml_nodes_def)
  note r = r [unfolded o]
  have sl: "slots (ml_link s) (ml_free_index s) (ml_raw_used s) (ys @ d # []) (ml_frees s)"
    using r by (simp add: ml_rep_def)
  let ?m = "ml_link s"
  have h: "pv ?m 0 = d" "pv ?m d = last (0 # ys)"
    using dll_last [OF slots_dll [OF sl]] dll_pv [OF slots_dll [OF sl]] by auto
  have b: "0 < d" "d \<le> ml_max s" "ml_get d s \<noteq> None" "d < length ?m" "0 < length ?m"
    "last (0 # ys) < length ?m" "0 < ml_used s"
    using ml_rep_bounds [OF r, of d] slots_used_bounds [OF sl, of d]
      slots_ends_in_range [of ?m _ _ ys "[d]"] sl r by (auto simp: ml_rep_def)
  define m where "m = set_next (set_next (set_prev ?m 0 (pv ?m d)) (pv ?m d) 0) d (ml_free_index s)"
  define t where "t = s\<lparr>ml_link := m, ml_free_index := d, ml_used := ml_used s - 1,
      ml_value := (if triv then ml_value s else (ml_value s)[d - 1 := None])\<rparr>"
  have n: "pv (set_prev ?m 0 (pv ?m d)) d = pv ?m d" using b by (simp add: link_simps)
  have "ml_pop_back triv s = Some t"
    using b ml_destruct_one_live [of d "s\<lparr>ml_link := m, ml_free_index := d\<rparr>" triv] n h(1)
    by (simp add: ml_pop_back_def ml_empty_def Let_def m_def t_def ml_max_def ml_get_def link_simps)
  moreover have "length m = length ?m"
    "nx m = (nx ?m)(last (0 # ys) := 0, d := ml_free_index s)"
    "pv m = (pv ?m)(0 := last (0 # ys))"
    using b h by (simp_all add: m_def link_simps)
  then have rel: "ml_rep triv t (ys @ []) (d # ml_frees s)" "ml_max t = ml_max s"
    "\<forall>j \<in> set (ys @ []). ml_get j t = ml_get j s"
    using ml_release_rep [OF r, of m t] t_def by auto
  moreover have "ml_nodes t = butlast (ml_nodes s)"
    using ml_release_nodes [OF r rel(1,3)] by (simp add: ml_nodes_def o)
  ultimately show ?thesis using ml_rep_ok [OF rel(1)] by blast
qed

lemma ml_erase_step:
  assumes "ml_ok triv s" "i \<in> set (ml_order s)"
  shows "\<exists>t. ml_erase triv i s = Some t \<and> ml_ok triv t \<and> ml_max t = ml_max s
    \<and> ml_nodes t = filter (\<lambda>n. fst n \<noteq> i) (ml_nodes s) \<and> (triv \<or> ml_get i t = None)"
proof -
  note r = ml_ok_rep [OF assms(1)]
  obtain ys zs where o: "ml_order s = ys @ i # zs" using assms(2) by (meson split_list)
  note r = r [unfolded o]
  have sl: "slots (ml_link s) (ml_free_index s) (ml_raw_used s) (ys @ i # zs) (ml_frees s)"
    using r by (simp add: ml_rep_def)
  let ?m = "ml_link s"
  have h: "nx ?m i = hd (zs @ [0])" "pv ?m i = last (0 # ys)"
    using dll_nx [OF slots_dll [OF sl]] dll_pv [OF slots_dll [OF sl]] by auto
  have b: "0 < i" "i \<le> ml_max s" "ml_get i s \<noteq> None" "i < length ?m"
    "last (0 # ys) < length ?m" "hd (zs @ [0]) < length ?m" "0 < ml_used s"
    using ml_rep_bounds [OF r, of i] slots_used_bounds [OF sl, of i]
      slots_ends_in_range [of ?m _ _ ys "i # zs"] slots_ends_in_range [of ?m _ _ "ys @ [i]" zs] sl r
    by (auto simp: ml_rep_def)
  define m where "m = set_next (unlink ?m i) i (ml_free_index s)"
  define t where "t = s\<lparr>ml_link := m, ml_free_index := i, ml_used := ml_used s - 1,
      ml_value := (if triv then ml_value s else (ml_value s)[i - 1 := None])\<rparr>"
  have "ml_erase triv i s = Some t"
    using b ml_destruct_one_live [of i s triv] by (simp add: ml_erase_def Let_def m_def t_def)
  moreover have "length m = length ?m"
    "nx m = (nx ?m)(last (0 # ys) := hd (zs @ [0]), i := ml_free_index s)"
    "pv m = (pv ?m)(hd (zs @ [0]) := last (0 # ys))"
    using b h unlink_maps [of ?m i] by (simp_all add: m_def link_simps)
  then have rel: "ml_rep triv t (ys @ zs) (i # ml_frees s)" "ml_max t = ml_max s"
    "\<forall>j \<in> set (ys @ zs). ml_get j t = ml_get j s" "\<not> triv \<Longrightarrow> ml_get i t = None"
    using ml_release_rep [OF r, of m t] t_def by auto
  have "filter (\<lambda>x. x \<noteq> i) ys = ys" "filter (\<lambda>x. x \<noteq> i) zs = zs"
    using slots_distinct [OF sl] by (auto simp: filter_id_conv)
  then have "map (\<lambda>j. (j, the (ml_get j s))) (ys @ zs) = filter (\<lambda>n. fst n \<noteq> i) (ml_nodes s)"
    by (simp add: ml_nodes_def o filter_map comp_def)
  then have "ml_nodes t = filter (\<lambda>n. fst n \<noteq> i) (ml_nodes s)"
    using ml_release_nodes [OF r rel(1,3)] by simp
  with calculation rel ml_rep_ok [OF rel(1)] show ?thesis by blast
qed

section \<open>Search and clear\<close>

lemma find_node:
  "\<forall>i \<in> set xs. g i \<noteq> None \<Longrightarrow>
   found (List.find (\<lambda>i. case g i of None \<Rightarrow> False | Some x \<Rightarrow> p x) xs)
     = (case List.find (\<lambda>n. p (snd n)) (map (\<lambda>i. (i, the (g i))) xs) of None \<Rightarrow> 0 | Some n \<Rightarrow> fst n)"
  by (induction xs) auto

lemma ml_find_step:
  assumes "ml_ok triv s"
  shows "ml_find_pos_if p s
    = Some (case List.find (\<lambda>n. p (snd n)) (ml_nodes s) of None \<Rightarrow> 0 | Some n \<Rightarrow> fst n)"
proof -
  note r = ml_ok_rep [OF assms]
  then have "chain (nx (ml_link s)) (nx (ml_link s) 0) (ml_order s)"
    by (auto simp: ml_rep_def intro: dll_chain slots_dll)
  moreover have "\<forall>i \<in> set (ml_order s). ml_value s ! (i - 1) \<noteq> None"
    using r by (auto simp: ml_rep_def ml_get_def)
  ultimately show ?thesis
    unfolding ml_find_pos_if_def ml_nodes_def ml_get_def by (simp only: seek_chain find_node)
qed

lemma destruct_loop_chain:
  "chain f i xs \<Longrightarrow> distinct xs \<Longrightarrow> \<forall>x \<in> set xs. x \<le> length vs \<and> vs ! (x - 1) \<noteq> None \<Longrightarrow>
   \<exists>ws. destruct_loop f i vs = Some ws \<and> length ws = length vs
     \<and> (\<forall>j > 0. j \<le> length vs \<longrightarrow> ws ! (j - 1) = (if j \<in> set xs then None else vs ! (j - 1)))"
proof (induction xs arbitrary: i vs)
  case Nil
  then show ?case by (simp add: destruct_loop.simps)
next
  case (Cons x xs)
  let ?vs = "vs[x - 1 := None]"
  have x: "i = x" "0 < x" "x \<le> length vs" "vs ! (x - 1) \<noteq> None" "0 \<notin> set xs"
    using Cons.prems chain_0_notin [of f i "x # xs"] by auto
  have n: "?vs ! (j - 1) = (if j = x then None else vs ! (j - 1))" if "0 < j" for j
    using that x by (auto simp: nth_list_update)
  have "\<forall>y \<in> set xs. y \<le> length ?vs \<and> ?vs ! (y - 1) \<noteq> None"
    using Cons.prems x(5) n by (metis distinct.simps(2) gr0I length_list_update list.set_intros(2))
  with Cons.IH [of "f x" ?vs] Cons.prems obtain ws where
    ws: "destruct_loop f (f x) ?vs = Some ws" "length ws = length ?vs"
    "\<forall>j > 0. j \<le> length ?vs \<longrightarrow> ws ! (j - 1) = (if j \<in> set xs then None else ?vs ! (j - 1))" by auto
  have "destruct_loop f i vs = Some ws"
    using ws(1) x by (subst destruct_loop.simps) simp
  moreover have "\<forall>j > 0. j \<le> length vs \<longrightarrow> ws ! (j - 1) = (if j \<in> set (x # xs) then None else vs ! (j - 1))"
    using ws(3) n by simp
  ultimately show ?case using ws(2) by auto
qed

lemma ml_clear_step:
  assumes "ml_ok triv s"
  shows "\<exists>t. ml_clear triv s = Some t \<and> ml_ok triv t \<and> ml_max t = ml_max s \<and> ml_nodes t = []"
proof -
  note r = ml_ok_rep [OF assms]
  have "0 < length (ml_link s)" using r by (simp add: ml_rep_def)
  then have sl: "slots ((ml_link s)[0 := link0]) 0 0 [] []" by (rule slots_empty)
  have "\<exists>vs. ml_destruct_all triv s = Some (s\<lparr>ml_value := vs\<rparr>) \<and> length vs = ml_max s
    \<and> (triv \<or> (\<forall>j > 0. j \<le> ml_max s \<longrightarrow> vs ! (j - 1) = None))"
  proof (cases triv)
    case True
    then show ?thesis by (intro exI [of _ "ml_value s"]) (simp add: ml_destruct_all_def ml_max_def)
  next
    case False
    have c: "chain (nx (ml_link s)) (nx (ml_link s) 0) (ml_order s)" "distinct (ml_order s)"
      using r by (auto simp: ml_rep_def intro: dll_chain dll_distinct slots_dll)
    have "\<forall>x \<in> set (ml_order s). x \<le> length (ml_value s) \<and> ml_value s ! (x - 1) \<noteq> None"
      using r ml_rep_bounds [OF r] by (auto simp: ml_rep_def ml_get_def ml_max_def)
    from destruct_loop_chain [OF c this] obtain ws where
      ws: "destruct_loop (nx (ml_link s)) (nx (ml_link s) 0) (ml_value s) = Some ws"
      "length ws = ml_max s"
      "\<forall>j > 0. j \<le> ml_max s \<longrightarrow> ws ! (j - 1) = (if j \<in> set (ml_order s) then None else ml_get j s)"
      unfolding ml_max_def ml_get_def by blast
    have "ml_get j s = None" if "0 < j" "j \<le> ml_max s" "j \<notin> set (ml_order s)" for j
      using that r False by (auto simp: ml_rep_def ml_live_def)
    with ws False show ?thesis by (auto simp: ml_destruct_all_def)
  qed
  then obtain vs where vs: "ml_destruct_all triv s = Some (s\<lparr>ml_value := vs\<rparr>)"
    "length vs = ml_max s" "triv \<or> (\<forall>j > 0. j \<le> ml_max s \<longrightarrow> vs ! (j - 1) = None)" by blast
  define t where "t = s\<lparr>ml_value := vs, ml_used := 0, ml_link := (ml_link s)[0 := link0],
    ml_free_index := 0, ml_raw_used := 0\<rparr>"
  have "ml_max t = ml_max s" by (simp add: t_def ml_max_def vs(2) [unfolded ml_max_def])
  moreover have "ml_rep triv t [] []"
    using sl r vs calculation by (auto simp: ml_rep_def t_def ml_live_def ml_get_def)
  ultimately show ?thesis
    using vs(1) ml_rep_ok [of triv t] ml_rep_nodes [of triv t]
    by (intro exI [of _ t]) (auto simp: ml_clear_def t_def)
qed

section \<open>The list as a bounded queue, and as a refinement of lists\<close>

definition ml_enqueue :: "'a \<Rightarrow> 'a mem_list \<Rightarrow> (bool \<times> 'a mem_list) option" where
  "ml_enqueue v s = do { (i, s) \<leftarrow> ml_push_back v s; Some (i \<noteq> 0, s) }"

definition ml_front :: "'a mem_list \<Rightarrow> 'a option" where
  "ml_front s = ml_get (ml_begin s) s"

lemma ml_full_iff: "ml_ok triv s \<Longrightarrow> ml_full s \<longleftrightarrow> length (ml_nodes s) = ml_max s"
  using ml_ok_bounded [of triv s] ml_ok_used [of triv s] by (auto simp: ml_full_def)

lemma ml_rep_first: "ml_rep triv s xs fs \<Longrightarrow> ml_begin s = hd (xs @ [0])"
  by (auto simp: ml_rep_def ml_begin_def intro: dll_first slots_dll)

interpretation mlq: bounded_fifo "ml_ok triv" ml_items ml_max ml_enqueue "ml_pop_front triv" ml_front
  for triv
proof unfold_locales
  fix s :: "'a mem_list" and x
  assume ok: "ml_ok triv s"
  note r = ml_ok_rep [OF ok]
  show "length (ml_items s) \<le> ml_max s" using ml_ok_bounded [OF ok] by simp
  show "length (ml_items s) < ml_max s \<Longrightarrow> \<exists>t. ml_enqueue x s = Some (True, t) \<and> ml_ok triv t
    \<and> ml_items t = ml_items s @ [x] \<and> ml_max t = ml_max s"
    using ml_push_back_step [OF ok, of x] ml_full_iff [OF ok]
    by (auto simp: ml_enqueue_def ml_items_def)
  show "length (ml_items s) = ml_max s \<Longrightarrow> ml_enqueue x s = Some (False, s)"
    using ml_full_iff [OF ok] by (simp add: ml_enqueue_def ml_push_back_def)
  show "ml_items s \<noteq> [] \<Longrightarrow> \<exists>t. ml_pop_front triv s = Some t \<and> ml_ok triv t
    \<and> ml_items t = tl (ml_items s) \<and> ml_max t = ml_max s"
    using ml_pop_front_step [OF ok] by (fastforce simp: ml_items_def map_tl)
  show "ml_items s \<noteq> [] \<Longrightarrow> ml_front s = Some (hd (ml_items s))"
    using ml_rep_first [OF r] r
    by (cases "ml_order s") (auto simp: ml_items_def ml_nodes_def ml_front_def ml_rep_def)
qed

text \<open>The operations a client can call, run on the code's list and on an ordinary list.\<close>

datatype 'a ml_op = PushFront 'a | PushBack 'a | PopFront | PopBack | EraseValue 'a | EraseIf "'a \<Rightarrow> bool" | Clear

text \<open>\<open>EraseIf\<close> is \<^verbatim>\<open>erase(find_if(p))\<close> guarded by the comparison with \<^verbatim>\<open>end()\<close>.\<close>

fun ml_step :: "bool \<Rightarrow> 'a ml_op \<Rightarrow> 'a mem_list \<Rightarrow> 'a mem_list option" where
  "ml_step triv (PushFront v) s = map_option snd (ml_push_front v s)"
| "ml_step triv (PushBack v) s = map_option snd (ml_push_back v s)"
| "ml_step triv PopFront s = ml_pop_front triv s"
| "ml_step triv PopBack s = ml_pop_back triv s"
| "ml_step triv (EraseValue v) s = ml_erase_value triv v s"
| "ml_step triv (EraseIf p) s =
     do { i \<leftarrow> ml_find_pos_if p s; if i \<noteq> 0 then ml_erase triv i s else Some s }"
| "ml_step triv Clear s = ml_clear triv s"

primrec remove_first :: "('a \<Rightarrow> bool) \<Rightarrow> 'a list \<Rightarrow> 'a list" where
  "remove_first p [] = []"
| "remove_first p (x # xs) = (if p x then xs else x # remove_first p xs)"

fun ml_spec :: "nat \<Rightarrow> 'a ml_op \<Rightarrow> 'a list \<Rightarrow> 'a list" where
  "ml_spec n (PushFront v) xs = (if length xs < n then v # xs else xs)"
| "ml_spec n (PushBack v) xs = (if length xs < n then xs @ [v] else xs)"
| "ml_spec n PopFront xs = tl xs"
| "ml_spec n PopBack xs = butlast xs"
| "ml_spec n (EraseValue v) xs = remove1 v xs"
| "ml_spec n (EraseIf p) xs = remove_first p xs"
| "ml_spec n Clear xs = []"

fun ml_run :: "bool \<Rightarrow> 'a ml_op list \<Rightarrow> 'a mem_list \<Rightarrow> 'a mem_list option" where
  "ml_run triv [] s = Some s"
| "ml_run triv (p # ps) s = do { s \<leftarrow> ml_step triv p s; ml_run triv ps s }"

lemma remove_first_map:
  "distinct (map fst ns) \<Longrightarrow>
   remove_first p (map snd ns) = (case List.find (\<lambda>n. p (snd n)) ns of None \<Rightarrow> map snd ns
     | Some n \<Rightarrow> map snd (filter (\<lambda>m. fst m \<noteq> fst n) ns))"
proof (induction ns)
  case (Cons a ns)
  then have "filter (\<lambda>m. fst m \<noteq> fst a) ns = ns" by (auto simp: filter_id_conv) (metis fst_conv image_eqI)
  moreover have "fst a \<noteq> fst n" if "List.find (\<lambda>n. p (snd n)) ns = Some n" for n
    using that Cons.prems by (auto simp: find_Some_iff)
  ultimately show ?case using Cons by (auto split: option.splits)
qed simp

lemma remove_first_eq: "remove_first (\<lambda>x. x = v) xs = remove1 v xs"
  by (induction xs) auto

lemma ml_order_distinct: "ml_ok triv s \<Longrightarrow> distinct (ml_order s) \<and> 0 \<notin> set (ml_order s)"
  using ml_ok_rep [of triv s]
  by (auto simp: ml_rep_def dest!: slots_dll dest: dll_distinct dll_0_notin)

lemma ml_erase_if_step:
  assumes "ml_ok triv s"
  shows "\<exists>t. ml_step triv (EraseIf p) s = Some t \<and> ml_ok triv t \<and> ml_max t = ml_max s
    \<and> ml_items t = remove_first p (ml_items s)"
proof -
  have d: "distinct (map fst (ml_nodes s))" "0 \<notin> fst ` set (ml_nodes s)"
    using ml_order_distinct [OF assms] by (simp_all add: ml_order_nodes)
  note f = ml_find_step [OF assms, of p]
  show ?thesis
  proof (cases "List.find (\<lambda>n. p (snd n)) (ml_nodes s)")
    case None
    then show ?thesis using f remove_first_map [OF d(1), of p] assms by (simp add: ml_items_def)
  next
    case (Some n)
    then have "fst n \<in> set (ml_order s)" by (auto simp: ml_order_nodes find_Some_iff)
    moreover from this have "fst n \<noteq> 0" using ml_order_distinct [OF assms] by metis
    ultimately show ?thesis
      using f Some ml_erase_step [OF assms, of "fst n"] remove_first_map [OF d(1), of p]
      by (auto simp: ml_items_def)
  qed
qed

lemma ml_step_refines:
  assumes ok: "ml_ok triv s"
  shows "\<exists>t. ml_step triv p s = Some t \<and> ml_ok triv t \<and> ml_max t = ml_max s
    \<and> ml_items t = ml_spec (ml_max s) p (ml_items s)"
proof -
  note full = ml_full_iff [OF ok] and le = ml_ok_bounded [OF ok]
  have e: "ml_empty s \<longleftrightarrow> ml_nodes s = []" using ml_ok_used [OF ok] by (simp add: ml_empty_def)
  show ?thesis
  proof (cases p)
    case (PushFront v)
    then show ?thesis using ml_push_front_step [OF ok, of v] full le ok
      by (cases "ml_full s") (auto simp: ml_items_def ml_push_front_def)
  next
    case (PushBack v)
    then show ?thesis using ml_push_back_step [OF ok, of v] full le ok
      by (cases "ml_full s") (auto simp: ml_items_def ml_push_back_def)
  next
    case PopFront
    then show ?thesis using ml_pop_front_step [OF ok] e ok
      by (cases "ml_empty s") (auto simp: ml_items_def ml_pop_front_def map_tl)
  next
    case PopBack
    then show ?thesis using ml_pop_back_step [OF ok] e ok
      by (cases "ml_empty s") (auto simp: ml_items_def ml_pop_back_def map_butlast)
  next
    case (EraseValue v)
    then have "ml_step triv p s = ml_step triv (EraseIf (\<lambda>x. x = v)) s"
      by (simp add: ml_erase_value_def ml_find_pos_def)
    then show ?thesis using ml_erase_if_step [OF ok, of "\<lambda>x. x = v"] EraseValue
      by (simp add: remove_first_eq)
  next
    case (EraseIf q)
    then show ?thesis using ml_erase_if_step [OF ok, of q] by simp
  next
    case Clear
    then show ?thesis using ml_clear_step [OF ok] by (auto simp: ml_items_def)
  qed
qed

lemma ml_run_refines:
  "ml_ok triv s \<Longrightarrow> \<exists>t. ml_run triv ps s = Some t \<and> ml_ok triv t \<and> ml_max t = ml_max s
    \<and> ml_items t = fold (ml_spec (ml_max s)) ps (ml_items s)"
proof (induction ps arbitrary: s)
  case (Cons p ps)
  from ml_step_refines [OF Cons.prems, of p] Cons.IH show ?case by fastforce
qed simp

lemma ml_live_card: "ml_ok triv s \<Longrightarrow> triv \<or> card (ml_live s) = length (ml_items s)"
  using ml_ok_rep [of triv s] ml_order_distinct [of triv s]
  by (auto simp: ml_rep_def distinct_card ml_nodes_def)

section \<open>Properties\<close>

text \<open>C3. Whatever operations a client calls on a new list, in whatever order, the run never
  aborts, the list keeps its invariant and stores exactly what an ordinary list bounded by the
  capacity would; for a type with a destructor exactly one object lives per stored element, so
  none leaks and none is destroyed twice.\<close>

theorem ml_run_is_list:
  "\<exists>t. ml_run triv ps (ml_new n) = Some t \<and> ml_ok triv t \<and> ml_items t = fold (ml_spec n) ps []
    \<and> ml_size t = length (ml_items t) \<and> (triv \<or> card (ml_live t) = length (ml_items t))"
proof -
  from ml_run_refines [OF ml_new_ok, of triv ps n] obtain t where
    t: "ml_run triv ps (ml_new n) = Some t" "ml_ok triv t"
    "ml_items t = fold (ml_spec n) ps (ml_items (ml_new n))" by auto
  moreover have "ml_items (ml_new n) = []" by (simp add: ml_items_def ml_new_nodes)
  moreover have "ml_size t = length (ml_items t)" using ml_ok_used [OF t(2)] by (simp add: ml_size_def)
  ultimately show ?thesis using ml_live_card [OF t(2)] by metis
qed

text \<open>Erasing through a valid iterator removes that node and no other: every other node keeps
  its slot, its value and its place, so the iterators to them stay valid; a destroyed object
  is gone from its cell.\<close>

lemma ml_erase_keeps_others:
  assumes "ml_ok triv s" "i \<in> set (ml_order s)"
  shows "\<exists>t. ml_erase triv i s = Some t \<and> ml_ok triv t
    \<and> ml_nodes t = filter (\<lambda>n. fst n \<noteq> i) (ml_nodes s) \<and> (triv \<or> ml_get i t = None)"
  using ml_erase_step [OF assms] by blast

definition ml_demo :: "char mem_list" where
  "ml_demo = the (ml_run False [PushBack CHR ''a'', PushBack CHR ''b'', PushFront CHR ''c''] (ml_new 3))"

lemma ml_erase_keeps_others_example:
  "\<exists>t. ml_erase False 1 ml_demo = Some t \<and> ml_nodes t = [(3, CHR ''c''), (2, CHR ''b'')]"
proof -
  let ?ps = "[PushBack CHR ''a'', PushBack CHR ''b'', PushFront CHR ''c'']"
  obtain t where "ml_run False ?ps (ml_new 3) = Some t" "ml_ok False t"
    using ml_run_refines [OF ml_new_ok [of False 3], of ?ps] by blast
  then have "ml_ok False ml_demo" by (simp add: ml_demo_def)
  moreover have "ml_nodes ml_demo = [(3, CHR ''c''), (1, CHR ''a''), (2, CHR ''b'')]"
    by code_simp
  ultimately show ?thesis using ml_erase_keeps_others [of False ml_demo 1]
    by (auto simp: ml_order_nodes)
qed

text \<open>Iterating from \<^verbatim>\<open>begin()\<close> with \<^verbatim>\<open>++\<close> reads the stored elements in order and then
  reaches \<^verbatim>\<open>end()\<close>; iterating from \<^verbatim>\<open>end()\<close> with \<^verbatim>\<open>--\<close> reads them in reverse; and
  \<^verbatim>\<open>find_if\<close> returns the first of them that satisfies the predicate, or \<^verbatim>\<open>end()\<close>.\<close>

lemma ml_iteration:
  assumes "ml_ok triv s"
  shows "map (\<lambda>i. ml_get i s) (walk (ml_iter_next s) (ml_begin s) (ml_size s)) = map Some (ml_items s)
    \<and> map (\<lambda>i. ml_get i s) (walk (ml_iter_prev s) (ml_iter_prev s 0) (ml_size s)) = map Some (rev (ml_items s))
    \<and> (ml_iter_next s ^^ Suc (ml_size s)) 0 = 0
    \<and> ml_find_pos_if p s
      = Some (case List.find (\<lambda>n. p (snd n)) (ml_nodes s) of None \<Rightarrow> 0 | Some n \<Rightarrow> fst n)"
proof -
  note r = ml_ok_rep [OF assms]
  then have d: "dll (ml_link s) (ml_order s)" and u: "ml_used s = length (ml_order s)"
    by (auto simp: ml_rep_def intro: slots_dll)
  have live: "map (\<lambda>i. ml_get i s) (ml_order s) = map Some (ml_items s)"
    using r by (auto simp: ml_items_def ml_nodes_def ml_rep_def)
  have f: "ml_iter_next s = nx (ml_link s)" "ml_iter_prev s = pv (ml_link s)"
    by (simp_all add: fun_eq_iff ml_iter_next_def ml_iter_prev_def)
  have "walk (ml_iter_next s) (ml_begin s) (ml_size s) = ml_order s"
    using dll_walk [OF d] u by (simp add: f ml_begin_def ml_size_def)
  moreover have "walk (ml_iter_prev s) (ml_iter_prev s 0) (ml_size s) = rev (ml_order s)"
    using dll_walk_back [OF d] u by (simp add: f ml_size_def)
  moreover have "(ml_iter_next s ^^ Suc (ml_size s)) 0 = 0"
    using d u seg_end [of "nx (ml_link s)" 0 "ml_order s" 0]
    by (simp only: f ml_size_def dll_def)
  moreover have "map (\<lambda>i. ml_get i s) (rev (ml_order s)) = map Some (rev (ml_items s))"
    unfolding rev_map [symmetric] live ..
  ultimately show ?thesis using live ml_find_step [OF assms, of p] by presburger
qed

lemma ml_iteration_example:
  "ml_find_pos_if (\<lambda>x. x = CHR ''b'') ml_demo = Some 2
    \<and> map (\<lambda>i. ml_get i ml_demo) (walk (ml_iter_prev ml_demo) (ml_iter_prev ml_demo 0) 3)
      = map Some [CHR ''b'', CHR ''a'', CHR ''c'']"
proof -
  let ?ps = "[PushBack CHR ''a'', PushBack CHR ''b'', PushFront CHR ''c'']"
  obtain t where "ml_run False ?ps (ml_new 3) = Some t" "ml_ok False t"
    using ml_run_refines [OF ml_new_ok [of False 3], of ?ps] by blast
  then have "ml_ok False ml_demo" by (simp add: ml_demo_def)
  moreover have "ml_nodes ml_demo = [(3, CHR ''c''), (1, CHR ''a''), (2, CHR ''b'')]"
    "ml_size ml_demo = 3" by code_simp+
  ultimately show ?thesis using ml_iteration [of False ml_demo "\<lambda>x. x = CHR ''b''"]
    by (simp add: ml_items_def)
qed

end
