(* ===== verification/FixedRingBuf.thy ===== *)
theory FixedRingBuf
  imports Interfaces
begin

text \<open>
  \<^verbatim>\<open>src/containers/fixed_ring_buf.h\<close> over the two data layers of
  \<^verbatim>\<open>src/containers/inner/ring_buf_data.h\<close> (\<^verbatim>\<open>FixedRingBufData\<close>): the ring
  buffer of equal-sized elements.  The state has the members of the data layer;
  \<open>frb_max\<close> is \<^verbatim>\<open>get_max_num()\<close>, the template argument of the compile-time layer or
  the \<^verbatim>\<open>m_max_num\<close> of the shared-memory header.  A capacity of 0 is possible for the
  shared-memory layer only.
\<close>

section \<open>State and operations\<close>

record 'a ring =
  frb_start :: nat
  frb_end :: nat
  frb_used :: nat
  frb_max :: nat
  frb_buf :: "'a list"

definition frb_clear :: "'a ring \<Rightarrow> 'a ring" where
  "frb_clear r = r\<lparr>frb_start := 0, frb_end := 0, frb_used := 0\<rparr>"

definition frb_empty :: "'a ring \<Rightarrow> bool" where
  "frb_empty r \<longleftrightarrow> frb_used r = 0 \<and> frb_max r > 0"

definition frb_full :: "'a ring \<Rightarrow> bool" where
  "frb_full r \<longleftrightarrow> frb_used r = frb_max r"

definition frb_size :: "'a ring \<Rightarrow> nat" where
  "frb_size r = frb_used r"

definition frb_capacity :: "'a ring \<Rightarrow> nat" where
  "frb_capacity r = frb_max r"

definition frb_pop :: "'a ring \<Rightarrow> 'a ring option" where
  "frb_pop r =
     (if \<not> frb_empty r then
        do { cassert (frb_max r > 0);
             Some (r\<lparr>frb_start := (frb_start r + 1) mod frb_max r, frb_used := frb_used r - 1\<rparr>) }
      else Some r)"

definition frb_push :: "bool \<Rightarrow> 'a \<Rightarrow> 'a ring \<Rightarrow> (bool \<times> 'a ring) option" where
  "frb_push over_write value r =
     (if frb_full r \<and> \<not> over_write then Some (False, r)
      else
        do { r \<leftarrow> (if frb_full r then frb_pop r else Some r);
             let r = r\<lparr>frb_buf := (frb_buf r)[frb_end r := value]\<rparr>;
             cassert (frb_max r > 0);
             Some (True, r\<lparr>frb_end := (frb_end r + 1) mod frb_max r, frb_used := frb_used r + 1\<rparr>) })"

definition frb_front :: "nat \<Rightarrow> 'a ring \<Rightarrow> 'a option" where
  "frb_front index r =
     do { cassert (index < frb_used r \<and> frb_max r > 0);
          Some (frb_buf r ! ((frb_start r + index) mod frb_max r)) }"

definition frb_back :: "nat \<Rightarrow> 'a ring \<Rightarrow> 'a option" where
  "frb_back index r =
     do { cassert (index < frb_used r \<and> frb_max r > 0);
          Some (frb_buf r ! ((frb_end r + frb_max r - 1 - index) mod frb_max r)) }"

text \<open>
  The shared-memory layer: \<^verbatim>\<open>mem_size\<close> and \<^verbatim>\<open>init\<close>.  The block is the header
  followed by the cells; \<open>sz\<close> is \<^verbatim>\<open>sizeof(T)\<close> and the header has four
  \<^verbatim>\<open>size_t\<close>.  With \<^verbatim>\<open>check\<close> the block is attached as it is, otherwise its header is
  reset and its capacity computed.
\<close>

definition frb_head_size :: nat where
  "frb_head_size = 32"

definition frb_mem_size :: "nat \<Rightarrow> nat \<Rightarrow> nat" where
  "frb_mem_size sz n = frb_head_size + sz * n"

definition frb_init :: "nat \<Rightarrow> 'a ring option \<Rightarrow> nat \<Rightarrow> bool \<Rightarrow> bool \<times> 'a ring option" where
  "frb_init sz mem mem_size check =
     (case mem of
        None \<Rightarrow> (False, None)
      | Some r \<Rightarrow>
          if mem_size < frb_head_size then (False, mem)
          else if check then (frb_max r = (mem_size - frb_head_size) div sz, mem)
          else (True, Some (r\<lparr>frb_start := 0, frb_end := 0, frb_used := 0,
                              frb_max := (mem_size - frb_head_size) div sz\<rparr>)))"

section \<open>Abstraction and invariant\<close>

text \<open>The queue the ring stores, oldest element first.\<close>

definition frb_items :: "'a ring \<Rightarrow> 'a list" where
  "frb_items r = map (\<lambda>i. frb_buf r ! ((frb_start r + i) mod frb_max r)) [0..<frb_used r]"

definition frb_ok :: "'a ring \<Rightarrow> bool" where
  "frb_ok r \<longleftrightarrow> 0 < frb_max r \<and> frb_max r \<le> length (frb_buf r) \<and> frb_used r \<le> frb_max r
     \<and> frb_start r < frb_max r \<and> frb_end r = (frb_start r + frb_used r) mod frb_max r"

lemmas frb_defs = frb_clear_def frb_empty_def frb_full_def frb_pop_def frb_push_def
  frb_front_def frb_back_def frb_size_def frb_capacity_def

lemma frb_okD:
  assumes "frb_ok r"
  shows "0 < frb_max r" "frb_max r \<le> length (frb_buf r)" "frb_used r \<le> frb_max r"
    "frb_start r < frb_max r" "frb_end r < frb_max r"
    "frb_end r = (frb_start r + frb_used r) mod frb_max r"
  using assms by (auto simp: frb_ok_def)

lemma length_frb_items [simp]: "length (frb_items r) = frb_used r"
  by (simp add: frb_items_def)

lemma frb_items_nth: "i < frb_used r \<Longrightarrow> frb_items r ! i = frb_buf r ! ((frb_start r + i) mod frb_max r)"
  by (simp add: frb_items_def)

lemma frb_slot_inj:
  assumes "frb_ok r" "i < frb_used r" "frb_used r < frb_max r"
  shows "(frb_start r + i) mod frb_max r \<noteq> frb_end r"
  using frb_okD [OF assms(1)] assms(2,3) by (auto simp: mod_less_double split: if_splits)

lemma frb_pop_step:
  assumes "frb_ok r" "frb_items r \<noteq> []"
  shows "\<exists>t. frb_pop r = Some t \<and> frb_ok t \<and> frb_items t = tl (frb_items r) \<and> frb_max t = frb_max r"
proof -
  note ok = frb_okD [OF assms(1)]
  have u: "0 < frb_used r" using assms(2) by (cases "frb_used r") (auto simp: frb_items_def)
  let ?t = "r\<lparr>frb_start := (frb_start r + 1) mod frb_max r, frb_used := frb_used r - 1\<rparr>"
  have "(frb_start r + 1) mod frb_max r + (frb_used r - 1) = (frb_start r + 1) mod frb_max r + frb_used r - 1"
    using u by simp
  moreover have "((frb_start r + 1) mod frb_max r + (frb_used r - 1)) mod frb_max r
      = (frb_start r + 1 + (frb_used r - 1)) mod frb_max r"
    by (rule mod_add_left_eq)
  ultimately have "frb_ok ?t" using ok u by (auto simp: frb_ok_def)
  moreover have "frb_items ?t = tl (frb_items r)"
    using u by (intro nth_equalityI) (auto simp: frb_items_nth nth_tl mod_simps)
  ultimately show ?thesis using u ok(1) by (auto simp: frb_defs)
qed

lemma frb_push_step:
  assumes "frb_ok r" "frb_used r < frb_max r"
  shows "\<exists>t. frb_push ow x r = Some (True, t) \<and> frb_ok t \<and> frb_items t = frb_items r @ [x]
    \<and> frb_max t = frb_max r"
proof -
  note ok = frb_okD [OF assms(1)]
  let ?t = "r\<lparr>frb_buf := (frb_buf r)[frb_end r := x], frb_end := (frb_end r + 1) mod frb_max r,
              frb_used := frb_used r + 1\<rparr>"
  have "frb_ok ?t" using ok assms(2) by (simp add: frb_ok_def mod_simps)
  moreover have "frb_items ?t = frb_items r @ [x]"
  proof (rule nth_equalityI)
    fix i assume "i < length (frb_items ?t)"
    then consider "i < frb_used r" | "i = frb_used r" by fastforce
    then show "frb_items ?t ! i = (frb_items r @ [x]) ! i"
    proof cases
      case 1
      then have "(frb_start r + i) mod frb_max r \<noteq> frb_end r"
        by (rule frb_slot_inj [OF assms(1) _ assms(2)])
      then show ?thesis using 1 ok by (simp add: frb_items_nth nth_append nth_list_update)
    next
      case 2
      moreover have "frb_end r < length (frb_buf r)" by (rule less_le_trans [OF ok(5) ok(2)])
      ultimately show ?thesis using ok(6) by (simp add: frb_items_nth nth_append)
    qed
  qed simp
  ultimately show ?thesis using assms(2) ok by (auto simp: frb_defs)
qed

lemma frb_push_over_step:
  assumes "frb_ok r"
  shows "\<exists>t. frb_push True x r = Some (True, t) \<and> frb_ok t \<and> frb_max t = frb_max r
    \<and> frb_items t = (if length (frb_items r) = frb_max r then tl (frb_items r) else frb_items r) @ [x]"
proof (cases "frb_used r = frb_max r")
  case True
  note ok = frb_okD [OF assms]
  from True ok(1) have "frb_items r \<noteq> []" by (metis length_frb_items less_numeral_extra(3) list.size(3))
  with frb_pop_step [OF assms] obtain s where s: "frb_pop r = Some s" "frb_ok s"
    "frb_items s = tl (frb_items r)" "frb_max s = frb_max r" by blast
  have l: "frb_used s = frb_used r - 1" using s(3) by (metis length_frb_items length_tl)
  then have lt: "frb_used s < frb_max s" using s(4) True ok(1) by simp
  have "frb_push True x r = frb_push True x s"
    using True s(1) lt by (simp add: frb_push_def frb_full_def)
  with frb_push_step [OF s(2) lt] s True show ?thesis by auto
next
  case False
  with frb_okD [OF assms] have "frb_used r < frb_max r" by simp
  with frb_push_step [OF assms] False show ?thesis by auto
qed

text \<open>The ring is a bounded queue with an overwriting push.\<close>

interpretation frbq: overwriting_fifo frb_ok frb_items frb_max "frb_push False" frb_pop "frb_front 0" "frb_push True"
proof unfold_locales
  fix s :: "'a ring" and x
  show "frb_ok s \<Longrightarrow> length (frb_items s) \<le> frb_max s" by (simp add: frb_ok_def)
  show "frb_ok s \<Longrightarrow> length (frb_items s) < frb_max s \<Longrightarrow>
    \<exists>t. frb_push False x s = Some (True, t) \<and> frb_ok t \<and> frb_items t = frb_items s @ [x] \<and> frb_max t = frb_max s"
    by (rule frb_push_step) simp_all
  show "frb_ok s \<Longrightarrow> length (frb_items s) = frb_max s \<Longrightarrow> frb_push False x s = Some (False, s)"
    by (simp add: frb_push_def frb_full_def)
  show "frb_ok s \<Longrightarrow> frb_items s \<noteq> [] \<Longrightarrow>
    \<exists>t. frb_pop s = Some t \<and> frb_ok t \<and> frb_items t = tl (frb_items s) \<and> frb_max t = frb_max s"
    by (rule frb_pop_step)
  show "frb_ok s \<Longrightarrow> frb_items s \<noteq> [] \<Longrightarrow> frb_front 0 s = Some (hd (frb_items s))"
    using length_frb_items [of s] frb_items_nth [of 0 s]
    by (cases "frb_items s") (auto simp: frb_front_def frb_ok_def)
  show "frb_ok s \<Longrightarrow> 0 < frb_max s \<Longrightarrow> \<exists>t. frb_push True x s = Some (True, t) \<and> frb_ok t
      \<and> frb_max t = frb_max s
      \<and> frb_items t = (if length (frb_items s) = frb_max s then tl (frb_items s) else frb_items s) @ [x]"
    by (rule frb_push_over_step)
qed

section \<open>Properties\<close>

text \<open>The ring in which nothing has been pushed, as the default member initialisers leave it.\<close>

definition frb_new :: "'a list \<Rightarrow> 'a ring" where
  "frb_new cells = \<lparr>frb_start = 0, frb_end = 0, frb_used = 0, frb_max = length cells, frb_buf = cells\<rparr>"

lemma frb_new_ok: "cells \<noteq> [] \<Longrightarrow> frb_ok (frb_new cells)"
  and frb_new_items [simp]: "frb_items (frb_new cells) = []"
  and frb_new_max [simp]: "frb_max (frb_new cells) = length cells"
  by (auto simp: frb_ok_def frb_new_def frb_items_def)

text \<open>C4. A new ring that is fed any list with the overwriting push never aborts and holds
  exactly the newest elements, oldest first: the last \<^verbatim>\<open>capacity()\<close> of those pushed.\<close>

theorem frb_overwrite_keeps_newest:
  assumes "cells \<noteq> []"
  shows "\<exists>t. feed (frb_push True) xs (frb_new cells) = Some t \<and> frb_ok t
    \<and> frb_items t = drop (length xs - length cells) xs"
  using frbq.feed_over_keeps_newest [OF frb_new_ok [OF assms], of xs] assms by auto

theorem frb_overwrite_keeps_newest_witness:
  "\<exists>t. feed (frb_push True) [1, 2, 3, 4, 5 :: nat] (frb_new [0, 0, 0]) = Some t \<and> frb_ok t
    \<and> frb_items t = [3, 4, 5]"
  using frb_overwrite_keeps_newest [of "[0, 0, 0 :: nat]" "[1, 2, 3, 4, 5]"] by simp

text \<open>\<^verbatim>\<open>front(i)\<close> is the \<open>i\<close>-th oldest and \<^verbatim>\<open>back(i)\<close> the \<open>i\<close>-th newest
  element of the stored queue; both abort exactly when \<open>i\<close> is not below \<^verbatim>\<open>size()\<close>.\<close>

lemma frb_front_back:
  assumes "frb_ok r"
  shows "frb_front i r = (if i < frb_size r then Some (frb_items r ! i) else None)
    \<and> frb_back i r = (if i < frb_size r then Some (rev (frb_items r) ! i) else None)"
proof -
  note ok = frb_okD [OF assms]
  have front: "frb_front i r = (if i < frb_size r then Some (frb_items r ! i) else None)"
    using ok by (simp add: frb_defs frb_items_nth)
  have "(frb_end r + frb_max r - 1 - i) mod frb_max r = (frb_start r + (frb_used r - 1 - i)) mod frb_max r"
    if i: "i < frb_used r"
  proof -
    have "(frb_end r + (frb_max r - 1 - i)) mod frb_max r
        = (frb_start r + frb_used r + (frb_max r - 1 - i)) mod frb_max r"
      by (simp add: ok(6) mod_simps)
    also have "frb_start r + frb_used r + (frb_max r - 1 - i) = frb_start r + (frb_used r - 1 - i) + frb_max r"
      using i ok by simp
    also have "\<dots> mod frb_max r = (frb_start r + (frb_used r - 1 - i)) mod frb_max r" by simp
    also have "frb_end r + (frb_max r - 1 - i) = frb_end r + frb_max r - 1 - i" using i ok(3) by simp
    finally show ?thesis .
  qed
  then have "frb_back i r = (if i < frb_size r then Some (rev (frb_items r) ! i) else None)"
    using ok by (simp add: frb_defs frb_items_nth rev_nth)
  with front show ?thesis ..
qed

lemma frb_front_back_example:
  "frb_front 1 \<lparr>frb_start = 2, frb_end = 1, frb_used = 2, frb_max = 3, frb_buf = [7, 8, 9 :: nat]\<rparr> = Some 7
   \<and> frb_back 1 \<lparr>frb_start = 2, frb_end = 1, frb_used = 2, frb_max = 3, frb_buf = [7, 8, 9 :: nat]\<rparr> = Some 9"
proof -
  let ?r = "\<lparr>frb_start = 2, frb_end = 1, frb_used = 2, frb_max = 3, frb_buf = [7, 8, 9 :: nat]\<rparr>"
  have ok: "frb_ok ?r" by (simp add: frb_ok_def)
  have "frb_items ?r = [9, 7]" by code_simp
  then show ?thesis using frb_front_back [OF ok, of 1] by (simp add: frb_size_def)
qed

end
