(* ===== verification/FixedVector.thy ===== *)
theory FixedVector
  imports Prelude "HOL-Library.Word"
begin

text \<open>
  \<^verbatim>\<open>src/containers/fixed_vector.h\<close>: the vector of fixed capacity.  The state is the
  32-bit \<^verbatim>\<open>curr_size_\<close> and the \<^verbatim>\<open>MAX_SIZE\<close> cells of \<^verbatim>\<open>data_\<close>; an iterator is
  its distance from \<^verbatim>\<open>begin()\<close>.  \<open>z\<close> is the element whose bytes are all zero, which
  \<^verbatim>\<open>memset\<close> writes.
\<close>

section \<open>State and operations\<close>

record 'a fvec =
  fv_size :: "32 word"
  fv_data :: "'a list"

definition fv_max :: "'a fvec \<Rightarrow> nat" where
  "fv_max v = length (fv_data v)"

definition fv_full :: "'a fvec \<Rightarrow> bool" where
  "fv_full v \<longleftrightarrow> unat (fv_size v) = fv_max v"

definition fv_empty :: "'a fvec \<Rightarrow> bool" where
  "fv_empty v \<longleftrightarrow> fv_size v = 0"

definition fv_clear :: "'a fvec \<Rightarrow> 'a fvec" where
  "fv_clear v = v\<lparr>fv_size := 0\<rparr>"

definition fv_at :: "'a fvec \<Rightarrow> nat \<Rightarrow> 'a option" where
  "fv_at v index = do { cassert (index < unat (fv_size v)); Some (fv_data v ! index) }"

text \<open>\<^verbatim>\<open>curr_size_ + 1 <= MAX_SIZE\<close>: the sum is a 32-bit unsigned value.\<close>

definition fv_room :: "'a fvec \<Rightarrow> bool" where
  "fv_room v \<longleftrightarrow> unat (fv_size v + 1) \<le> fv_max v"

definition fv_push_back :: "'a \<Rightarrow> 'a fvec \<Rightarrow> bool \<times> 'a fvec" where
  "fv_push_back value v =
     (if fv_room v
      then (True, v\<lparr>fv_data := (fv_data v)[unat (fv_size v) := value], fv_size := fv_size v + 1\<rparr>)
      else (False, v))"

text \<open>\<^verbatim>\<open>Add\<close> returns the address of a zeroed new cell, here its index, or null.\<close>

definition fv_Add :: "'a \<Rightarrow> 'a fvec \<Rightarrow> nat option \<times> 'a fvec" where
  "fv_Add z v =
     (if fv_room v
      then (Some (unat (fv_size v)),
            v\<lparr>fv_data := (fv_data v)[unat (fv_size v) := z], fv_size := fv_size v + 1\<rparr>)
      else (None, v))"

definition fv_resize :: "nat \<Rightarrow> 'a fvec \<Rightarrow> 'a fvec option" where
  "fv_resize s v = do { cassert (s \<le> fv_max v); Some (v\<lparr>fv_size := word_of_nat s\<rparr>) }"

text \<open>\<^verbatim>\<open>std::copy\<close>: the elements one after the other, in ascending order.\<close>

primrec copy_fwd :: "nat \<Rightarrow> nat \<Rightarrow> nat \<Rightarrow> 'a list \<Rightarrow> 'a list" where
  "copy_fwd 0 src dst d = d"
| "copy_fwd (Suc n) src dst d = copy_fwd n (Suc src) (Suc dst) (d[dst := d ! src])"

text \<open>\<^verbatim>\<open>memset(pos, 0, ...)\<close> over \<open>n\<close> cells.\<close>

primrec fill_zero :: "nat \<Rightarrow> nat \<Rightarrow> 'a \<Rightarrow> 'a list \<Rightarrow> 'a list" where
  "fill_zero 0 pos z d = d"
| "fill_zero (Suc n) pos z d = fill_zero n (Suc pos) z (d[pos := z])"

definition fv_erase_at_end :: "'a \<Rightarrow> nat \<Rightarrow> 'a fvec \<Rightarrow> 'a fvec" where
  "fv_erase_at_end z pos v =
     v\<lparr>fv_data := fill_zero (unat (fv_size v - word_of_nat pos)) pos z (fv_data v),
       fv_size := word_of_nat pos\<rparr>"

text \<open>\<^verbatim>\<open>erase(first, last)\<close> and \<^verbatim>\<open>erase(position)\<close>, by the two overloads of
  \<^verbatim>\<open>inner_erase\<close>.\<close>

definition fv_erase_range :: "'a \<Rightarrow> nat \<Rightarrow> nat \<Rightarrow> 'a fvec \<Rightarrow> nat \<times> 'a fvec" where
  "fv_erase_range z fi la v =
     (if fi \<noteq> la then
        let e = unat (fv_size v);
            v = (if la \<noteq> e then v\<lparr>fv_data := copy_fwd (e - la) la fi (fv_data v)\<rparr> else v)
        in (fi, fv_erase_at_end z (fi + (e - la)) v)
      else (fi, v))"

definition fv_erase :: "nat \<Rightarrow> 'a fvec \<Rightarrow> nat \<times> 'a fvec" where
  "fv_erase position v =
     (let e = unat (fv_size v);
          v = (if position + 1 \<noteq> e
               then v\<lparr>fv_data := copy_fwd (e - (position + 1)) (position + 1) position (fv_data v)\<rparr>
               else v)
      in (position, v\<lparr>fv_size := fv_size v - 1\<rparr>))"

section \<open>Abstraction and invariant\<close>

definition fv_items :: "'a fvec \<Rightarrow> 'a list" where
  "fv_items v = take (unat (fv_size v)) (fv_data v)"

text \<open>The capacity must leave the 32-bit size room for one more than the size.\<close>

definition fv_ok :: "'a fvec \<Rightarrow> bool" where
  "fv_ok v \<longleftrightarrow> unat (fv_size v) \<le> fv_max v \<and> fv_max v < 2 ^ 32 - 1"

lemma unat_small_plus_1: "unat (w :: 32 word) < 2 ^ 32 - 1 \<Longrightarrow> unat (w + 1) = unat w + 1"
  by (subst unat_plus_simple [THEN iffD1]) (auto simp: word_le_nat_alt unat_word_ariths)

lemma fv_room_iff: "fv_ok v \<Longrightarrow> fv_room v \<longleftrightarrow> \<not> fv_full v"
  by (auto simp: fv_room_def fv_ok_def fv_full_def unat_small_plus_1)

lemma copy_fwd_eq:
  "dst \<le> src \<Longrightarrow> src + n \<le> length d \<Longrightarrow>
   copy_fwd n src dst d = take dst d @ take n (drop src d) @ drop (dst + n) d"
proof (induction n arbitrary: src dst d)
  case (Suc n)
  have s: "src < length d" using Suc.prems(2) by simp
  have "copy_fwd (Suc n) src dst d
      = take (Suc dst) (d[dst := d ! src]) @ take n (drop (Suc src) (d[dst := d ! src]))
        @ drop (Suc dst + n) (d[dst := d ! src])"
    using Suc.IH [of "Suc dst" "Suc src" "d[dst := d ! src]"] Suc.prems by simp
  also have "take (Suc dst) (d[dst := d ! src]) = take dst d @ [d ! src]"
    using Suc.prems s by (simp add: take_Suc_conv_app_nth)
  also have "take n (drop (Suc src) (d[dst := d ! src])) = take n (drop (Suc src) d)"
    using Suc.prems by simp
  also have "drop (Suc dst + n) (d[dst := d ! src]) = drop (Suc dst + n) d"
    by simp
  also have "(take dst d @ [d ! src]) @ take n (drop (Suc src) d) @ drop (Suc dst + n) d
      = take dst d @ take (Suc n) (drop src d) @ drop (dst + Suc n) d"
    using s by (simp add: Cons_nth_drop_Suc [symmetric])
  finally show ?case .
qed simp

lemma fill_zero_eq:
  "pos + n \<le> length d \<Longrightarrow> fill_zero n pos z d = take pos d @ replicate n z @ drop (pos + n) d"
proof (induction n arbitrary: pos d)
  case (Suc n)
  then have "fill_zero (Suc n) pos z d
      = take (Suc pos) (d[pos := z]) @ replicate n z @ drop (Suc pos + n) (d[pos := z])" by simp
  also have "take (Suc pos) (d[pos := z]) = take pos d @ [z]"
    using Suc.prems by (simp add: take_Suc_conv_app_nth)
  finally show ?case by simp
qed simp

lemma unat_w32: "n < 2 ^ 32 \<Longrightarrow> unat (word_of_nat n :: 32 word) = n"
  by (simp add: unat_of_nat take_bit_nat_eq_self)

lemma unat_minus_small: "n \<le> unat (w :: 32 word) \<Longrightarrow> unat (w - word_of_nat n) = unat w - n"
proof -
  assume "n \<le> unat w"
  moreover have "unat w < 2 ^ 32" by (rule order_less_le_trans [OF unsigned_less]) simp
  moreover from calculation have "unat (word_of_nat n :: 32 word) = n"
    by (simp add: unat_of_nat take_bit_nat_eq_self)
  ultimately show ?thesis by (subst unat_sub) (auto simp: word_le_nat_alt)
qed

section \<open>Each operation on the elements\<close>

text \<open>\<^verbatim>\<open>push_back\<close> appends the value and answers true exactly when the vector is not
  full; a full vector is left as it was.  The invariant is kept.\<close>

lemma fv_push_back_spec:
  assumes "fv_ok v"
  shows "fst (fv_push_back x v) = (\<not> fv_full v)
    \<and> fv_items (snd (fv_push_back x v)) = (if fv_full v then fv_items v else fv_items v @ [x])
    \<and> fv_max (snd (fv_push_back x v)) = fv_max v \<and> fv_ok (snd (fv_push_back x v))"
proof (cases "fv_full v")
  case True
  then show ?thesis using assms by (simp add: fv_push_back_def fv_room_iff)
next
  case False
  then have lt: "unat (fv_size v) < length (fv_data v)" "unat (fv_size v) < 2 ^ 32 - 1"
    using assms by (auto simp: fv_ok_def fv_full_def fv_max_def)
  then have "take (unat (fv_size v) + 1) ((fv_data v)[unat (fv_size v) := x]) = fv_items v @ [x]"
    by (simp add: take_Suc_conv_app_nth fv_items_def)
  with False lt assms show ?thesis
    by (simp add: fv_push_back_def fv_room_iff fv_items_def fv_max_def fv_ok_def unat_small_plus_1)
qed

lemma fv_push_back_spec_example:
  "fv_push_back 9 \<lparr>fv_size = 2, fv_data = [1, 2, 0 :: nat]\<rparr> = (True, \<lparr>fv_size = 3, fv_data = [1, 2, 9]\<rparr>)
   \<and> fst (fv_push_back 9 \<lparr>fv_size = 2, fv_data = [1, 2, 0 :: nat]\<rparr>)"
proof -
  have "fv_ok \<lparr>fv_size = 2, fv_data = [1, 2, 0 :: nat]\<rparr>" by (simp add: fv_ok_def fv_max_def)
  from fv_push_back_spec [OF this, of 9] show ?thesis
    by (simp add: fv_push_back_def fv_room_def fv_max_def fv_full_def)
qed

text \<open>\<^verbatim>\<open>erase(first, last)\<close> removes exactly the elements of the range, keeps the
  order of the others, returns \<open>fi\<close> and zeroes the vacated cells.\<close>

lemma fv_erase_range_spec:
  assumes "fv_ok v" "fi \<le> la" "la \<le> unat (fv_size v)"
  shows "fst (fv_erase_range z fi la v) = fi
    \<and> fv_items (snd (fv_erase_range z fi la v)) = take fi (fv_items v) @ drop la (fv_items v)
    \<and> drop (length (fv_items v) - (la - fi)) (fv_data (snd (fv_erase_range z fi la v)))
       = replicate (la - fi) z @ drop (unat (fv_size v)) (fv_data v)
    \<and> fv_ok (snd (fv_erase_range z fi la v))"
proof (cases "fi = la")
  case True
  have "take la (fv_items v) @ drop la (fv_items v) = fv_items v"
    by (rule append_take_drop_id)
  moreover have "length (fv_items v) = unat (fv_size v)" using assms by (simp add: fv_items_def fv_ok_def fv_max_def)
  ultimately show ?thesis using True assms by (simp add: fv_erase_range_def)
next
  case False
  let ?e = "unat (fv_size v)" and ?d = "fv_data v"
  let ?p = "fi + (?e - la)"
  let ?c = "take fi ?d @ take (?e - la) (drop la ?d) @ drop ?p ?d"
  have e: "?e \<le> length ?d" "?p < ?e" "?e < 2 ^ 32"
    using assms False by (auto simp: fv_ok_def fv_max_def)
  have c: "(if la \<noteq> ?e then copy_fwd (?e - la) la fi ?d else ?d) = ?c"
    using e assms by (auto simp: copy_fwd_eq)
  have lc: "length ?c = length ?d" "length (take fi ?d @ take (?e - la) (drop la ?d)) = ?p"
    using e assms(2,3) by auto
  have r0: "snd (fv_erase_range z fi la v) = v\<lparr>fv_data := fill_zero (unat (fv_size v - word_of_nat ?p)) ?p z
      (if la \<noteq> ?e then copy_fwd (?e - la) la fi ?d else ?d), fv_size := word_of_nat ?p\<rparr>"
    using False by (simp add: fv_erase_range_def fv_erase_at_end_def Let_def)
  have u: "unat (fv_size v - word_of_nat ?p) = ?e - ?p"
    using e by (intro unat_minus_small) simp
  have fz: "fill_zero (?e - ?p) ?p z ?c = take ?p ?c @ replicate (?e - ?p) z @ drop (?p + (?e - ?p)) ?c"
    using e lc(1) by (intro fill_zero_eq) simp
  have ep: "?p + (?e - ?p) = ?e" using e by simp
  have r: "snd (fv_erase_range z fi la v)
      = v\<lparr>fv_data := take ?p ?c @ replicate (?e - ?p) z @ drop ?e ?c, fv_size := word_of_nat ?p\<rparr>"
    unfolding r0 c u fz ep ..
  have p: "unat (word_of_nat ?p :: 32 word) = ?p" using e by (intro unat_w32) simp
  have "take ?p ?c = take fi ?d @ take (?e - la) (drop la ?d)" using lc(2) by simp
  moreover have "drop ?e ?c = drop ?e ?d" using e lc(2) by simp
  ultimately show ?thesis
    using False e lc(2) assms p unfolding r
    by (auto simp: fv_erase_range_def fv_items_def fv_ok_def fv_max_def drop_take Let_def)
qed

lemma fv_erase_range_spec_example:
  "fv_items (snd (fv_erase_range 0 1 3 \<lparr>fv_size = 4, fv_data = [5, 6, 7, 8, 1 :: nat]\<rparr>)) = [5, 8]
   \<and> fv_data (snd (fv_erase_range 0 1 3 \<lparr>fv_size = 4, fv_data = [5, 6, 7, 8, 1 :: nat]\<rparr>)) = [5, 8, 0, 0, 1]"
proof -
  have "fv_ok \<lparr>fv_size = 4, fv_data = [5, 6, 7, 8, 1 :: nat]\<rparr>" by (simp add: fv_ok_def fv_max_def)
  from fv_erase_range_spec [OF this, of 1 3 0]
  have "fv_items (snd (fv_erase_range 0 1 3 \<lparr>fv_size = 4, fv_data = [5, 6, 7, 8, 1 :: nat]\<rparr>)) = [5, 8]"
    by (simp add: fv_items_def)
  moreover have "fv_data (snd (fv_erase_range 0 1 3 \<lparr>fv_size = 4, fv_data = [5, 6, 7, 8, 1 :: nat]\<rparr>)) = [5, 8, 0, 0, 1]"
    by code_simp
  ultimately show ?thesis ..
qed

lemma fv_erase_items:
  assumes "fv_ok v" "position < unat (fv_size v)"
  shows "fv_items (snd (fv_erase position v)) = take position (fv_items v) @ drop (position + 1) (fv_items v)"
    and "fv_ok (snd (fv_erase position v))"
proof -
  let ?e = "unat (fv_size v)" and ?d = "fv_data v"
  have e: "?e \<le> length ?d" using assms by (auto simp: fv_ok_def fv_max_def)
  have u: "unat (fv_size v - 1) = ?e - 1" using assms(2) unat_minus_small [of 1 "fv_size v"] by simp
  have "fv_items (snd (fv_erase position v)) = take position ?d @ take (?e - (position + 1)) (drop (position + 1) ?d)"
  proof (cases "position + 1 = ?e")
    case True
    then show ?thesis using u by (simp add: fv_erase_def fv_items_def Let_def True [symmetric])
  next
    case False
    then show ?thesis using e assms(2) u by (simp add: fv_erase_def fv_items_def Let_def copy_fwd_eq)
  qed
  then show "fv_items (snd (fv_erase position v)) = take position (fv_items v) @ drop (position + 1) (fv_items v)"
    using assms(2) by (simp add: fv_items_def drop_take)
  show "fv_ok (snd (fv_erase position v))"
    using e assms u by (auto simp: fv_erase_def fv_ok_def fv_max_def Let_def copy_fwd_eq)
qed

lemma length_copy_fill [simp]: "length (copy_fwd n a b d) = length d" "length (fill_zero n a z d) = length d"
  by (induction n arbitrary: a b d) simp_all

lemma fv_max_erase [simp]:
  "fv_max (snd (fv_erase_range z fi la v)) = fv_max v" "fv_max (snd (fv_erase position v)) = fv_max v"
  by (auto simp: fv_erase_range_def fv_erase_at_end_def fv_erase_def fv_max_def Let_def)

lemma length_fv_items: "fv_ok v \<Longrightarrow> length (fv_items v) = unat (fv_size v)"
  by (simp add: fv_items_def fv_ok_def fv_max_def)

lemma fv_full_items: "fv_ok v \<Longrightarrow> fv_full v \<longleftrightarrow> length (fv_items v) = fv_max v"
  by (simp add: length_fv_items fv_full_def)

lemma fv_Add_push: "fv_Add z v = (if fv_room v then Some (unat (fv_size v)) else None, snd (fv_push_back z v))"
  by (simp add: fv_Add_def fv_push_back_def)

lemma fv_at_items: "fv_ok v \<Longrightarrow> fv_at v i = (if i < length (fv_items v) then Some (fv_items v ! i) else None)"
  by (simp add: length_fv_items) (simp add: fv_at_def fv_items_def)

lemma fv_resize_items:
  assumes "fv_ok v" "s \<le> length (fv_items v)"
  shows "\<exists>u. fv_resize s v = Some u \<and> fv_items u = take s (fv_items v) \<and> fv_ok u \<and> fv_max u = fv_max v"
proof -
  have s: "s \<le> fv_max v" "s \<le> unat (fv_size v)" "s < 2 ^ 32" using assms length_fv_items [OF assms(1)] by (auto simp: fv_ok_def)
  then have "unat (word_of_nat s :: 32 word) = s" by (simp add: unat_w32)
  with s assms(1) show ?thesis by (simp add: fv_resize_def fv_items_def fv_ok_def fv_max_def min_absorb1)
qed

section \<open>Iterators\<close>

text \<open>
  \<^verbatim>\<open>FixedVectorIterator\<close> wraps a pointer; the model keeps its distance from \<^verbatim>\<open>data_\<close>, which pointer
  arithmetic may make negative.  Reading outside of the array is \<^term>\<open>None\<close>.
\<close>

type_synonym fv_iter = int

definition fv_begin :: "'a fvec \<Rightarrow> fv_iter" where
  "fv_begin v = 0"

definition fv_end :: "'a fvec \<Rightarrow> fv_iter" where
  "fv_end v = int (unat (fv_size v))"

definition fvi_deref :: "'a fvec \<Rightarrow> fv_iter \<Rightarrow> 'a option" where
  "fvi_deref v it = do { cassert (0 \<le> it \<and> it < int (fv_max v)); Some (fv_data v ! nat it) }"

definition fvi_add :: "fv_iter \<Rightarrow> int \<Rightarrow> fv_iter" where
  "fvi_add it d = it + d"

definition fvi_sub :: "fv_iter \<Rightarrow> int \<Rightarrow> fv_iter" where
  "fvi_sub it d = it - d"

definition fvi_diff :: "fv_iter \<Rightarrow> fv_iter \<Rightarrow> int" where
  "fvi_diff a b = a - b"

definition fvi_at :: "'a fvec \<Rightarrow> fv_iter \<Rightarrow> int \<Rightarrow> 'a option" where
  "fvi_at v it d = fvi_deref v (fvi_add it d)"

text \<open>\<^verbatim>\<open>++it\<close> and \<^verbatim>\<open>--it\<close>; the postfix forms return the old iterator as well.\<close>

definition fvi_inc :: "fv_iter \<Rightarrow> fv_iter" where
  "fvi_inc it = it + 1"

definition fvi_dec :: "fv_iter \<Rightarrow> fv_iter" where
  "fvi_dec it = it - 1"

definition fvi_post_inc :: "fv_iter \<Rightarrow> fv_iter \<times> fv_iter" where
  "fvi_post_inc it = (it, fvi_inc it)"

definition fvi_post_dec :: "fv_iter \<Rightarrow> fv_iter \<times> fv_iter" where
  "fvi_post_dec it = (it, fvi_dec it)"

text \<open>The loops \<^verbatim>\<open>for (it = begin(); it != end(); ++it)\<close> and over \<^verbatim>\<open>rbegin()\<close>, \<^verbatim>\<open>rend()\<close>: a reverse
  iterator reads the element before its base.\<close>

partial_function (option) fv_visit :: "'a fvec \<Rightarrow> fv_iter \<Rightarrow> 'a list option" where
  "fv_visit v it =
     (if it = fv_end v then Some []
      else do { x \<leftarrow> fvi_deref v it; xs \<leftarrow> fv_visit v (fvi_inc it); Some (x # xs) })"

partial_function (option) fv_visit_back :: "'a fvec \<Rightarrow> fv_iter \<Rightarrow> 'a list option" where
  "fv_visit_back v it =
     (if it = fv_begin v then Some []
      else do { x \<leftarrow> fvi_deref v (fvi_dec it); xs \<leftarrow> fv_visit_back v (fvi_dec it); Some (x # xs) })"

lemma fv_visit_from:
  assumes "fv_ok v" "n \<le> unat (fv_size v)"
  shows "fv_visit v (fv_end v - int n) = Some (drop (unat (fv_size v) - n) (fv_items v))"
  using assms(2)
proof (induction n)
  case 0
  then show ?case by (subst fv_visit.simps) (simp add: fv_items_def)
next
  case (Suc n)
  define k where "k = unat (fv_size v) - Suc n"
  have k: "k < unat (fv_size v)" "k < fv_max v" "unat (fv_size v) = Suc n + k"
    using Suc.prems assms(1) by (auto simp: fv_ok_def k_def)
  have e: "fv_end v - int (Suc n) = int k" "fvi_inc (int k) = fv_end v - int n" "int k \<noteq> fv_end v"
    unfolding fv_end_def k(3) by (simp_all add: fvi_inc_def)
  have "drop k (fv_items v) = fv_data v ! k # drop (unat (fv_size v) - n) (fv_items v)"
    using k by (subst Cons_nth_drop_Suc [symmetric]) (auto simp: fv_items_def fv_max_def)
  moreover have "fv_visit v (fv_end v - int n) = Some (drop (unat (fv_size v) - n) (fv_items v))"
    using Suc by simp
  moreover have "fvi_deref v (int k) = Some (fv_data v ! k)" using k by (simp add: fvi_deref_def)
  ultimately show ?case unfolding e k_def [symmetric]
    by (subst fv_visit.simps) (simp add: e(2,3))
qed

lemma fv_visit_back_from:
  assumes "fv_ok v" "n \<le> unat (fv_size v)"
  shows "fv_visit_back v (int n) = Some (rev (take n (fv_items v)))"
  using assms(2)
proof (induction n)
  case 0
  then show ?case by (subst fv_visit_back.simps) (simp add: fv_begin_def)
next
  case (Suc n)
  have k: "n < fv_max v" using Suc.prems assms(1) by (auto simp: fv_ok_def)
  have "take (Suc n) (fv_items v) = take n (fv_items v) @ [fv_data v ! n]"
    using Suc.prems k by (subst take_Suc_conv_app_nth) (auto simp: fv_items_def fv_max_def)
  then show ?case using Suc k
    by (subst fv_visit_back.simps) (simp add: fvi_deref_def fvi_dec_def fv_begin_def)
qed

text \<open>Both loops end and see every element once, in the order of the vector and against it.\<close>

lemma fv_iteration:
  assumes "fv_ok v"
  shows "fv_visit v (fv_begin v) = Some (fv_items v)" "fv_visit_back v (fv_end v) = Some (rev (fv_items v))"
  using fv_visit_from [OF assms, of "unat (fv_size v)"] fv_visit_back_from [OF assms, of "unat (fv_size v)"]
  by (simp_all add: fv_begin_def fv_end_def fv_items_def)

section \<open>Runs\<close>

datatype 'a fv_op = VPush 'a | VAdd | VAt nat | VErase nat | VEraseRange nat nat | VResize nat | VClear

datatype 'a fv_res = VBool bool | VPos "nat option" | VVal 'a | VUnit

fun fv_step :: "'a \<Rightarrow> 'a fv_op \<Rightarrow> 'a fvec \<Rightarrow> ('a fv_res \<times> 'a fvec) option" where
  "fv_step z (VPush x) v = Some (case fv_push_back x v of (b, v) \<Rightarrow> (VBool b, v))"
| "fv_step z VAdd v = Some (case fv_Add z v of (p, v) \<Rightarrow> (VPos p, v))"
| "fv_step z (VAt i) v = do { x \<leftarrow> fv_at v i; Some (VVal x, v) }"
| "fv_step z (VErase p) v = Some (case fv_erase p v of (p, v) \<Rightarrow> (VPos (Some p), v))"
| "fv_step z (VEraseRange fi la) v = Some (case fv_erase_range z fi la v of (p, v) \<Rightarrow> (VPos (Some p), v))"
| "fv_step z (VResize s) v = do { v \<leftarrow> fv_resize s v; Some (VUnit, v) }"
| "fv_step z VClear v = Some (VUnit, fv_clear v)"

fun fv_run :: "'a \<Rightarrow> 'a fv_op list \<Rightarrow> 'a fvec \<Rightarrow> ('a fv_res list \<times> 'a fvec) option" where
  "fv_run z [] v = Some ([], v)"
| "fv_run z (u # us) v = do { (r, v) \<leftarrow> fv_step z u v; (rs, v) \<leftarrow> fv_run z us v; Some (r # rs, v) }"

text \<open>The same on a list of at most \<open>n\<close> elements; \<^term>\<open>None\<close> where the caller must not call.\<close>

fun fv_spec :: "nat \<Rightarrow> 'a \<Rightarrow> 'a fv_op \<Rightarrow> 'a list \<Rightarrow> ('a fv_res \<times> 'a list) option" where
  "fv_spec n z (VPush x) xs = Some (if length xs < n then (VBool True, xs @ [x]) else (VBool False, xs))"
| "fv_spec n z VAdd xs = Some (if length xs < n then (VPos (Some (length xs)), xs @ [z]) else (VPos None, xs))"
| "fv_spec n z (VAt i) xs = (if i < length xs then Some (VVal (xs ! i), xs) else None)"
| "fv_spec n z (VErase p) xs = (if p < length xs then Some (VPos (Some p), take p xs @ drop (p + 1) xs) else None)"
| "fv_spec n z (VEraseRange fi la) xs =
     (if fi \<le> la \<and> la \<le> length xs then Some (VPos (Some fi), take fi xs @ drop la xs) else None)"
| "fv_spec n z (VResize s) xs = (if s \<le> length xs then Some (VUnit, take s xs) else None)"
| "fv_spec n z VClear xs = Some (VUnit, [])"

fun fv_spec_run :: "nat \<Rightarrow> 'a \<Rightarrow> 'a fv_op list \<Rightarrow> 'a list \<Rightarrow> ('a fv_res list \<times> 'a list) option" where
  "fv_spec_run n z [] xs = Some ([], xs)"
| "fv_spec_run n z (u # us) xs = do { (r, xs) \<leftarrow> fv_spec n z u xs; (rs, xs) \<leftarrow> fv_spec_run n z us xs; Some (r # rs, xs) }"

lemma fv_step_refines:
  assumes ok: "fv_ok v" and spec: "fv_spec (fv_max v) z u (fv_items v) = Some (r, ys)"
  shows "\<exists>w. fv_step z u v = Some (r, w) \<and> fv_ok w \<and> fv_items w = ys \<and> fv_max w = fv_max v"
proof -
  have len: "length (fv_items v) = unat (fv_size v)" "length (fv_items v) \<le> fv_max v"
    using ok length_fv_items [OF ok] by (simp_all add: fv_ok_def)
  then have full: "fv_full v \<longleftrightarrow> \<not> length (fv_items v) < fv_max v" using fv_full_items [OF ok] by linarith
  show ?thesis
  proof (cases u)
    case (VPush x)
    with spec fv_push_back_spec [OF ok, of x] full show ?thesis by (cases "fv_push_back x v") (auto split: if_splits)
  next
    case VAdd
    with spec fv_push_back_spec [OF ok, of z] full len fv_room_iff [OF ok] show ?thesis
      by (cases "fv_push_back z v") (auto simp: fv_Add_push split: if_splits)
  next
    case (VAt i)
    with spec ok fv_at_items [OF ok] show ?thesis by (auto split: if_splits)
  next
    case (VErase p)
    with spec have p: "p < unat (fv_size v)" "r = VPos (Some p)" "ys = take p (fv_items v) @ drop (p + 1) (fv_items v)"
      using len by (auto split: if_splits)
    have "fst (fv_erase p v) = p" by (simp add: fv_erase_def Let_def)
    with VErase p fv_erase_items [OF ok p(1)] show ?thesis by (simp add: split_beta)
  next
    case (VEraseRange fi la)
    with spec have p: "fi \<le> la" "la \<le> unat (fv_size v)" "r = VPos (Some fi)" "ys = take fi (fv_items v) @ drop la (fv_items v)"
      using len by (auto split: if_splits)
    with VEraseRange fv_erase_range_spec [OF ok p(1,2), of z] show ?thesis by (simp add: split_beta)
  next
    case (VResize s)
    with spec fv_resize_items [OF ok, of s] show ?thesis by (auto split: if_splits)
  next
    case VClear
    with spec ok show ?thesis by (simp add: fv_clear_def fv_items_def fv_ok_def fv_max_def)
  qed
qed

text \<open>C39. As long as the caller keeps its indices and iterators in range (and does not resize above the size),
  every sequence of \<^verbatim>\<open>push_back\<close>, \<^verbatim>\<open>Add\<close>, element access, the two erasures, shrinking and
  \<^verbatim>\<open>clear\<close> on a vector whose capacity leaves the 32-bit size room asserts nowhere and gives the answers
  and the elements a list of at most that many elements would.\<close>

theorem fv_run_is_list:
  assumes "fv_ok v" "fv_spec_run (fv_max v) z us (fv_items v) = Some (rs, ys)"
  shows "\<exists>w. fv_run z us v = Some (rs, w) \<and> fv_ok w \<and> fv_items w = ys"
  using assms
proof (induction us arbitrary: v rs)
  case (Cons u us)
  from Cons.prems(2) obtain r xs rs' where s: "fv_spec (fv_max v) z u (fv_items v) = Some (r, xs)"
    "fv_spec_run (fv_max v) z us xs = Some (rs', ys)" "rs = r # rs'" by (auto split: Option.bind_splits)
  from fv_step_refines [OF Cons.prems(1) s(1)] obtain w where
    w: "fv_step z u v = Some (r, w)" "fv_ok w" "fv_items w = xs" "fv_max w = fv_max v" by blast
  with Cons.IH [OF w(2), of rs'] s show ?case by auto
qed simp

theorem fv_run_is_list_witness:
  "\<exists>w. fv_run 0 [VPush 5, VAdd, VPush 7, VPush 8, VPush 9, VErase 1, VAt 1, VEraseRange 0 2, VResize 1]
      \<lparr>fv_size = 0, fv_data = [1, 1, 1, 1 :: nat]\<rparr>
    = Some ([VBool True, VPos (Some 1), VBool True, VBool True, VBool False, VPos (Some 1), VVal 7, VPos (Some 0), VUnit], w)
    \<and> fv_items w = [8]"
proof -
  let ?v = "\<lparr>fv_size = 0, fv_data = [1, 1, 1, 1 :: nat]\<rparr>"
  have "fv_ok ?v" "fv_max ?v = 4" "fv_items ?v = []" by (simp_all add: fv_ok_def fv_max_def fv_items_def)
  with fv_run_is_list [of ?v 0 "[VPush 5, VAdd, VPush 7, VPush 8, VPush 9, VErase 1, VAt 1, VEraseRange 0 2, VResize 1]"]
  show ?thesis by auto
qed

end
