(* ===== verification/FixedMemPool.thy ===== *)
theory FixedMemPool
  imports Slots TraitsUtils
begin

unbundle bit_operations_syntax

text \<open>
  \<^verbatim>\<open>src/containers/fixed_mem_pool.h\<close>: the pool of equal-sized nodes in one block of
  memory.  The block is the header, the links (one more than the nodes), and the nodes; the state
  has the header's members, the links and the contents of the nodes.  A pointer is its address, a
  natural number; \<open>base\<close> is the address of the block.  \<open>z\<close> is the node content of zero bytes.
  Sizes are \<^verbatim>\<open>size_t\<close> and wrap where they are computed; the block lies in the address
  space, so addresses inside it do not.
\<close>

section \<open>Alignment\<close>

text \<open>\<^verbatim>\<open>(bytes + BLOCK_ALIGN - 1) & ~(BLOCK_ALIGN - 1)\<close>\<close>

definition fp_align_word :: "64 word \<Rightarrow> 64 word \<Rightarrow> 64 word" where
  "fp_align_word a bytes = (bytes + a - 1) AND NOT (a - 1)"

definition fp_align :: "nat \<Rightarrow> nat \<Rightarrow> nat" where
  "fp_align a bytes = unat (fp_align_word (word_of_nat a) (word_of_nat bytes))"

lemma and_pred_pow2:
  fixes n :: nat
  shows "0 < n \<Longrightarrow> n AND (n - 1) = 0 \<Longrightarrow> \<exists>k. n = 2 ^ k"
proof (induction n rule: less_induct)
  case (less n)
  show ?case
  proof (cases "even n")
    case True
    then obtain m where m: "n = 2 * m" "0 < m" using less.prems(1) by (auto elim: evenE)
    then have "n - 1 = 1 + 2 * (m - 1)" by (cases m) simp_all
    then have "n AND (n - 1) = 2 * (m AND (m - 1))"
      using m(1) by (subst and_nat_rec) (simp add: ac_simps)
    then have "m AND (m - 1) = 0" using less.prems(2) by simp
    with less.IH [of m] m obtain k where "m = 2 ^ k" by auto
    then show ?thesis using m(1) by (intro exI [of _ "Suc k"]) simp
  next
    case False
    then obtain m where m: "n = 2 * m + 1" by (auto elim: oddE)
    then have "n AND (n - 1) = 2 * (m AND m)"
      by (subst and_nat_rec) simp
    with less.prems(2) m have "n = 2 ^ 0" by simp
    then show ?thesis ..
  qed
qed

text \<open>\<^verbatim>\<open>IsPowOfTwo\<close> decides what its name says.\<close>

lemma is_pow_of_two_unat:
  assumes "is_pow_of_two w"
  shows "\<exists>k < 64. w = 2 ^ k"
proof -
  have nz: "w \<noteq> 0" and "w AND (w - 1) = 0" using assms by (auto simp: is_pow_of_two_def)
  then have "unat (w AND (w - 1)) = 0" by simp
  then have "unat w AND unat (w - 1) = 0" by (simp add: unsigned_and_eq)
  moreover have "unat (w - 1) = unat w - 1" using nz by (simp add: unat_minus_one)
  moreover have "0 < unat w" using nz by (simp add: unat_gt_0)
  ultimately obtain k where k: "unat w = 2 ^ k" using and_pred_pow2 by metis
  have "unat w < 2 ^ 64" by (rule order_less_le_trans [OF unsigned_less]) simp
  then have "k < 64" using k by (metis nat_power_less_imp_less zero_less_numeral)
  moreover have "w = word_of_nat (unat w)" by simp
  then have "w = 2 ^ k" by (simp add: k)
  ultimately show ?thesis by blast
qed

lemma and_not_mask: "unat (w AND NOT (mask k) :: 64 word) = unat w - unat w mod 2 ^ k"
proof -
  have "w = (w AND mask k) + (w AND NOT (mask k))"
    by (subst disjunctive_add) (auto simp: bit_simps intro!: bit_word_eqI)
  moreover have "w AND mask k = take_bit k w" by (simp add: take_bit_eq_mask)
  moreover have u: "unat (take_bit k w) = unat w mod 2 ^ k"
    by (simp only: unsigned_take_bit_eq) (simp only: take_bit_eq_mod)
  moreover have "w AND NOT (mask k) = w - take_bit k w" using calculation by (metis add_diff_cancel_left')
  moreover have "take_bit k w \<le> w" by (simp add: word_le_nat_alt u)
  ultimately show ?thesis by (metis unat_sub)
qed

lemma fp_align_eq:
  assumes "k < 64" "bytes + 2 ^ k \<le> 2 ^ 64"
  shows "fp_align (2 ^ k) bytes = (bytes + 2 ^ k - 1) div 2 ^ k * 2 ^ k"
proof -
  have p: "(2 :: nat) ^ k \<le> 2 ^ 63" using assms(1) by (intro power_increasing) auto
  have "word_of_nat bytes + word_of_nat (2 ^ k) - (1 :: 64 word) = word_of_nat (bytes + 2 ^ k - 1)"
    using of_nat_diff [of 1 "bytes + 2 ^ k", where 'a = "64 word"] by (simp add: one_le_power le_diff_conv2 trans_le_add2)
  moreover have "bytes + 2 ^ k - 1 < 2 ^ 64" using assms(2) by (simp add: less_le_trans)
  then have "unat (word_of_nat (bytes + 2 ^ k - 1) :: 64 word) = bytes + 2 ^ k - 1"
    by (simp add: unat_of_nat take_bit_nat_eq_self)
  moreover have "word_of_nat (2 ^ k) - (1 :: 64 word) = mask k" by (simp add: mask_eq_exp_minus_1)
  ultimately have "fp_align (2 ^ k) bytes = (bytes + 2 ^ k - 1) - (bytes + 2 ^ k - 1) mod 2 ^ k"
    unfolding fp_align_def fp_align_word_def by (simp add: and_not_mask)
  then show ?thesis by (simp add: minus_mod_eq_div_mult)
qed

lemma round_up:
  fixes n p :: nat
  assumes "0 < p"
  shows "n \<le> (n + p - 1) div p * p" "(n + p - 1) div p * p < n + p" "p dvd (n + p - 1) div p * p"
proof -
  have "(n + p - 1) div p * p + (n + p - 1) mod p = n + p - 1" by (rule div_mult_mod_eq)
  moreover have "(n + p - 1) mod p < p" using assms by simp
  ultimately show "n \<le> (n + p - 1) div p * p" "(n + p - 1) div p * p < n + p" using assms by linarith+
qed simp

section \<open>State and operations\<close>

record 'a pool =
  fp_version :: nat
  fp_mem_size :: nat
  fp_raw_t_size :: nat
  fp_t_size :: nat
  fp_max_num :: nat
  fp_used_num :: nat
  fp_raw_used_num :: nat
  fp_link_head_offset :: nat
  fp_value_offset :: nat
  fp_reclaim_list :: nat
  fp_magic_num :: nat
  fp_links :: "link list"
  fp_cells :: "'a list"

definition fp_HEADER_MAGIC_NUM :: nat where
  "fp_HEADER_MAGIC_NUM = 0x9E370001"

definition fp_VERSION :: nat where
  "fp_VERSION = 1"

definition fp_calc_need_size :: "nat \<Rightarrow> nat \<Rightarrow> nat \<Rightarrow> nat" where
  "fp_calc_need_size al max_node_num node_size =
     (fp_align al (88 + (max_node_num + 1) * 16) + max_node_num * fp_align al node_size) mod 2 ^ 64"

definition fp_init_header :: "nat \<Rightarrow> nat \<Rightarrow> nat \<Rightarrow> nat \<Rightarrow> nat \<Rightarrow> 'a pool \<Rightarrow> 'a pool" where
  "fp_init_header al block_size max_node_num node_size raw_node_size p =
     p\<lparr>fp_version := fp_VERSION, fp_mem_size := block_size, fp_raw_t_size := raw_node_size,
       fp_t_size := node_size, fp_max_num := max_node_num, fp_used_num := 0, fp_raw_used_num := 0,
       fp_link_head_offset := 88, fp_value_offset := fp_align al (88 + (max_node_num + 1) * 16),
       fp_reclaim_list := 0, fp_magic_num := fp_HEADER_MAGIC_NUM, fp_links := (fp_links p)[0 := link0]\<rparr>"

text \<open>\<open>mem\<close> is what the block holds, \<open>sizeof_T\<close> the size of the element type.\<close>

definition fp_init :: "nat \<Rightarrow> nat \<Rightarrow> 'a pool option \<Rightarrow> nat \<Rightarrow> nat \<Rightarrow> nat \<Rightarrow> bool \<Rightarrow> bool \<times> 'a pool option" where
  "fp_init al sizeof_T mem block_size max_node_num node_size check =
     (case mem of
        None \<Rightarrow> (False, None)
      | Some p \<Rightarrow>
          if node_size < sizeof_T then (False, mem)
          else
            let need_size = fp_calc_need_size al max_node_num node_size;
                real_node_size = fp_align al node_size
            in if need_size > block_size then (False, mem)
               else
                 let p = (if \<not> check then fp_init_header al need_size max_node_num real_node_size node_size p else p)
                 in (\<not> (fp_magic_num p \<noteq> fp_HEADER_MAGIC_NUM \<or> fp_version p \<noteq> fp_VERSION
                       \<or> fp_mem_size p \<noteq> need_size \<or> fp_max_num p \<noteq> max_node_num
                       \<or> fp_raw_t_size p \<noteq> node_size \<or> fp_t_size p \<noteq> real_node_size), Some p))"

definition fp_full :: "'a pool \<Rightarrow> bool" where
  "fp_full p \<longleftrightarrow> fp_used_num p \<ge> fp_max_num p"

definition fp_empty :: "'a pool \<Rightarrow> bool" where
  "fp_empty p \<longleftrightarrow> fp_used_num p = 0"

definition fp_size :: "'a pool \<Rightarrow> nat" where
  "fp_size p = fp_used_num p"

definition fp_clear :: "nat \<Rightarrow> nat \<Rightarrow> 'a pool \<Rightarrow> 'a pool option" where
  "fp_clear al sizeof_T p =
     snd (fp_init al sizeof_T (Some p) (fp_mem_size p) (fp_max_num p) (fp_raw_t_size p) False)"

definition fp_get_link :: "'a pool \<Rightarrow> nat \<Rightarrow> link option" where
  "fp_get_link p index = do { cassert (index \<le> fp_max_num p); Some (fp_links p ! index) }"

definition fp_addr :: "nat \<Rightarrow> 'a pool \<Rightarrow> nat \<Rightarrow> nat" where
  "fp_addr base p index = base + (fp_value_offset p + (index - 1) * fp_t_size p)"

definition fp_int_2_ptr :: "nat \<Rightarrow> 'a pool \<Rightarrow> nat \<Rightarrow> nat option" where
  "fp_int_2_ptr base p index =
     do { cassert (index > 0 \<and> index \<le> fp_max_num p); Some (fp_addr base p index) }"

definition fp_ptr_2_int :: "nat \<Rightarrow> 'a pool \<Rightarrow> nat \<Rightarrow> nat" where
  "fp_ptr_2_int base p a =
     (if a < base + fp_value_offset p then 0
      else let offset = a - base - fp_value_offset p
           in if offset mod fp_t_size p \<noteq> 0 then 0 else offset div fp_t_size p + 1)"

text \<open>The statements of \<^verbatim>\<open>alloc\<close> that put the node in front, in their order.\<close>

definition fp_link_in :: "link list \<Rightarrow> nat \<Rightarrow> link list" where
  "fp_link_in m index =
     (let nxt = nx m 0;
          m = set_next m index (nx m 0);
          m = set_prev m index 0;
          m = set_prev m nxt index
      in set_next m 0 index)"

definition fp_alloc :: "'a \<Rightarrow> nat \<Rightarrow> bool \<Rightarrow> 'a pool \<Rightarrow> (nat option \<times> 'a pool) option" where
  "fp_alloc z base zero p =
     (if fp_full p then Some (None, p)
      else do {
        (index, p) \<leftarrow>
          (if fp_reclaim_list p \<noteq> 0 then
             do { node \<leftarrow> fp_get_link p (fp_reclaim_list p);
                  Some (fp_reclaim_list p, p\<lparr>fp_reclaim_list := lk_next node\<rparr>) }
           else
             do { cassert (fp_raw_used_num p < fp_max_num p);
                  _ \<leftarrow> fp_get_link p (fp_raw_used_num p + 1);
                  Some (fp_raw_used_num p + 1, p\<lparr>fp_raw_used_num := fp_raw_used_num p + 1\<rparr>) });
        cassert (index > 0);
        head \<leftarrow> fp_get_link p 0;
        _ \<leftarrow> fp_get_link p (lk_next head);
        let p = p\<lparr>fp_links := fp_link_in (fp_links p) index, fp_used_num := fp_used_num p + 1\<rparr>;
        a \<leftarrow> fp_int_2_ptr base p index;
        Some (Some a, if zero then p\<lparr>fp_cells := (fp_cells p)[index - 1 := z]\<rparr> else p) })"

text \<open>The statements of \<^verbatim>\<open>free\<close> from the unlinking on.\<close>

definition fp_release :: "nat \<Rightarrow> 'a pool \<Rightarrow> 'a pool" where
  "fp_release index p =
     (let m = fp_links p;
          prev = pv m index; nxt = nx m index;
          m = set_next m prev (nx m index);
          m = set_prev m nxt (pv m index);
          m = set_prev m index (fp_max_num p + 1);
          m = set_next m index (fp_reclaim_list p)
      in p\<lparr>fp_links := m, fp_reclaim_list := index, fp_used_num := fp_used_num p - 1\<rparr>)"

definition fp_free :: "nat \<Rightarrow> nat \<Rightarrow> 'a pool \<Rightarrow> (bool \<times> 'a pool) option" where
  "fp_free base a p =
     (if fp_empty p then Some (False, p)
      else let index = fp_ptr_2_int base p a
      in if index = 0 \<or> index > fp_max_num p then Some (False, p)
      else if index > fp_raw_used_num p then Some (False, p)
      else do {
        del \<leftarrow> fp_get_link p index;
        if lk_prev del > fp_max_num p then Some (False, p)
        else do {
          _ \<leftarrow> fp_get_link p (lk_prev del);
          _ \<leftarrow> fp_get_link p (lk_next del);
          Some (True, fp_release index p) } })"

text \<open>The iterator: \<^verbatim>\<open>begin()\<close>, \<^verbatim>\<open>++\<close> and \<^verbatim>\<open>--\<close>.\<close>

definition fp_begin :: "'a pool \<Rightarrow> nat" where
  "fp_begin p = nx (fp_links p) 0"

definition fp_iter_next :: "'a pool \<Rightarrow> nat \<Rightarrow> nat option" where
  "fp_iter_next p i =
     do { node \<leftarrow> fp_get_link p i; cassert (lk_prev node \<le> fp_max_num p); Some (lk_next node) }"

definition fp_iter_prev :: "'a pool \<Rightarrow> nat \<Rightarrow> nat option" where
  "fp_iter_prev p i =
     do { node \<leftarrow> fp_get_link p i; cassert (lk_prev node \<le> fp_max_num p); Some (lk_prev node) }"

section \<open>Invariant\<close>

definition fp_order :: "'a pool \<Rightarrow> nat list" where
  "fp_order p = walk (nx (fp_links p)) (nx (fp_links p) 0) (fp_used_num p)"

definition fp_frees :: "'a pool \<Rightarrow> nat list" where
  "fp_frees p = walk (nx (fp_links p)) (fp_reclaim_list p) (fp_raw_used_num p - fp_used_num p)"

definition fp_rep :: "'a pool \<Rightarrow> nat list \<Rightarrow> nat list \<Rightarrow> bool" where
  "fp_rep p xs fs \<longleftrightarrow> slots (fp_links p) (fp_reclaim_list p) (fp_raw_used_num p) xs fs
     \<and> fp_used_num p = length xs \<and> fp_raw_used_num p \<le> fp_max_num p
     \<and> fp_max_num p < length (fp_links p) \<and> fp_max_num p \<le> length (fp_cells p)
     \<and> (\<forall>f \<in> set fs. pv (fp_links p) f = fp_max_num p + 1) \<and> 0 < fp_t_size p"

definition fp_ok :: "'a pool \<Rightarrow> bool" where
  "fp_ok p \<longleftrightarrow> fp_rep p (fp_order p) (fp_frees p)"

text \<open>The addresses of the nodes a client holds, and the content of a node.\<close>

definition fp_allocated :: "nat \<Rightarrow> 'a pool \<Rightarrow> nat set" where
  "fp_allocated base p = fp_addr base p ` set (fp_order p)"

definition fp_content :: "nat \<Rightarrow> 'a pool \<Rightarrow> nat \<Rightarrow> 'a" where
  "fp_content base p a = fp_cells p ! (fp_ptr_2_int base p a - 1)"

text \<open>What does not change after \<^verbatim>\<open>init\<close>.\<close>

definition fp_same_layout :: "'a pool \<Rightarrow> 'a pool \<Rightarrow> bool" where
  "fp_same_layout p q \<longleftrightarrow> fp_version q = fp_version p \<and> fp_mem_size q = fp_mem_size p
     \<and> fp_raw_t_size q = fp_raw_t_size p \<and> fp_t_size q = fp_t_size p \<and> fp_max_num q = fp_max_num p
     \<and> fp_link_head_offset q = fp_link_head_offset p \<and> fp_value_offset q = fp_value_offset p
     \<and> fp_magic_num q = fp_magic_num p"

lemma fp_rep_order: "fp_rep p xs fs \<Longrightarrow> fp_order p = xs"
  and fp_rep_frees: "fp_rep p xs fs \<Longrightarrow> fp_frees p = fs"
proof -
  assume r: "fp_rep p xs fs"
  then show "fp_order p = xs" by (auto simp: fp_rep_def fp_order_def intro: dll_walk slots_dll)
  have "length fs = fp_raw_used_num p - fp_used_num p"
    using slots_length [of "fp_links p" "fp_reclaim_list p" "fp_raw_used_num p" xs fs] r
    by (simp add: fp_rep_def)
  then show "fp_frees p = fs"
    using chain_walk [OF slots_chain, of "fp_links p" "fp_reclaim_list p" "fp_raw_used_num p" xs fs] r
    by (simp add: fp_frees_def fp_rep_def)
qed

lemma fp_rep_ok: "fp_rep p xs fs \<Longrightarrow> fp_ok p"
  by (simp add: fp_ok_def fp_rep_order fp_rep_frees)

lemma fp_ok_rep: "fp_ok p \<Longrightarrow> fp_rep p (fp_order p) (fp_frees p)"
  by (simp add: fp_ok_def)

lemma fp_rep_slot:
  assumes "fp_rep p xs fs" "x \<in> set xs"
  shows "0 < x" "x \<le> fp_raw_used_num p" "x \<le> fp_max_num p"
  using slots_used_bounds [of "fp_links p" "fp_reclaim_list p" "fp_raw_used_num p" xs fs x] assms
  by (auto simp: fp_rep_def)

text \<open>Round trip between indices and addresses.\<close>

lemma fp_ptr_addr:
  assumes "0 < fp_t_size p" "0 < i"
  shows "fp_ptr_2_int base p (fp_addr base p i) = i"
  using assms by (simp add: fp_ptr_2_int_def fp_addr_def Let_def)

lemma fp_addr_ptr:
  assumes "fp_ptr_2_int base p a \<noteq> 0" "0 < fp_t_size p"
  shows "fp_addr base p (fp_ptr_2_int base p a) = a"
proof -
  have ge: "base + fp_value_offset p \<le> a" and m: "(a - base - fp_value_offset p) mod fp_t_size p = 0"
    using assms(1) by (auto simp: fp_ptr_2_int_def Let_def split: if_splits)
  then have "(a - base - fp_value_offset p) div fp_t_size p * fp_t_size p = a - base - fp_value_offset p"
    by auto
  then show ?thesis using ge m by (simp add: fp_ptr_2_int_def fp_addr_def Let_def)
qed

lemma fp_addr_inj: "0 < fp_t_size p \<Longrightarrow> 0 < i \<Longrightarrow> 0 < j \<Longrightarrow> fp_addr base p i = fp_addr base p j \<Longrightarrow> i = j"
  by (metis fp_ptr_addr)

section \<open>Each operation on the representation\<close>

lemma fp_link_in_maps:
  assumes "0 < length m" "nx m 0 < length m" "i < length m" "i \<noteq> 0" "nx m 0 \<noteq> i"
  shows "nx (fp_link_in m i) = (nx m)(0 := i, i := nx m 0)"
    and "pv (fp_link_in m i) = (pv m)(nx m 0 := i, i := 0)"
    and "length (fp_link_in m i) = length m"
  using assms by (auto simp: fp_link_in_def Let_def link_simps fun_eq_iff)

lemma fp_link_in_slots:
  assumes "spare m i fh raw xs fs"
  shows "slots (fp_link_in m i) fh raw (i # xs) fs" "length (fp_link_in m i) = length m"
    "\<forall>f \<in> set fs. pv (fp_link_in m i) f = pv m f" "nx m 0 \<le> raw"
proof -
  note b = spare_bounds [OF assms]
  have d: "dll m xs" using assms by (simp add: spare_def)
  have h: "nx m 0 = hd (xs @ [0])" by (rule dll_first [OF d])
  have r: "0 < length m" "nx m 0 < length m"
    using dll_length_pos [OF d] dll_ends_in_range [of m "[]" xs] d h by auto
  have hin: "nx m 0 \<in> insert 0 (set xs)" using h by (cases xs) auto
  then have ne: "nx m 0 \<noteq> i" using b by auto
  note maps = fp_link_in_maps [OF r _ _ ne] and mapsf = link_front_maps [OF r]
  have m: "nx (fp_link_in m i) = nx (link_front m i)" "pv (fp_link_in m i) = pv (link_front m i)"
    "length (fp_link_in m i) = length m"
    using maps mapsf b by simp_all
  then show "length (fp_link_in m i) = length m" by simp
  have "fp_link_in m i = link_front m i"
    using m by (intro nth_equalityI) (auto simp: fun_eq_iff nx_def pv_def intro!: link.equality)
  then show "slots (fp_link_in m i) fh raw (i # xs) fs" using spare_front [OF assms] by simp
  have "nx m 0 \<notin> set fs" using hin assms chain_0_notin [of "nx m" fh fs] by (auto simp: spare_def)
  then show "\<forall>f \<in> set fs. pv (fp_link_in m i) f = pv m f"
    using maps b by auto
  show "nx m 0 \<le> raw" using hin assms by (auto simp: spare_def)
qed

lemma fp_take:
  assumes r: "fp_rep p xs fs" and nf: "\<not> fp_full p"
  shows "\<exists>i q fs'. (if fp_reclaim_list p \<noteq> 0 then
             do { node \<leftarrow> fp_get_link p (fp_reclaim_list p);
                  Some (fp_reclaim_list p, p\<lparr>fp_reclaim_list := lk_next node\<rparr>) }
           else
             do { cassert (fp_raw_used_num p < fp_max_num p);
                  _ \<leftarrow> fp_get_link p (fp_raw_used_num p + 1);
                  Some (fp_raw_used_num p + 1, p\<lparr>fp_raw_used_num := fp_raw_used_num p + 1\<rparr>) }) = Some (i, q)
    \<and> spare (fp_links p) i (fp_reclaim_list q) (fp_raw_used_num q) xs fs' \<and> set fs' \<subseteq> set fs
    \<and> fp_raw_used_num q \<le> fp_max_num p
    \<and> q = p\<lparr>fp_reclaim_list := fp_reclaim_list q, fp_raw_used_num := fp_raw_used_num q\<rparr>"
proof -
  have sl: "slots (fp_links p) (fp_reclaim_list p) (fp_raw_used_num p) xs fs" using r by (simp add: fp_rep_def)
  show ?thesis
  proof (cases "fp_reclaim_list p = 0")
    case True
    have "fs = []" using chain_start_0 [OF slots_chain [OF sl]] True by simp
    then have lt: "fp_raw_used_num p < fp_max_num p"
      using slots_length [OF sl] r nf by (simp add: fp_rep_def fp_full_def)
    then have "spare (fp_links p) (fp_raw_used_num p + 1) (fp_reclaim_list p) (fp_raw_used_num p + 1) xs []"
      using slots_take_raw(2) [OF sl True] r by (simp add: fp_rep_def)
    with True lt show ?thesis
      by (intro exI [of _ "fp_raw_used_num p + 1"] exI [of _ "p\<lparr>fp_raw_used_num := fp_raw_used_num p + 1\<rparr>"]
          exI [of _ "[]"]) (simp add: fp_get_link_def)
  next
    case False
    note tf = slots_take_free [OF sl False]
    have "fp_reclaim_list p \<in> set fs" using tf(1) by (metis list.set_intros(1))
    then have "fp_reclaim_list p \<in> {1..fp_raw_used_num p}" using slots_set [OF sl] by blast
    then have "fp_reclaim_list p \<le> fp_max_num p" "fp_raw_used_num p \<le> fp_max_num p" using r by (auto simp: fp_rep_def)
    moreover have "set (tl fs) \<subseteq> set fs" using tf(1) by (metis set_subset_Cons)
    ultimately show ?thesis using False tf(2)
      by (intro exI [of _ "fp_reclaim_list p"]
          exI [of _ "p\<lparr>fp_reclaim_list := nx (fp_links p) (fp_reclaim_list p)\<rparr>"] exI [of _ "tl fs"])
        (simp add: fp_get_link_def nx_def)
  qed
qed

lemma fp_same_layout_addr: "fp_same_layout p q \<Longrightarrow> fp_addr base q = fp_addr base p"
  by (simp add: fp_same_layout_def fp_addr_def fun_eq_iff)

lemma fp_same_layout_ptr: "fp_same_layout p q \<Longrightarrow> fp_ptr_2_int base q = fp_ptr_2_int base p"
  by (simp add: fp_same_layout_def fp_ptr_2_int_def fun_eq_iff Let_def)

lemma fp_alloc_step:
  assumes ok: "fp_ok p" and nf: "\<not> fp_full p"
  shows "\<exists>i q. fp_alloc z base zero p = Some (Some (fp_addr base p i), q) \<and> fp_ok q \<and> fp_same_layout p q
    \<and> fp_order q = i # fp_order p \<and> i \<notin> set (fp_order p) \<and> 0 < i \<and> i \<le> fp_max_num p
    \<and> fp_cells q = (if zero then (fp_cells p)[i - 1 := z] else fp_cells p)"
proof -
  note r = fp_ok_rep [OF ok]
  obtain i q fs' where q: "(if fp_reclaim_list p \<noteq> 0 then
             do { node \<leftarrow> fp_get_link p (fp_reclaim_list p);
                  Some (fp_reclaim_list p, p\<lparr>fp_reclaim_list := lk_next node\<rparr>) }
           else
             do { cassert (fp_raw_used_num p < fp_max_num p);
                  _ \<leftarrow> fp_get_link p (fp_raw_used_num p + 1);
                  Some (fp_raw_used_num p + 1, p\<lparr>fp_raw_used_num := fp_raw_used_num p + 1\<rparr>) }) = Some (i, q)"
    and sp: "spare (fp_links p) i (fp_reclaim_list q) (fp_raw_used_num q) (fp_order p) fs'"
    and sub: "set fs' \<subseteq> set (fp_frees p)" and rw: "fp_raw_used_num q \<le> fp_max_num p"
    and qe: "q = p\<lparr>fp_reclaim_list := fp_reclaim_list q, fp_raw_used_num := fp_raw_used_num q\<rparr>"
    using fp_take [OF r nf] by blast
  have qf: "fp_links q = fp_links p" "fp_max_num q = fp_max_num p" "fp_used_num q = fp_used_num p"
    "fp_cells q = fp_cells p" "fp_addr base q = fp_addr base p" "fp_t_size q = fp_t_size p" "fp_same_layout p q"
    "fp_value_offset q = fp_value_offset p"
    by (subst qe, simp add: fp_addr_def fun_eq_iff fp_same_layout_def)+
  note li = fp_link_in_slots [OF sp] and b = spare_bounds [OF sp]
  define u where "u = q\<lparr>fp_links := fp_link_in (fp_links q) i, fp_used_num := fp_used_num q + 1\<rparr>"
  define t where "t = (if zero then u\<lparr>fp_cells := (fp_cells u)[i - 1 := z]\<rparr> else u)"
  have ib: "0 < i" "i \<le> fp_max_num p" using b rw by auto
  have "nx (fp_links p) 0 \<le> fp_max_num p" using li(4) rw by simp
  then have "fp_alloc z base zero p = Some (Some (fp_addr base p i), t)"
    unfolding fp_alloc_def q using nf ib
    by (simp add: fp_get_link_def qf nx_def fp_int_2_ptr_def t_def u_def) (simp add: fp_addr_def qf)
  moreover have "fp_rep t (i # fp_order p) fs'"
    using li(1,2,3) r sub rw unfolding fp_rep_def t_def u_def by (auto simp: qf)
  moreover have "fp_same_layout p t" using qf(7) by (simp add: t_def u_def fp_same_layout_def)
  ultimately show ?thesis using ib b fp_rep_ok fp_rep_order qf(4)
    by (intro exI [of _ i] exI [of _ t]) (auto simp: t_def u_def)
qed

lemma fp_release_step:
  assumes ok: "fp_ok p" and i: "i \<in> set (fp_order p)"
  shows "fp_ok (fp_release i p)" "fp_same_layout p (fp_release i p)"
    "set (fp_order (fp_release i p)) = set (fp_order p) - {i}" "fp_cells (fp_release i p) = fp_cells p"
    "length (fp_order (fp_release i p)) = length (fp_order p) - 1"
proof -
  note r = fp_ok_rep [OF ok]
  let ?m = "fp_links p"
  obtain ys zs where o: "fp_order p = ys @ i # zs" using i by (meson split_list)
  have sl: "slots ?m (fp_reclaim_list p) (fp_raw_used_num p) (ys @ i # zs) (fp_frees p)"
    using r o by (simp add: fp_rep_def)
  have h: "nx ?m i = hd (zs @ [0])" "pv ?m i = last (0 # ys)"
    using dll_nx [OF slots_dll [OF sl]] dll_pv [OF slots_dll [OF sl]] by auto
  have b: "i < length ?m" "last (0 # ys) < length ?m" "hd (zs @ [0]) < length ?m" "0 < i"
    using slots_used_bounds [OF sl, of i] slots_ends_in_range [of ?m _ _ ys "i # zs"]
      slots_ends_in_range [of ?m _ _ "ys @ [i]" zs] sl by auto
  define m where "m = set_next (set_prev (set_prev (set_next ?m (last (0 # ys)) (hd (zs @ [0])))
    (hd (zs @ [0])) (last (0 # ys))) i (fp_max_num p + 1)) i (fp_reclaim_list p)"
  have rel: "fp_release i p = p\<lparr>fp_links := m, fp_reclaim_list := i, fp_used_num := fp_used_num p - 1\<rparr>"
    using b h by (simp add: fp_release_def Let_def m_def link_simps)
  have maps: "length m = length ?m" "nx m = (nx ?m)(last (0 # ys) := hd (zs @ [0]), i := fp_reclaim_list p)"
    "pv m = (pv ?m)(hd (zs @ [0]) := last (0 # ys), i := fp_max_num p + 1)"
    using b by (simp_all add: m_def link_simps del: last.simps)
  have sl': "slots m i (fp_raw_used_num p) (ys @ zs) (i # fp_frees p)"
    by (rule slots_release [OF sl maps(1)]) (simp_all add: maps(2,3) del: last.simps)
  have "hd (zs @ [0]) \<in> insert 0 (set zs)" by (cases zs) auto
  moreover have "0 \<notin> set (fp_frees p)" using chain_0_notin [OF slots_chain [OF sl]] .
  ultimately have "hd (zs @ [0]) \<notin> set (fp_frees p)" using slots_distinct [OF sl] by auto
  then have "\<forall>f \<in> set (i # fp_frees p). pv m f = fp_max_num p + 1"
    using r by (simp add: maps(3) fp_rep_def del: last.simps)
  then have rep: "fp_rep (fp_release i p) (ys @ zs) (i # fp_frees p)"
    using sl' r o maps(1) by (simp add: fp_rep_def rel)
  show "fp_ok (fp_release i p)" by (rule fp_rep_ok [OF rep])
  show "fp_same_layout p (fp_release i p)" "fp_cells (fp_release i p) = fp_cells p"
    by (simp_all add: rel fp_same_layout_def)
  have "i \<notin> set ys" "i \<notin> set zs" using slots_distinct [OF sl] by auto
  then show "set (fp_order (fp_release i p)) = set (fp_order p) - {i}"
    "length (fp_order (fp_release i p)) = length (fp_order p) - 1"
    using fp_rep_order [OF rep] o by auto
qed

text \<open>\<^verbatim>\<open>free\<close> accepts exactly the addresses of nodes in use.\<close>

lemma fp_free_step:
  assumes ok: "fp_ok p"
  shows "fp_free base a p = Some (if a \<in> fp_allocated base p
    then (True, fp_release (fp_ptr_2_int base p a) p) else (False, p))"
proof -
  note r = fp_ok_rep [OF ok]
  have t: "0 < fp_t_size p" using r by (simp add: fp_rep_def)
  let ?i = "fp_ptr_2_int base p a"
  have mem: "a \<in> fp_allocated base p \<longleftrightarrow> ?i \<in> set (fp_order p)"
  proof
    assume "a \<in> fp_allocated base p"
    then obtain x where x: "x \<in> set (fp_order p)" "a = fp_addr base p x" by (auto simp: fp_allocated_def)
    with fp_ptr_addr [OF t fp_rep_slot(1) [OF r x(1)]] show "?i \<in> set (fp_order p)" by simp
  next
    assume i: "?i \<in> set (fp_order p)"
    then have "?i \<noteq> 0" using fp_rep_slot(1) [OF r i] by simp
    from fp_addr_ptr [OF this t] i show "a \<in> fp_allocated base p" unfolding fp_allocated_def by (metis imageI)
  qed
  have sl: "slots (fp_links p) (fp_reclaim_list p) (fp_raw_used_num p) (fp_order p) (fp_frees p)"
    using r by (simp add: fp_rep_def)
  show ?thesis
  proof (cases "?i \<in> set (fp_order p)")
    case True
    obtain ys zs where o: "fp_order p = ys @ ?i # zs" using True by (meson split_list)
    have h: "nx (fp_links p) ?i = hd (zs @ [0])" "pv (fp_links p) ?i = last (0 # ys)"
      using dll_nx dll_pv slots_dll [OF sl] o by metis+
    have e: "hd (zs @ [0]) \<in> insert 0 (set (fp_order p))" "last (0 # ys) \<in> insert 0 (set (fp_order p))"
      using o last_in_set [of "0 # ys"] by (cases zs; auto)+
    have le: "x \<le> fp_max_num p" if "x \<in> insert 0 (set (fp_order p))" for x
      using that fp_rep_slot(3) [OF r] by auto
    note le [OF e(1)] le [OF e(2)]
    moreover have "0 < fp_used_num p" using r True by (auto simp: fp_rep_def dest: length_pos_if_in_set)
    ultimately show ?thesis using True mem fp_rep_slot [OF r True] h
      by (simp add: fp_free_def fp_empty_def fp_get_link_def nx_def pv_def Let_def)
  next
    case False
    have "?i = 0 \<or> fp_max_num p < ?i \<or> fp_raw_used_num p < ?i \<or> fp_max_num p < pv (fp_links p) ?i"
    proof (cases "?i \<in> {1..fp_raw_used_num p}")
      case True
      then have "?i \<in> set (fp_frees p)" using slots_set [OF sl] False by blast
      then show ?thesis using r by (simp add: fp_rep_def)
    qed auto
    then show ?thesis using False mem
      by (auto simp: fp_free_def fp_get_link_def pv_def Let_def)
  qed
qed

lemma fp_ok_used:
  assumes "fp_ok p"
  shows "fp_used_num p = card (set (fp_order p))" "fp_used_num p \<le> fp_max_num p"
proof -
  note r = fp_ok_rep [OF assms]
  have sl: "slots (fp_links p) (fp_reclaim_list p) (fp_raw_used_num p) (fp_order p) (fp_frees p)"
    using r by (simp add: fp_rep_def)
  show "fp_used_num p = card (set (fp_order p))"
    using slots_distinct [OF sl] r by (simp add: fp_rep_def distinct_card)
  show "fp_used_num p \<le> fp_max_num p" using slots_length [OF sl] r by (simp add: fp_rep_def)
qed

lemma fp_alloc_full:
  assumes "fp_ok p" "fp_full p"
  shows "fp_alloc z base zero p = Some (None, p)"
  using assms(2) by (simp add: fp_alloc_def)

section \<open>Creating and attaching\<close>

lemma fp_align_bounds:
  assumes "is_pow_of_two (word_of_nat al)" "al < 2 ^ 64" "bytes + al \<le> 2 ^ 64"
  shows "bytes \<le> fp_align al bytes" "fp_align al bytes < bytes + al" "al dvd fp_align al bytes" "0 < al"
proof -
  obtain k where k: "k < 64" "word_of_nat al = (2 :: 64 word) ^ k" using is_pow_of_two_unat [OF assms(1)] by blast
  have "(2 :: nat) ^ k < 2 ^ 64" using k(1) by (intro power_strict_increasing) auto
  then have "unat (word_of_nat (2 ^ k) :: 64 word) = 2 ^ k" by (simp only: unat_of_nat take_bit_nat_eq_self len_num0 len_bit0 len_num1)
      (simp add: take_bit_nat_eq_self)
  then have "unat ((2 :: 64 word) ^ k) = 2 ^ k" by simp
  moreover have "unat (word_of_nat al :: 64 word) = al" using assms(2) by (simp add: unat_of_nat take_bit_nat_eq_self)
  ultimately have al: "al = 2 ^ k" using k(2) by metis
  have e: "fp_align al bytes = (bytes + al - 1) div al * al"
    using fp_align_eq [OF k(1), of bytes] assms(3) al by simp
  show p: "0 < al" using al by simp
  from round_up [OF p, of bytes] e
  show "bytes \<le> fp_align al bytes" "fp_align al bytes < bytes + al" "al dvd fp_align al bytes" by simp_all
qed

lemma fp_init_ok:
  assumes "fp_max_num p < length (fp_links p)" "fp_max_num p \<le> length (fp_cells p)" "0 < fp_t_size p"
    "fp_used_num p = 0" "fp_raw_used_num p = 0" "fp_reclaim_list p = 0" "fp_links p ! 0 = link0"
  shows "fp_ok p" "fp_order p = []"
proof -
  have "(fp_links p)[0 := link0] = fp_links p" using assms(7) by (metis list_update_id)
  moreover have "0 < length (fp_links p)" using assms(1) by linarith
  ultimately have "slots (fp_links p) 0 0 [] []" using slots_empty [of "fp_links p"] by metis
  then have r: "fp_rep p [] []" using assms by (simp add: fp_rep_def)
  show "fp_ok p" by (rule fp_rep_ok [OF r])
  show "fp_order p = []" by (rule fp_rep_order [OF r])
qed

section \<open>A client of the pool\<close>

datatype fp_op = Alloc bool | Free nat
datatype fp_res = RAlloc "nat option" | RFree bool

fun fp_step :: "'a \<Rightarrow> nat \<Rightarrow> fp_op \<Rightarrow> 'a pool \<Rightarrow> (fp_res \<times> 'a pool) option" where
  "fp_step z base (Alloc zero) p = map_option (\<lambda>(a, p). (RAlloc a, p)) (fp_alloc z base zero p)"
| "fp_step z base (Free a) p = map_option (\<lambda>(b, p). (RFree b, p)) (fp_free base a p)"

fun fp_run :: "'a \<Rightarrow> nat \<Rightarrow> fp_op list \<Rightarrow> 'a pool \<Rightarrow> (fp_res list \<times> 'a pool) option" where
  "fp_run z base [] p = Some ([], p)"
| "fp_run z base (x # xs) p =
     do { (r, p) \<leftarrow> fp_step z base x p; (rs, p) \<leftarrow> fp_run z base xs p; Some (r # rs, p) }"

text \<open>What a client may see of a pool of \<open>n\<close> nodes of which it holds those at \<open>live\<close>.\<close>

fun fp_legal :: "nat \<Rightarrow> nat set \<Rightarrow> fp_op list \<Rightarrow> fp_res list \<Rightarrow> bool" where
  "fp_legal n live [] [] \<longleftrightarrow> True"
| "fp_legal n live (Alloc _ # xs) (RAlloc None # rs) \<longleftrightarrow> card live = n \<and> fp_legal n live xs rs"
| "fp_legal n live (Alloc _ # xs) (RAlloc (Some a) # rs) \<longleftrightarrow>
     card live < n \<and> a \<notin> live \<and> fp_legal n (insert a live) xs rs"
| "fp_legal n live (Free a # xs) (RFree b # rs) \<longleftrightarrow>
     b = (a \<in> live) \<and> fp_legal n (if b then live - {a} else live) xs rs"
| "fp_legal n live _ _ \<longleftrightarrow> False"

lemma fp_allocated_card:
  assumes "fp_ok p"
  shows "finite (fp_allocated base p)" "card (fp_allocated base p) = fp_used_num p"
proof -
  note r = fp_ok_rep [OF assms]
  have "0 < fp_t_size p" using r by (simp add: fp_rep_def)
  then have "inj_on (fp_addr base p) (set (fp_order p))"
    using fp_rep_slot(1) [OF r] by (intro inj_onI) (blast intro: fp_addr_inj)
  then show "card (fp_allocated base p) = fp_used_num p"
    using fp_ok_used [OF assms] by (simp add: fp_allocated_def card_image)
qed (simp add: fp_allocated_def)

lemma fp_alloc_allocated:
  assumes ok: "fp_ok p" and nf: "\<not> fp_full p"
  shows "\<exists>a q. fp_alloc z base zero p = Some (Some a, q) \<and> fp_ok q \<and> fp_same_layout p q
    \<and> a \<notin> fp_allocated base p \<and> fp_allocated base q = insert a (fp_allocated base p)"
proof -
  note r = fp_ok_rep [OF ok]
  have t: "0 < fp_t_size p" using r by (simp add: fp_rep_def)
  from fp_alloc_step [OF ok nf, of z base zero] obtain i q where
    q: "fp_alloc z base zero p = Some (Some (fp_addr base p i), q)" "fp_ok q" "fp_same_layout p q"
    "fp_order q = i # fp_order p" "i \<notin> set (fp_order p)" "0 < i" by blast
  moreover have "fp_addr base p i \<notin> fp_allocated base p"
    using fp_addr_inj [OF t] q(5,6) fp_rep_slot(1) [OF r] by (auto simp: fp_allocated_def)
  moreover have "fp_allocated base q = insert (fp_addr base p i) (fp_allocated base p)"
    using q(4) fp_same_layout_addr [OF q(3)] by (simp add: fp_allocated_def)
  ultimately show ?thesis by blast
qed

lemma fp_free_allocated:
  assumes ok: "fp_ok p"
  shows "\<exists>q. fp_free base a p = Some (a \<in> fp_allocated base p, q) \<and> fp_ok q \<and> fp_same_layout p q
    \<and> fp_allocated base q = fp_allocated base p - {a} \<and> fp_cells q = fp_cells p"
proof (cases "a \<in> fp_allocated base p")
  case False
  then show ?thesis using fp_free_step [OF ok] ok by (simp add: fp_same_layout_def)
next
  case True
  note r = fp_ok_rep [OF ok]
  have t: "0 < fp_t_size p" using r by (simp add: fp_rep_def)
  obtain i where i: "i \<in> set (fp_order p)" "a = fp_addr base p i" using True by (auto simp: fp_allocated_def)
  have i0: "0 < i" by (rule fp_rep_slot(1) [OF r i(1)])
  have ai: "fp_ptr_2_int base p a = i" using fp_ptr_addr [OF t i0] i(2) by simp
  note rl = fp_release_step [OF ok i(1)]
  have "fp_allocated base (fp_release i p) = fp_addr base p ` (set (fp_order p) - {i})"
    using rl(3) fp_same_layout_addr [OF rl(2)] by (simp add: fp_allocated_def)
  also have "\<dots> = fp_allocated base p - {a}"
    using fp_addr_inj [OF t] i0 fp_rep_slot(1) [OF r] i(2) by (auto simp: fp_allocated_def)
  finally show ?thesis using fp_free_step [OF ok, of base a] True ai rl by auto
qed

lemma fp_run_legal:
  "fp_ok p \<Longrightarrow> \<exists>rs q. fp_run z base xs p = Some (rs, q) \<and> fp_ok q \<and> fp_same_layout p q
     \<and> fp_legal (fp_max_num p) (fp_allocated base p) xs rs"
proof (induction xs arbitrary: p)
  case Nil
  then show ?case by (simp add: fp_same_layout_def)
next
  case (Cons x xs)
  note c = fp_allocated_card [OF Cons.prems] fp_ok_used(2) [OF Cons.prems]
  show ?case
  proof (cases x)
    case (Alloc zero)
    show ?thesis
    proof (cases "fp_full p")
      case True
      from Cons.IH [OF Cons.prems] fp_alloc_full [OF Cons.prems True] Alloc c True show ?thesis
        by (auto simp: fp_full_def)
    next
      case False
      from fp_alloc_allocated [OF Cons.prems False, of z base zero] obtain a q where
        q: "fp_alloc z base zero p = Some (Some a, q)" "fp_ok q" "fp_same_layout p q"
        "a \<notin> fp_allocated base p" "fp_allocated base q = insert a (fp_allocated base p)" by blast
      from Cons.IH [OF q(2)] obtain rs u where "fp_run z base xs q = Some (rs, u)" "fp_ok u"
        "fp_same_layout q u" "fp_legal (fp_max_num q) (fp_allocated base q) xs rs" by blast
      with q Alloc c False show ?thesis
        by (auto simp: fp_full_def fp_same_layout_def)
    qed
  next
    case (Free a)
    from fp_free_allocated [OF Cons.prems, of base a] obtain q where
      q: "fp_free base a p = Some (a \<in> fp_allocated base p, q)" "fp_ok q" "fp_same_layout p q"
      "fp_allocated base q = fp_allocated base p - {a}" by blast
    from Cons.IH [OF q(2)] obtain rs u where u: "fp_run z base xs q = Some (rs, u)" "fp_ok u"
      "fp_same_layout q u" "fp_legal (fp_max_num q) (fp_allocated base q) xs rs" by blast
    have "fp_allocated base q = (if a \<in> fp_allocated base p then fp_allocated base p - {a} else fp_allocated base p)"
      using q(4) by auto
    with q u Free show ?thesis by (auto simp: fp_same_layout_def split: if_splits)
  qed
qed

lemma fp_init_created:
  assumes al: "is_pow_of_two (word_of_nat al)" "al < 2 ^ 64"
    and sz: "0 < sizeof_T" "sizeof_T \<le> node"
    and fits: "88 + (n + 1) * 16 + al + n * (node + al) < 2 ^ 64" "node + al \<le> 2 ^ 64"
    and block: "fp_calc_need_size al n node \<le> bytes" "n < length (fp_links m)" "n \<le> length (fp_cells m)"
  obtains p where "fp_init al sizeof_T (Some m) bytes n node False = (True, Some p)" "fp_ok p" "fp_order p = []"
    "fp_max_num p = n" "fp_link_head_offset p + (n + 1) * 16 \<le> fp_value_offset p"
    "node \<le> fp_t_size p" "al dvd fp_value_offset p" "al dvd fp_t_size p"
    "fp_value_offset p + n * fp_t_size p = fp_calc_need_size al n node"
    "fp_t_size p = fp_align al node" "fp_raw_t_size p = node" "fp_mem_size p = fp_calc_need_size al n node"
    "fp_magic_num p = fp_HEADER_MAGIC_NUM" "fp_version p = fp_VERSION"
    "length (fp_links p) = length (fp_links m)" "fp_cells p = fp_cells m"
proof -
  let ?hdr = "88 + (n + 1) * 16"
  have h: "?hdr + al \<le> 2 ^ 64" using fits(1) by linarith
  note a1 = fp_align_bounds [OF al h] and a2 = fp_align_bounds [OF al fits(2)]
  have "n * fp_align al node \<le> n * (node + al)" using a2(2) by (intro mult_le_mono) auto
  then have "fp_align al ?hdr + n * fp_align al node < 2 ^ 64" using a1(2) fits(1) by linarith
  then have need: "fp_calc_need_size al n node = fp_align al ?hdr + n * fp_align al node"
    unfolding fp_calc_need_size_def by (rule mod_less)
  define p where "p = fp_init_header al (fp_calc_need_size al n node) n (fp_align al node) node m"
  have pf: "fp_max_num p = n" "fp_link_head_offset p = 88" "fp_value_offset p = fp_align al ?hdr"
    "fp_t_size p = fp_align al node" "fp_used_num p = 0" "fp_raw_used_num p = 0" "fp_reclaim_list p = 0"
    "fp_raw_t_size p = node" "fp_mem_size p = fp_calc_need_size al n node"
    "fp_magic_num p = fp_HEADER_MAGIC_NUM" "fp_version p = fp_VERSION"
    "fp_links p = (fp_links m)[0 := link0]" "fp_cells p = fp_cells m"
    by (simp_all add: p_def fp_init_header_def)
  have "fp_init al sizeof_T (Some m) bytes n node False = (True, Some p)"
    using sz block(1) pf(1,4,8,9,10,11) by (simp add: fp_init_def Let_def p_def [symmetric])
  moreover have "fp_links p ! 0 = link0" using pf(12) block(2) by (cases "fp_links m") auto
  then have "fp_ok p" "fp_order p = []"
    using fp_init_ok [of p] pf block(2,3) a2(1) sz by auto
  ultimately show thesis using that [of p] need a1 a2 pf by simp
qed

text \<open>Attaching accepts the parameters the pool was created with and no others.\<close>

lemma fp_init_attach:
  assumes "fp_magic_num p = fp_HEADER_MAGIC_NUM" "fp_version p = fp_VERSION" "fp_max_num p = n" "fp_raw_t_size p = node"
    "fp_mem_size p = fp_calc_need_size al n node" "fp_t_size p = fp_align al node"
  shows "fp_init al sizeof_T (Some p) bytes n' node' True
    = (sizeof_T \<le> node' \<and> fp_calc_need_size al n' node' \<le> bytes \<and> n' = n \<and> node' = node, Some p)"
  using assms by (auto simp: fp_init_def Let_def)

section \<open>Properties\<close>

text \<open>C7. Whatever sequence of \<^verbatim>\<open>alloc\<close> and \<^verbatim>\<open>free\<close>, with whatever pointers, a client calls, the
  pool never aborts; an allocation returns null exactly when all nodes are held, and otherwise a node
  nobody holds; \<^verbatim>\<open>free\<close> answers true exactly for the address of a node that is held, so double
  frees, misaligned and foreign pointers are refused and change nothing a client can see.\<close>

theorem fp_run_is_allocator:
  assumes "fp_ok p"
  shows "\<exists>rs q. fp_run z base xs p = Some (rs, q) \<and> fp_ok q
    \<and> fp_legal (fp_max_num p) (fp_allocated base p) xs rs \<and> fp_size q = card (fp_allocated base q)"
proof -
  from fp_run_legal [OF assms, of z base xs] obtain rs q where
    "fp_run z base xs p = Some (rs, q)" "fp_ok q" "fp_legal (fp_max_num p) (fp_allocated base p) xs rs" by blast
  then show ?thesis using fp_allocated_card(2) [of q base] by (auto simp: fp_size_def)
qed

text \<open>A new pool of two nodes of 12 bytes, aligned to 16, in a block at address 4096.\<close>

definition fp_demo :: "nat pool" where
  "fp_demo = \<lparr>fp_version = 1, fp_mem_size = 168, fp_raw_t_size = 12, fp_t_size = 16, fp_max_num = 2,
     fp_used_num = 0, fp_raw_used_num = 0, fp_link_head_offset = 88, fp_value_offset = 136,
     fp_reclaim_list = 0, fp_magic_num = 0x9E370001,
     fp_links = [link0, \<lparr>lk_prev = 7, lk_next = 7\<rparr>, \<lparr>lk_prev = 7, lk_next = 7\<rparr>], fp_cells = [7, 7]\<rparr>"

lemma fp_demo_ok: "fp_ok fp_demo" "fp_order fp_demo = []"
  using fp_init_ok [of fp_demo] by (simp_all add: fp_demo_def)

lemmas fp_op_defs = fp_alloc_def fp_full_def fp_get_link_def fp_link_in_def set_next_def set_prev_def nx_def pv_def
  fp_int_2_ptr_def fp_addr_def fp_free_def fp_empty_def fp_ptr_2_int_def fp_release_def Let_def

theorem fp_run_is_allocator_witness:
  "\<exists>q. fp_run 0 4096 [Alloc True, Alloc False, Alloc False, Free 4248, Free 4248, Free 4250, Alloc False] fp_demo
      = Some ([RAlloc (Some 4232), RAlloc (Some 4248), RAlloc None, RFree True, RFree False, RFree False,
          RAlloc (Some 4248)], q)
    \<and> fp_size q = card (fp_allocated 4096 q)"
proof -
  let ?xs = "[Alloc True, Alloc False, Alloc False, Free 4248, Free 4248, Free 4250, Alloc False]"
  have "map_option fst (fp_run 0 4096 ?xs fp_demo) = Some [RAlloc (Some 4232), RAlloc (Some 4248), RAlloc None,
      RFree True, RFree False, RFree False, RAlloc (Some 4248)]"
    by (simp add: fp_demo_def fp_op_defs link0_def)
  with fp_run_is_allocator [OF fp_demo_ok(1), of 0 4096 ?xs] show ?thesis by auto
qed

text \<open>C8. A pool created in a block of at least the size \<^verbatim>\<open>calc_need_size\<close> asks for is empty
  and well formed; its links end before its nodes begin, its nodes are aligned, do not overlap, and
  end inside the block; and it is attached to again with the same parameters, and only with them.\<close>

theorem fp_init_layout:
  assumes al: "is_pow_of_two (word_of_nat al)" "al < 2 ^ 64"
    and sz: "0 < sizeof_T" "sizeof_T \<le> node"
    and fits: "88 + (n + 1) * 16 + al + n * (node + al) < 2 ^ 64" "node + al \<le> 2 ^ 64"
    and block: "fp_calc_need_size al n node \<le> bytes" "n < length (fp_links m)" "n \<le> length (fp_cells m)"
  shows "\<exists>p. fp_init al sizeof_T (Some m) bytes n node False = (True, Some p) \<and> fp_ok p \<and> fp_order p = []
    \<and> fp_max_num p = n \<and> fp_link_head_offset p + (n + 1) * 16 \<le> fp_value_offset p
    \<and> node \<le> fp_t_size p \<and> al dvd fp_value_offset p \<and> al dvd fp_t_size p
    \<and> fp_value_offset p + n * fp_t_size p \<le> bytes
    \<and> fst (fp_init al sizeof_T (Some p) bytes n' node' True)
        = (sizeof_T \<le> node' \<and> fp_calc_need_size al n' node' \<le> bytes \<and> n' = n \<and> node' = node)"
proof -
  from fp_init_created [OF assms] obtain p where p: "fp_init al sizeof_T (Some m) bytes n node False = (True, Some p)"
    "fp_ok p" "fp_order p = []" "fp_max_num p = n" "fp_link_head_offset p + (n + 1) * 16 \<le> fp_value_offset p"
    "node \<le> fp_t_size p" "al dvd fp_value_offset p" "al dvd fp_t_size p"
    "fp_value_offset p + n * fp_t_size p = fp_calc_need_size al n node"
    "fp_t_size p = fp_align al node" "fp_raw_t_size p = node" "fp_mem_size p = fp_calc_need_size al n node"
    "fp_magic_num p = fp_HEADER_MAGIC_NUM" "fp_version p = fp_VERSION" by blast
  with block(1) fp_init_attach [of p n node al sizeof_T bytes n' node'] show ?thesis by (intro exI [of _ p]) simp
qed

theorem fp_init_layout_witness:
  "\<exists>p. fp_init 8 12 (Some (fp_demo\<lparr>fp_links := replicate 5 link0, fp_cells := [1, 2, 3]\<rparr>)) 500 3 12 False
      = (True, Some p) \<and> fp_ok p \<and> fp_max_num p = 3 \<and> fp_value_offset p + 3 * fp_t_size p \<le> 500
    \<and> 12 \<le> fp_t_size p"
proof -
  have "is_pow_of_two (word_of_nat 8)" by (simp add: is_pow_of_two_def)
  moreover have "fp_calc_need_size 8 3 12 \<le> 500"
  proof -
    have "fp_align (2 ^ 3) (88 + (3 + 1) * 16) = 152" "fp_align (2 ^ 3) 12 = 16"
      by (subst fp_align_eq; simp)+
    then show ?thesis by (simp add: fp_calc_need_size_def)
  qed
  ultimately show ?thesis
    using fp_init_layout [of 8 12 12 3 500 "fp_demo\<lparr>fp_links := replicate 5 link0, fp_cells := [1, 2, 3]\<rparr>" 3 12]
    by auto
qed

text \<open>C35. An allocation zeroes the node it returns if it was asked to, and neither it nor
  \<^verbatim>\<open>free\<close> touches the content of any node that stays held.\<close>

theorem fp_contents_kept:
  assumes "fp_ok p"
  shows "(case fp_alloc z base zero p of
        None \<Rightarrow> False
      | Some (None, q) \<Rightarrow> q = p
      | Some (Some a, q) \<Rightarrow> \<not> (zero \<and> fp_content base q a \<noteq> z)
          \<and> map (fp_content base q) (map (fp_addr base p) (fp_order p))
            = map (fp_content base p) (map (fp_addr base p) (fp_order p)))
    \<and> (case fp_free base b p of
        None \<Rightarrow> False
      | Some (_, q) \<Rightarrow> map (fp_content base q) (map (fp_addr base p) (fp_order p))
            = map (fp_content base p) (map (fp_addr base p) (fp_order p)))"
proof
  note r = fp_ok_rep [OF assms]
  have t: "0 < fp_t_size p" using r by (simp add: fp_rep_def)
  show "case fp_alloc z base zero p of
        None \<Rightarrow> False
      | Some (None, q) \<Rightarrow> q = p
      | Some (Some a, q) \<Rightarrow> \<not> (zero \<and> fp_content base q a \<noteq> z)
          \<and> map (fp_content base q) (map (fp_addr base p) (fp_order p))
            = map (fp_content base p) (map (fp_addr base p) (fp_order p))"
  proof (cases "fp_full p")
    case True
    then show ?thesis by (simp add: fp_alloc_def)
  next
    case False
    from fp_alloc_step [OF assms False, of z base zero] obtain i q where
      q: "fp_alloc z base zero p = Some (Some (fp_addr base p i), q)" "fp_same_layout p q"
      "i \<notin> set (fp_order p)" "0 < i" "i \<le> fp_max_num p"
      "fp_cells q = (if zero then (fp_cells p)[i - 1 := z] else fp_cells p)" by blast
    have c: "fp_content base q (fp_addr base p j) = fp_cells q ! (j - 1)"
      "fp_content base p (fp_addr base p j) = fp_cells p ! (j - 1)" if "0 < j" for j
      using fp_ptr_addr [OF t that] fp_same_layout_ptr [OF q(2)] by (simp_all add: fp_content_def)
    have "i - 1 < length (fp_cells p)" using q(4,5) r unfolding fp_rep_def by linarith
    moreover have "fp_content base q (fp_addr base p j) = fp_content base p (fp_addr base p j)"
      if j: "j \<in> set (fp_order p)" for j
    proof -
      have "0 < j" "j \<noteq> i" using fp_rep_slot(1) [OF r j] q(3) j by auto
      then show ?thesis using c [of j] q(4,6) by (auto simp: nth_list_update)
    qed
    ultimately show ?thesis using q c [OF q(4)] by auto
  qed
  from fp_free_allocated [OF assms, of base b] obtain q where
    q: "fp_free base b p = Some (b \<in> fp_allocated base p, q)" "fp_same_layout p q" "fp_cells q = fp_cells p" by blast
  then have "fp_content base q = fp_content base p"
    using fp_same_layout_ptr [OF q(2)] by (simp add: fp_content_def fun_eq_iff)
  with q show "case fp_free base b p of
        None \<Rightarrow> False
      | Some (_, q) \<Rightarrow> map (fp_content base q) (map (fp_addr base p) (fp_order p))
            = map (fp_content base p) (map (fp_addr base p) (fp_order p))" by simp
qed

theorem fp_contents_kept_witness:
  "\<exists>q. fp_alloc 0 4096 True fp_demo = Some (Some 4232, q) \<and> fp_content 4096 q 4232 = 0"
proof -
  have "map_option fst (fp_alloc 0 4096 True fp_demo) = Some (Some 4232)"
    by (simp add: fp_demo_def fp_op_defs link0_def)
  then show ?thesis using fp_contents_kept [OF fp_demo_ok(1), where z = 0 and base = 4096 and zero = True and b = 0] by auto
qed

end
