(* ===== verification/LockFreeQueue.thy ===== *)
theory LockFreeQueue
  imports Interfaces "HOL-Library.Word"
begin

text \<open>
  \<^verbatim>\<open>src/containers/queue_lock_free.h\<close>: the queue with many producers and one consumer.
  Two models share the state: the calls as functions of a single thread, and the calls as sequences
  of atomic steps that any number of producers and the consumer interleave.  A step is one access of
  the code to a shared member; the accesses are interleaved sequentially consistently, the memory
  orders of the source are not modelled.  A \<^verbatim>\<open>compare_exchange_weak\<close> may fail for no reason.
\<close>

section \<open>Shared state\<close>

record index =
  ix_version :: "32 word"
  ix_index :: nat

record 'a lfq =
  lf_data :: "'a list"
  lf_flag :: "bool list"
  lf_head :: index
  lf_tail :: index

datatype lf_err = QueueFull | Again | TryMax

definition MAX_TRY_TIMES :: nat where
  "MAX_TRY_TIMES = 100"

definition lf_new :: "nat \<Rightarrow> 'a \<Rightarrow> 'a lfq" where
  "lf_new N z = \<lparr>lf_data = replicate N z, lf_flag = replicate N False,
     lf_head = \<lparr>ix_version = 0, ix_index = 0\<rparr>, lf_tail = \<lparr>ix_version = 0, ix_index = 0\<rparr>\<rparr>"

text \<open>\<^verbatim>\<open>QUEUE_SIZE\<close> is the length of the arrays.\<close>

definition ix_succ :: "nat \<Rightarrow> index \<Rightarrow> index" where
  "ix_succ N i = \<lparr>ix_version = ix_version i + 1, ix_index = (ix_index i + 1) mod N\<rparr>"

section \<open>One thread\<close>

definition lf_IsEmpty :: "'a lfq \<Rightarrow> bool" where
  "lf_IsEmpty q \<longleftrightarrow> ix_index (lf_tail q) = ix_index (lf_head q)"

definition lf_IsFull :: "nat \<Rightarrow> 'a lfq \<Rightarrow> bool" where
  "lf_IsFull N q \<longleftrightarrow> (ix_index (lf_tail q) + 1) mod N = ix_index (lf_head q)"

text \<open>
  The loop of \<^verbatim>\<open>Push\<close>; \<open>fails n\<close> says whether the exchange after \<open>n\<close> earlier tries
  fails.  The result is the claimed index, or the error.
\<close>

function lf_push_loop :: "nat \<Rightarrow> (nat \<Rightarrow> bool) \<Rightarrow> nat \<Rightarrow> 'a lfq \<Rightarrow> (lf_err + index) \<times> 'a lfq" where
  "lf_push_loop N fails n q =
     (if n \<ge> MAX_TRY_TIMES then (Inl TryMax, q)
      else
        let old_tail = lf_tail q
        in if lf_IsFull N q then (Inl QueueFull, q)
           else if fails n then lf_push_loop N fails (n + 1) q
           else (Inr old_tail, q\<lparr>lf_tail := ix_succ N old_tail\<rparr>))"
  by pat_completeness auto
termination by (relation "measure (\<lambda>(N, fails, n, q). MAX_TRY_TIMES - n)") auto

declare lf_push_loop.simps [simp del]

definition lf_Push :: "nat \<Rightarrow> (nat \<Rightarrow> bool) \<Rightarrow> 'a \<Rightarrow> 'a lfq \<Rightarrow> lf_err option \<times> 'a lfq" where
  "lf_Push N fails d q =
     (case lf_push_loop N fails 0 q of
        (Inl e, q) \<Rightarrow> (Some e, q)
      | (Inr old, q) \<Rightarrow>
          (None, q\<lparr>lf_data := (lf_data q)[ix_index old := d], lf_flag := (lf_flag q)[ix_index old := True]\<rparr>))"

definition lf_Pop :: "nat \<Rightarrow> 'a lfq \<Rightarrow> (lf_err + 'a) \<times> 'a lfq" where
  "lf_Pop N q =
     (if lf_IsEmpty q then (Inl QueueFull, q)
      else
        let old_head = lf_head q
        in if \<not> lf_flag q ! ix_index old_head then (Inl Again, q)
           else (Inr (lf_data q ! ix_index old_head),
                 q\<lparr>lf_flag := (lf_flag q)[ix_index old_head := False], lf_head := ix_succ N old_head\<rparr>))"

section \<open>Many threads\<close>

text \<open>
  The program points of \<^verbatim>\<open>Push\<close>: the start of a try with the tries made, the two loads
  of \<^verbatim>\<open>IsFull\<close>, the exchange, the two stores after it.
\<close>

datatype 'a ppc = PIdle | PLoad 'a nat | PFullTail 'a nat index | PFullHead 'a nat index index
  | PCas 'a nat index | PData 'a index | PFlag 'a index

text \<open>The program points of \<^verbatim>\<open>Pop\<close>.\<close>

datatype 'a cpc = CIdle | CEmptyTail | CEmptyHead index | CHead | CFlag index | CRead index
  | CClear index 'a | CStore index 'a

text \<open>
  The system: the queue, the producers by number, the consumer.  The rest is not in the code: the
  values in the order their slots were claimed, the values popped, and for a producer that has
  claimed a slot the position of its value among the claims.
\<close>

record 'a lfs =
  lf_q :: "'a lfq"
  lf_prod :: "nat \<Rightarrow> 'a ppc"
  lf_cons :: "'a cpc"
  lf_hist :: "'a list"
  lf_pops :: "'a list"
  lf_ticket :: "nat \<Rightarrow> nat"

definition lf_init :: "nat \<Rightarrow> 'a \<Rightarrow> 'a lfs" where
  "lf_init N z = \<lparr>lf_q = lf_new N z, lf_prod = (\<lambda>_. PIdle), lf_cons = CIdle, lf_hist = [], lf_pops = [],
     lf_ticket = (\<lambda>_. 0)\<rparr>"

text \<open>The next step of producer \<open>p\<close>; \<open>spurious\<close> is whether an exchange fails for no reason.\<close>

definition lf_pstep :: "nat \<Rightarrow> nat \<Rightarrow> bool \<Rightarrow> 'a lfs \<Rightarrow> 'a lfs option" where
  "lf_pstep N p spurious s =
     (case lf_prod s p of
        PIdle \<Rightarrow> None
      | PLoad d n \<Rightarrow>
          Some (s\<lparr>lf_prod := (lf_prod s)(p :=
            (if n \<ge> MAX_TRY_TIMES then PIdle else PFullTail d n (lf_tail (lf_q s))))\<rparr>)
      | PFullTail d n old \<Rightarrow>
          Some (s\<lparr>lf_prod := (lf_prod s)(p := PFullHead d n old (lf_tail (lf_q s)))\<rparr>)
      | PFullHead d n old t \<Rightarrow>
          Some (s\<lparr>lf_prod := (lf_prod s)(p :=
            (if (ix_index t + 1) mod N = ix_index (lf_head (lf_q s)) then PIdle else PCas d (n + 1) old))\<rparr>)
      | PCas d n old \<Rightarrow>
          Some (if lf_tail (lf_q s) = old \<and> \<not> spurious then
                  s\<lparr>lf_q := (lf_q s)\<lparr>lf_tail := ix_succ N old\<rparr>, lf_prod := (lf_prod s)(p := PData d old),
                    lf_hist := lf_hist s @ [d], lf_ticket := (lf_ticket s)(p := length (lf_hist s))\<rparr>
                else s\<lparr>lf_prod := (lf_prod s)(p := PLoad d n)\<rparr>)
      | PData d old \<Rightarrow>
          Some (s\<lparr>lf_q := (lf_q s)\<lparr>lf_data := (lf_data (lf_q s))[ix_index old := d]\<rparr>,
                  lf_prod := (lf_prod s)(p := PFlag d old)\<rparr>)
      | PFlag d old \<Rightarrow>
          Some (s\<lparr>lf_q := (lf_q s)\<lparr>lf_flag := (lf_flag (lf_q s))[ix_index old := True]\<rparr>,
                  lf_prod := (lf_prod s)(p := PIdle)\<rparr>))"

definition lf_cstep :: "nat \<Rightarrow> 'a lfs \<Rightarrow> 'a lfs option" where
  "lf_cstep N s =
     (case lf_cons s of
        CIdle \<Rightarrow> None
      | CEmptyTail \<Rightarrow> Some (s\<lparr>lf_cons := CEmptyHead (lf_tail (lf_q s))\<rparr>)
      | CEmptyHead t \<Rightarrow>
          Some (s\<lparr>lf_cons := (if ix_index t = ix_index (lf_head (lf_q s)) then CIdle else CHead)\<rparr>)
      | CHead \<Rightarrow> Some (s\<lparr>lf_cons := CFlag (lf_head (lf_q s))\<rparr>)
      | CFlag h \<Rightarrow> Some (s\<lparr>lf_cons := (if lf_flag (lf_q s) ! ix_index h then CRead h else CIdle)\<rparr>)
      | CRead h \<Rightarrow> Some (s\<lparr>lf_cons := CClear h (lf_data (lf_q s) ! ix_index h)\<rparr>)
      | CClear h d \<Rightarrow>
          Some (s\<lparr>lf_q := (lf_q s)\<lparr>lf_flag := (lf_flag (lf_q s))[ix_index h := False]\<rparr>, lf_cons := CStore h d\<rparr>)
      | CStore h d \<Rightarrow>
          Some (s\<lparr>lf_q := (lf_q s)\<lparr>lf_head := ix_succ N h\<rparr>, lf_cons := CIdle, lf_pops := lf_pops s @ [d]\<rparr>))"

text \<open>A scheduler's choices: a producer is called with a value, a producer steps, the consumer is
  called, the consumer steps.\<close>

datatype 'a lf_act = CallPush nat 'a | StepPush nat bool | CallPop | StepPop

fun lf_do :: "nat \<Rightarrow> 'a lf_act \<Rightarrow> 'a lfs \<Rightarrow> 'a lfs option" where
  "lf_do N (CallPush p d) s =
     (if lf_prod s p = PIdle then Some (s\<lparr>lf_prod := (lf_prod s)(p := PLoad d 0)\<rparr>) else None)"
| "lf_do N (StepPush p spurious) s = lf_pstep N p spurious s"
| "lf_do N CallPop s = (if lf_cons s = CIdle then Some (s\<lparr>lf_cons := CEmptyTail\<rparr>) else None)"
| "lf_do N StepPop s = lf_cstep N s"

inductive lf_reach :: "nat \<Rightarrow> 'a \<Rightarrow> 'a lfs \<Rightarrow> bool" for N z where
  lf_start: "lf_reach N z (lf_init N z)"
| lf_next: "lf_reach N z s \<Longrightarrow> lf_do N a s = Some t \<Longrightarrow> lf_reach N z t"

fun lf_exec :: "nat \<Rightarrow> 'a lf_act list \<Rightarrow> 'a lfs \<Rightarrow> 'a lfs option" where
  "lf_exec N [] s = Some s"
| "lf_exec N (a # as) s = do { s \<leftarrow> lf_do N a s; lf_exec N as s }"

lemma lf_exec_reach: "lf_reach N z s \<Longrightarrow> lf_exec N as s = Some t \<Longrightarrow> lf_reach N z t"
  by (induction as arbitrary: s) (auto split: bind_splits intro: lf_next)

section \<open>The claims and the indices\<close>

text \<open>
  The index of the \<open>k\<close>-th claim.  Equal indices are the same claim only while fewer than
  \<open>2\<^sup>3\<^sup>2\<close> claims were made: the version wraps around after that.
\<close>

definition tkt :: "nat \<Rightarrow> nat \<Rightarrow> index" where
  "tkt N k = \<lparr>ix_version = of_nat k, ix_index = k mod N\<rparr>"

lemma tkt_simps [simp]:
  "ix_index (tkt N k) = k mod N"
  "ix_version (tkt N k) = of_nat k"
  "ix_succ N (tkt N k) = tkt N (Suc k)"
  by (simp_all add: tkt_def ix_succ_def mod_simps)

lemma tkt_inj: "m < 2 ^ 32 \<Longrightarrow> n < 2 ^ 32 \<Longrightarrow> tkt N m = tkt N n \<longleftrightarrow> m = n"
  by (auto simp: tkt_def of_nat_inverse word_of_nat_eq_iff take_bit_nat_eq_self)

text \<open>Within a window of \<open>N\<close> claims different claims have different slots.\<close>

lemma mod_window_le: "(a::nat) \<le> i \<Longrightarrow> i \<le> j \<Longrightarrow> j < a + N \<Longrightarrow> i mod N = j mod N \<Longrightarrow> i = j"
proof (rule ccontr)
  assume a: "a \<le> i" "i \<le> j" "j < a + N" "i mod N = j mod N" "i \<noteq> j"
  then have "N dvd j - i" using mod_eq_dvd_iff_nat [of i j N] by simp
  with a show False using nat_dvd_not_less [of "j - i" N] by simp
qed

lemma mod_window:
  assumes "(a::nat) \<le> i" "i < a + N" "a \<le> j" "j < a + N"
  shows "i mod N = j mod N \<longleftrightarrow> i = j"
  using mod_window_le [of a i j N] mod_window_le [of a j i N] assms by (cases "i \<le> j") auto

section \<open>The invariant of the interleaved calls\<close>

text \<open>A producer that has claimed a slot and not yet published it.\<close>

fun writing :: "'a ppc \<Rightarrow> bool" where
  "writing (PData d old) = True"
| "writing (PFlag d old) = True"
| "writing pc = False"

definition owns :: "'a lfs \<Rightarrow> nat \<Rightarrow> nat \<Rightarrow> bool" where
  "owns s p k \<longleftrightarrow> writing (lf_prod s p) \<and> lf_ticket s p = k"

text \<open>
  What a producer knows at each point: the tail it loaded is that of an earlier claim; past the
  full-check, the claims it saw did not fill the queue.
\<close>

fun lf_pok :: "nat \<Rightarrow> 'a lfs \<Rightarrow> nat \<Rightarrow> 'a ppc \<Rightarrow> bool" where
  "lf_pok N s p PIdle = True"
| "lf_pok N s p (PLoad d n) = True"
| "lf_pok N s p (PFullTail d n old) = (\<exists>m \<le> length (lf_hist s). old = tkt N m)"
| "lf_pok N s p (PFullHead d n old t) =
     (\<exists>m m'. m \<le> m' \<and> m' \<le> length (lf_hist s) \<and> old = tkt N m \<and> t = tkt N m')"
| "lf_pok N s p (PCas d n old) =
     (\<exists>m m' h. m \<le> m' \<and> m' \<le> length (lf_hist s) \<and> h \<le> length (lf_pops s) \<and> old = tkt N m
       \<and> (m' + 1) mod N \<noteq> h mod N \<and> m' < h + N)"
| "lf_pok N s p (PData d old) =
     (length (lf_pops s) \<le> lf_ticket s p \<and> lf_ticket s p < length (lf_hist s)
       \<and> old = tkt N (lf_ticket s p) \<and> lf_hist s ! lf_ticket s p = d)"
| "lf_pok N s p (PFlag d old) =
     (length (lf_pops s) \<le> lf_ticket s p \<and> lf_ticket s p < length (lf_hist s)
       \<and> old = tkt N (lf_ticket s p) \<and> lf_hist s ! lf_ticket s p = d
       \<and> lf_data (lf_q s) ! (lf_ticket s p mod N) = d)"

fun lf_cok :: "nat \<Rightarrow> 'a lfs \<Rightarrow> 'a cpc \<Rightarrow> bool" where
  "lf_cok N s CIdle = True"
| "lf_cok N s CEmptyTail = True"
| "lf_cok N s (CEmptyHead t) =
     (\<exists>m. length (lf_pops s) \<le> m \<and> m \<le> length (lf_hist s) \<and> m < length (lf_pops s) + N \<and> t = tkt N m)"
| "lf_cok N s CHead = (length (lf_pops s) < length (lf_hist s))"
| "lf_cok N s (CFlag h) =
     (length (lf_pops s) < length (lf_hist s) \<and> h = tkt N (length (lf_pops s)))"
| "lf_cok N s (CRead h) =
     (length (lf_pops s) < length (lf_hist s) \<and> h = tkt N (length (lf_pops s))
       \<and> lf_flag (lf_q s) ! (length (lf_pops s) mod N))"
| "lf_cok N s (CClear h d) =
     (length (lf_pops s) < length (lf_hist s) \<and> h = tkt N (length (lf_pops s))
       \<and> lf_flag (lf_q s) ! (length (lf_pops s) mod N) \<and> d = lf_hist s ! length (lf_pops s))"
| "lf_cok N s (CStore h d) =
     (length (lf_pops s) < length (lf_hist s) \<and> h = tkt N (length (lf_pops s))
       \<and> \<not> lf_flag (lf_q s) ! (length (lf_pops s) mod N) \<and> d = lf_hist s ! length (lf_pops s)
       \<and> (\<forall>p. \<not> owns s p (length (lf_pops s))))"

text \<open>The consumer has cleared the flag of the slot it is taking.\<close>

fun storing :: "'a cpc \<Rightarrow> bool" where
  "storing (CStore h d) = True"
| "storing pc = False"

text \<open>A claim that is not yet taken: its slot is published and holds its value, or a producer is writing
  it, or the consumer is about to give it back.\<close>

definition lf_slot_ok :: "nat \<Rightarrow> 'a lfs \<Rightarrow> nat \<Rightarrow> bool" where
  "lf_slot_ok N s k \<longleftrightarrow>
     (if lf_flag (lf_q s) ! (k mod N)
      then lf_data (lf_q s) ! (k mod N) = lf_hist s ! k
        \<and> (\<forall>p. \<not> owns s p k)
      else (\<exists>p. owns s p k) \<or> k = length (lf_pops s) \<and> storing (lf_cons s))"

definition lf_shape :: "nat \<Rightarrow> 'a lfs \<Rightarrow> bool" where
  "lf_shape N s \<longleftrightarrow> length (lf_data (lf_q s)) = N \<and> length (lf_flag (lf_q s)) = N
     \<and> lf_head (lf_q s) = tkt N (length (lf_pops s)) \<and> lf_tail (lf_q s) = tkt N (length (lf_hist s))
     \<and> length (lf_pops s) \<le> length (lf_hist s) \<and> length (lf_hist s) < length (lf_pops s) + N
     \<and> lf_pops s = take (length (lf_pops s)) (lf_hist s)"

definition lf_inv :: "nat \<Rightarrow> 'a lfs \<Rightarrow> bool" where
  "lf_inv N s \<longleftrightarrow> lf_shape N s \<and> (\<forall>p. lf_pok N s p (lf_prod s p)) \<and> lf_cok N s (lf_cons s)
     \<and> (\<forall>p p' k. owns s p k \<longrightarrow> owns s p' k \<longrightarrow> p = p')
     \<and> (\<forall>k. length (lf_pops s) \<le> k \<and> k < length (lf_hist s) \<longrightarrow> lf_slot_ok N s k)
     \<and> (\<forall>k. length (lf_hist s) \<le> k \<and> k < length (lf_pops s) + N \<longrightarrow> \<not> lf_flag (lf_q s) ! (k mod N))"

lemma lf_inv_init: "0 < N \<Longrightarrow> lf_inv N (lf_init N z)"
  by (auto simp: lf_inv_def lf_shape_def lf_init_def lf_new_def tkt_def owns_def)

lemma lf_invD:
  assumes "lf_inv N s"
  shows "lf_shape N s" "lf_pok N s p (lf_prod s p)" "lf_cok N s (lf_cons s)"
    "owns s p k \<Longrightarrow> owns s p' k \<Longrightarrow> p = p'"
    "length (lf_pops s) \<le> k \<Longrightarrow> k < length (lf_hist s) \<Longrightarrow> lf_slot_ok N s k"
    "length (lf_hist s) \<le> k \<Longrightarrow> k < length (lf_pops s) + N \<Longrightarrow> \<not> lf_flag (lf_q s) ! (k mod N)"
  using assms by (auto simp: lf_inv_def)

lemma lf_pok_prod [simp]: "lf_pok N (s\<lparr>lf_prod := f\<rparr>) p pc = lf_pok N s p pc"
  by (cases pc) auto

lemma lf_pok_cons [simp]: "lf_pok N (s\<lparr>lf_cons := c\<rparr>) p pc = lf_pok N s p pc"
  by (cases pc) auto

lemma owns_cons [simp]: "owns (s\<lparr>lf_cons := c\<rparr>) = owns s" "owns (s\<lparr>lf_q := q\<rparr>) = owns s"
  "owns (s\<lparr>lf_pops := v\<rparr>) = owns s"
  by (simp_all add: owns_def fun_eq_iff)

lemma lf_cok_cons [simp]: "lf_cok N (s\<lparr>lf_cons := c\<rparr>) pc = lf_cok N s pc"
  by (cases pc) auto

lemma lf_slot_ok_cong:
  assumes "\<And>p. owns t p k = owns s p k" "lf_flag (lf_q t) ! (k mod N) = lf_flag (lf_q s) ! (k mod N)"
    "lf_data (lf_q t) ! (k mod N) = lf_data (lf_q s) ! (k mod N)" "lf_hist t ! k = lf_hist s ! k"
    "k = length (lf_pops t) \<and> storing (lf_cons t) \<longleftrightarrow> k = length (lf_pops s) \<and> storing (lf_cons s)"
  shows "lf_slot_ok N t k = lf_slot_ok N s k"
  unfolding lf_slot_ok_def assms by (rule refl)

lemma owns_range: "lf_inv N s \<Longrightarrow> owns s p k \<Longrightarrow> length (lf_pops s) \<le> k \<and> k < length (lf_hist s)"
  using lf_invD(2) [of N s p] by (cases "lf_prod s p") (auto simp: owns_def)

text \<open>Steps that touch no shared member.\<close>

lemma lf_inv_move:
  assumes inv: "lf_inv N s" and "\<not> writing (lf_prod s p)" "\<not> writing pc" "lf_pok N s p pc"
  shows "lf_inv N (s\<lparr>lf_prod := (lf_prod s)(p := pc)\<rparr>)" (is "lf_inv N ?t")
proof -
  have o: "owns ?t = owns s" using assms by (auto simp: owns_def fun_eq_iff)
  have "lf_cok N ?t c = lf_cok N s c" for c by (cases c) (simp_all add: o)
  moreover have "lf_slot_ok N ?t k = lf_slot_ok N s k" for k by (rule lf_slot_ok_cong) (simp_all add: o)
  ultimately show ?thesis using assms o by (simp add: lf_inv_def lf_shape_def)
qed

lemma lf_inv_cmove:
  assumes "lf_inv N s" "\<not> storing (lf_cons s)" "\<not> storing c" "lf_cok N s c"
  shows "lf_inv N (s\<lparr>lf_cons := c\<rparr>)"
proof -
  have "lf_slot_ok N (s\<lparr>lf_cons := c\<rparr>) k = lf_slot_ok N s k" for k
    by (rule lf_slot_ok_cong) (simp_all add: assms)
  then show ?thesis using assms by (simp add: lf_inv_def lf_shape_def)
qed

text \<open>The exchange that claims a slot.\<close>

lemma lf_inv_claim:
  assumes inv: "lf_inv N s" and pc: "lf_prod s p = PCas d n old" and eq: "lf_tail (lf_q s) = old"
    and small: "length (lf_hist s) < 2 ^ 32"
  shows "lf_inv N (s\<lparr>lf_q := (lf_q s)\<lparr>lf_tail := ix_succ N old\<rparr>, lf_prod := (lf_prod s)(p := PData d old),
      lf_hist := lf_hist s @ [d], lf_ticket := (lf_ticket s)(p := length (lf_hist s))\<rparr>)" (is "lf_inv N ?t")
proof -
  let ?H = "length (lf_pops s)" and ?T = "length (lf_hist s)"
  note sh = lf_invD(1) [OF inv, unfolded lf_shape_def]
  from lf_invD(2) [OF inv, of p] pc obtain m m' h where m: "m \<le> m'" "m' \<le> ?T" "h \<le> ?H" "old = tkt N m"
    "(m' + 1) mod N \<noteq> h mod N" "m' < h + N" by auto
  from eq sh m(4) have "tkt N m = tkt N ?T" by simp
  then have "m = ?T" using m small by (subst (asm) tkt_inj) auto
  with m have T: "m' = ?T" "old = tkt N ?T" by auto
  have room: "?T + 1 < ?H + N"
  proof (rule ccontr)
    assume "\<not> ?thesis"
    with m T sh have "?T + 1 = h + N" by linarith
    with m(5) T show False by simp
  qed
  have o: "owns ?t r k \<longleftrightarrow> (if r = p then k = ?T else owns s r k)" for r k by (auto simp: owns_def)
  have no: "\<not> owns s p k" for k using pc by (simp add: owns_def)
  have keep: "lf_pok N ?t r (lf_prod ?t r)" for r
  proof (cases "r = p")
    case False
    with lf_invD(2) [OF inv, of r] show ?thesis
      by (cases "lf_prod s r") (auto simp: nth_append intro: le_SucI)
  next
    case True
    with T sh show ?thesis by simp
  qed
  have "lf_cok N ?t (lf_cons ?t)" using lf_invD(3) [OF inv]
    by (cases "lf_cons s") (auto simp: nth_append o intro: le_SucI)
  moreover have "lf_slot_ok N ?t k" if k: "?H \<le> k" "k < length (lf_hist ?t)" for k
  proof (cases "k = ?T")
    case True
    have "owns ?t p k" using o True by simp
    with lf_invD(6) [OF inv, of ?T] room True show ?thesis by (auto simp: lf_slot_ok_def)
  next
    case False
    with k have k': "k < ?T" by simp
    then have "owns ?t r k = owns s r k" for r using no [of k] o False by simp
    then have "lf_slot_ok N ?t k = lf_slot_ok N s k" using k'
      by (rule_tac lf_slot_ok_cong) (simp_all add: nth_append)
    with lf_invD(5) [OF inv k(1) k'] show ?thesis by simp
  qed
  moreover have "r = r'" if "owns ?t r k" "owns ?t r' k" for r r' k
    using that lf_invD(4) [OF inv, of r k r'] owns_range [OF inv, of r k] owns_range [OF inv, of r' k]
    by (auto simp: o split: if_splits)
  moreover have "\<not> lf_flag (lf_q ?t) ! (k mod N)" if "length (lf_hist ?t) \<le> k" "k < ?H + N" for k
    using lf_invD(6) [OF inv, of k] that by simp
  moreover have "lf_shape N ?t" using sh room T by (simp add: lf_shape_def)
  ultimately show ?thesis using keep unfolding lf_inv_def by simp
qed

text \<open>The two stores of a producer.\<close>

lemma lf_inv_write:
  assumes inv: "lf_inv N s" and pc: "lf_prod s p = PData d old"
  shows "lf_inv N (s\<lparr>lf_q := (lf_q s)\<lparr>lf_data := (lf_data (lf_q s))[ix_index old := d]\<rparr>,
      lf_prod := (lf_prod s)(p := PFlag d old)\<rparr>)" (is "lf_inv N ?t")
proof -
  let ?H = "length (lf_pops s)" and ?T = "length (lf_hist s)" and ?k = "lf_ticket s p"
  note sh = lf_invD(1) [OF inv, unfolded lf_shape_def]
  from lf_invD(2) [OF inv, of p] pc have k: "?H \<le> ?k" "?k < ?T" "old = tkt N ?k" "lf_hist s ! ?k = d"
    by auto
  have o: "owns ?t = owns s" using pc by (auto simp: owns_def fun_eq_iff)
  have op: "owns s p ?k" using pc by (simp add: owns_def)
  have other: "lf_data (lf_q ?t) ! (j mod N) = lf_data (lf_q s) ! (j mod N)"
    if "?H \<le> j" "j < ?T" "j \<noteq> ?k" for j
    using that k sh mod_window [of ?H ?k N j] by simp
  have "lf_pok N ?t r (lf_prod ?t r)" for r
  proof (cases "r = p")
    case True
    with k sh show ?thesis by (simp add: nth_list_update)
  next
    case False
    have "writing (lf_prod s r) \<Longrightarrow> lf_ticket s r \<noteq> ?k"
      using lf_invD(4) [OF inv op, of r] False by (auto simp: owns_def)
    with False lf_invD(2) [OF inv, of r] other [of "lf_ticket s r"] show ?thesis
      by (cases "lf_prod s r") auto
  qed
  moreover have "lf_slot_ok N ?t j" if j: "?H \<le> j" "j < ?T" for j
  proof (cases "j = ?k")
    case True
    with op lf_invD(5) [OF inv j] show ?thesis by (auto simp: lf_slot_ok_def o split: if_splits)
  next
    case False
    then have "lf_slot_ok N ?t j = lf_slot_ok N s j" using other [OF j]
      by (rule_tac lf_slot_ok_cong) (simp_all add: o)
    with lf_invD(5) [OF inv j] show ?thesis by simp
  qed
  moreover have "lf_cok N ?t c = lf_cok N s c" for c by (cases c) (simp_all add: o)
  ultimately show ?thesis using inv sh o by (simp add: lf_inv_def lf_shape_def)
qed

lemma lf_inv_publish:
  assumes inv: "lf_inv N s" and pc: "lf_prod s p = PFlag d old"
  shows "lf_inv N (s\<lparr>lf_q := (lf_q s)\<lparr>lf_flag := (lf_flag (lf_q s))[ix_index old := True]\<rparr>,
      lf_prod := (lf_prod s)(p := PIdle)\<rparr>)" (is "lf_inv N ?t")
proof -
  let ?H = "length (lf_pops s)" and ?T = "length (lf_hist s)" and ?k = "lf_ticket s p"
  note sh = lf_invD(1) [OF inv, unfolded lf_shape_def]
  from lf_invD(2) [OF inv, of p] pc have k: "?H \<le> ?k" "?k < ?T" "old = tkt N ?k" "lf_hist s ! ?k = d"
    "lf_data (lf_q s) ! (?k mod N) = d" by auto
  have o: "owns ?t r j \<longleftrightarrow> r \<noteq> p \<and> owns s r j" for r j by (simp add: owns_def)
  have op: "owns s p ?k" using pc by (simp add: owns_def)
  have flag: "lf_flag (lf_q ?t) ! (j mod N) = (j = ?k \<or> lf_flag (lf_q s) ! (j mod N))"
    if "?H \<le> j" "j < ?H + N" for j
    using that k sh mod_window [of ?H ?k N j] by (auto simp: nth_list_update)
  have "lf_pok N ?t r (lf_prod ?t r)" for r
    using lf_invD(2) [OF inv, of r] by (cases "r = p"; cases "lf_prod s r") auto
  moreover have "lf_slot_ok N ?t j" if j: "?H \<le> j" "j < ?T" for j
  proof (cases "j = ?k")
    case True
    have "\<not> owns ?t r ?k" for r using lf_invD(4) [OF inv op, of r] unfolding o by blast
    with k sh flag [of ?k] True show ?thesis by (simp add: lf_slot_ok_def)
  next
    case False
    then have "owns ?t r j = owns s r j" for r using op by (auto simp: o owns_def)
    then have "lf_slot_ok N ?t j = lf_slot_ok N s j" using flag [of j] j sh False
      by (rule_tac lf_slot_ok_cong) simp_all
    with lf_invD(5) [OF inv j] show ?thesis by simp
  qed
  moreover have "lf_cok N ?t (lf_cons ?t)"
    using lf_invD(3) [OF inv] flag [of ?H] sh op by (cases "lf_cons s") (auto simp: o)
  moreover have "\<not> lf_flag (lf_q ?t) ! (j mod N)" if "?T \<le> j" "j < ?H + N" for j
    using flag [of j] that k sh lf_invD(6) [OF inv that] by simp
  ultimately show ?thesis using inv sh o by (auto simp: lf_inv_def lf_shape_def)
qed

text \<open>The two stores of the consumer.\<close>

lemma lf_inv_clear:
  assumes inv: "lf_inv N s" and pc: "lf_cons s = CClear h d"
  shows "lf_inv N (s\<lparr>lf_q := (lf_q s)\<lparr>lf_flag := (lf_flag (lf_q s))[ix_index h := False]\<rparr>,
      lf_cons := CStore h d\<rparr>)" (is "lf_inv N ?t")
proof -
  let ?H = "length (lf_pops s)" and ?T = "length (lf_hist s)"
  note sh = lf_invD(1) [OF inv, unfolded lf_shape_def]
  from lf_invD(3) [OF inv] pc have k: "?H < ?T" "h = tkt N ?H" "lf_flag (lf_q s) ! (?H mod N)"
    "d = lf_hist s ! ?H" by auto
  have flag: "lf_flag (lf_q ?t) ! (j mod N) = (j \<noteq> ?H \<and> lf_flag (lf_q s) ! (j mod N))"
    if "?H \<le> j" "j < ?H + N" for j
    using that k sh mod_window [of ?H ?H N j] by (auto simp: nth_list_update)
  have "lf_pok N ?t r pc = lf_pok N s r pc" for r pc by (cases pc) simp_all
  moreover have "lf_slot_ok N ?t j" if j: "?H \<le> j" "j < ?T" for j
  proof (cases "j = ?H")
    case True
    with flag [of ?H] sh show ?thesis by (simp add: lf_slot_ok_def)
  next
    case False
    then have "lf_slot_ok N ?t j = lf_slot_ok N s j" using flag [of j] j sh
      by (rule_tac lf_slot_ok_cong) simp_all
    with lf_invD(5) [OF inv j] show ?thesis by simp
  qed
  moreover have "lf_cok N ?t (lf_cons ?t)"
    using k flag [of ?H] sh lf_invD(5) [OF inv, of ?H] by (simp add: lf_slot_ok_def)
  moreover have "\<not> lf_flag (lf_q ?t) ! (j mod N)" if "?T \<le> j" "j < ?H + N" for j
    using flag [of j] that sh lf_invD(6) [OF inv that] by simp
  ultimately show ?thesis using inv sh by (simp add: lf_inv_def lf_shape_def)
qed

lemma lf_inv_store:
  assumes inv: "lf_inv N s" and pc: "lf_cons s = CStore h d"
  shows "lf_inv N (s\<lparr>lf_q := (lf_q s)\<lparr>lf_head := ix_succ N h\<rparr>, lf_cons := CIdle, lf_pops := lf_pops s @ [d]\<rparr>)"
    (is "lf_inv N ?t")
proof -
  let ?H = "length (lf_pops s)" and ?T = "length (lf_hist s)"
  note sh = lf_invD(1) [OF inv, unfolded lf_shape_def]
  from lf_invD(3) [OF inv] pc have k: "?H < ?T" "h = tkt N ?H" "\<not> lf_flag (lf_q s) ! (?H mod N)"
    "d = lf_hist s ! ?H" "\<And>p. \<not> owns s p ?H" by auto
  have "lf_pok N ?t r (lf_prod s r)" for r
  proof -
    have "writing (lf_prod s r) \<Longrightarrow> lf_ticket s r \<noteq> ?H" using k(5) [of r] by (simp add: owns_def)
    with lf_invD(2) [OF inv, of r] show ?thesis by (cases "lf_prod s r") (auto intro: le_SucI)
  qed
  moreover have "lf_slot_ok N ?t j" if j: "?H < j" "j < ?T" for j
  proof -
    have "lf_slot_ok N ?t j = lf_slot_ok N s j" using j
      by (intro lf_slot_ok_cong) simp_all
    with lf_invD(5) [OF inv, of j] j show ?thesis by simp
  qed
  moreover have "\<not> lf_flag (lf_q ?t) ! (j mod N)" if "?T \<le> j" "j < Suc (?H + N)" for j
    using k lf_invD(6) [OF inv that(1)] that(2) by (cases "j = ?H + N") simp_all
  moreover have "lf_pops s @ [d] = take (Suc ?H) (lf_hist s)"
    using sh k by (simp add: take_Suc_conv_app_nth)
  ultimately show ?thesis using inv sh k by (simp add: lf_inv_def lf_shape_def Suc_le_eq)
qed

lemma lf_shapeD:
  assumes "lf_inv N s"
  shows "lf_head (lf_q s) = tkt N (length (lf_pops s))" "lf_tail (lf_q s) = tkt N (length (lf_hist s))"
    "length (lf_pops s) \<le> length (lf_hist s)" "length (lf_hist s) < length (lf_pops s) + N"
  using lf_invD(1) [OF assms] by (simp_all add: lf_shape_def)

text \<open>Every step keeps the invariant.\<close>

lemma lf_inv_pstep:
  assumes inv: "lf_inv N s" and "length (lf_hist s) < 2 ^ 32" "lf_pstep N p spurious s = Some t"
  shows "lf_inv N t"
proof -
  note sh = lf_shapeD [OF inv] and pok = lf_invD(2) [OF inv, of p]
  show ?thesis
  proof (cases "lf_prod s p")
    case (PFullTail d n old)
    with pok obtain m where "m \<le> length (lf_hist s)" "old = tkt N m" by auto
    then have "lf_pok N s p (PFullHead d n old (tkt N (length (lf_hist s))))" by auto
    with PFullTail assms sh show ?thesis
      by (auto simp: lf_pstep_def simp del: lf_pok.simps intro!: lf_inv_move)
  next
    case (PFullHead d n old t)
    with pok obtain m m' where m: "m \<le> m'" "m' \<le> length (lf_hist s)" "old = tkt N m" "t = tkt N m'"
      by auto
    then have "lf_pok N s p (PCas d (n + 1) old)" if "(m' + 1) mod N \<noteq> length (lf_pops s) mod N"
      using that sh unfolding lf_pok.simps
      by (intro exI [of _ m] exI [of _ m'] exI [of _ "length (lf_pops s)"]) simp
    with PFullHead assms m(4) sh show ?thesis
      by (auto simp: lf_pstep_def mod_simps simp del: lf_pok.simps(5) intro!: lf_inv_move split: if_splits)
  next
    case (PCas d n old)
    with assms lf_inv_claim [OF inv PCas] show ?thesis
      by (auto simp: lf_pstep_def intro!: lf_inv_move split: if_splits)
  next
    case (PData d old)
    with assms lf_inv_write [OF inv PData] show ?thesis by (auto simp: lf_pstep_def)
  next
    case (PFlag d old)
    with assms lf_inv_publish [OF inv PFlag] show ?thesis by (auto simp: lf_pstep_def)
  qed (use assms sh in \<open>auto simp: lf_pstep_def intro!: lf_inv_move split: if_splits\<close>)
qed

lemma lf_inv_cstep:
  assumes inv: "lf_inv N s" and "lf_cstep N s = Some t"
  shows "lf_inv N t"
proof -
  note sh = lf_shapeD [OF inv] and cok = lf_invD(3) [OF inv]
  show ?thesis
  proof (cases "lf_cons s")
    case (CEmptyHead h)
    with cok obtain m where m: "length (lf_pops s) \<le> m" "m \<le> length (lf_hist s)" "h = tkt N m" by auto
    show ?thesis
    proof (cases "m mod N = length (lf_pops s) mod N")
      case True
      with CEmptyHead assms sh m show ?thesis by (auto simp: lf_cstep_def intro!: lf_inv_cmove)
    next
      case False
      then have "length (lf_pops s) < length (lf_hist s)" using m by (cases "m = length (lf_pops s)") auto
      with False CEmptyHead assms sh m show ?thesis by (auto simp: lf_cstep_def intro!: lf_inv_cmove)
    qed
  next
    case (CRead h)
    with cok sh lf_invD(5) [OF inv, of "length (lf_pops s)"] assms show ?thesis
      by (auto simp: lf_cstep_def lf_slot_ok_def intro!: lf_inv_cmove)
  next
    case (CClear h d)
    with assms lf_inv_clear [OF inv CClear] show ?thesis by (auto simp: lf_cstep_def)
  next
    case (CStore h d)
    with assms lf_inv_store [OF inv CStore] show ?thesis by (auto simp: lf_cstep_def)
  qed (use assms sh cok in \<open>auto simp: lf_cstep_def intro!: lf_inv_cmove split: if_splits\<close>)
qed

lemma lf_hist_mono: "lf_do N a s = Some t \<Longrightarrow> length (lf_hist s) \<le> length (lf_hist t)"
  by (cases a) (auto simp: lf_pstep_def lf_cstep_def split: ppc.splits cpc.splits if_splits)

lemma lf_inv_reach: "lf_reach N z s \<Longrightarrow> 0 < N \<Longrightarrow> length (lf_hist s) < 2 ^ 32 \<Longrightarrow> lf_inv N s"
proof (induction rule: lf_reach.induct)
  case (lf_next s a t)
  have "lf_inv N s" "length (lf_hist s) < 2 ^ 32" using lf_next lf_hist_mono [OF lf_next(2)] by auto
  then show ?case using lf_next(2)
    by (cases a) (auto intro!: lf_inv_move lf_inv_cmove intro: lf_inv_cstep lf_inv_pstep split: if_splits)
qed (simp add: lf_inv_init)

section \<open>The queue of one thread is a bounded queue\<close>

text \<open>The elements of a queue nobody is working on, oldest first.\<close>

definition lf_count :: "'a lfq \<Rightarrow> nat" where
  "lf_count q = (ix_index (lf_tail q) + length (lf_data q) - ix_index (lf_head q)) mod length (lf_data q)"

definition lf_items :: "'a lfq \<Rightarrow> 'a list" where
  "lf_items q = map (\<lambda>i. lf_data q ! ((ix_index (lf_head q) + i) mod length (lf_data q))) [0..<lf_count q]"

definition lf_wf :: "'a lfq \<Rightarrow> bool" where
  "lf_wf q \<longleftrightarrow> 0 < length (lf_data q) \<and> length (lf_flag q) = length (lf_data q)
     \<and> ix_index (lf_head q) < length (lf_data q) \<and> ix_index (lf_tail q) < length (lf_data q)
     \<and> (\<forall>i < length (lf_data q). lf_flag q ! ((ix_index (lf_head q) + i) mod length (lf_data q)) = (i < lf_count q))"

text \<open>A quiescent state is the queue of the claims not yet popped.\<close>

definition lf_quiet :: "'a lfs \<Rightarrow> bool" where
  "lf_quiet s \<longleftrightarrow> lf_prod s = (\<lambda>_. PIdle) \<and> lf_cons s = CIdle"

lemma lf_mod_diff:
  "H \<le> T \<Longrightarrow> T < H + N \<Longrightarrow> (T mod N + N - H mod N) mod N = T - (H::nat)"
proof -
  assume a: "H \<le> T" "T < H + N"
  then have N: "0 < N" by simp
  have "int (T mod N + N - H mod N) = (int T mod int N - int H mod int N) + int N"
    using mod_less_divisor [OF N, of H] by (simp add: of_nat_diff less_imp_le trans_le_add2 zmod_int)
  then have "int ((T mod N + N - H mod N) mod N) = (int T - int H) mod int N"
    by (simp add: zmod_int mod_diff_eq)
  also have "\<dots> = int (T - H)" using a by simp
  finally show ?thesis by simp
qed

lemma lf_quiet_wf:
  assumes inv: "lf_inv N s" and "lf_quiet s"
  shows "lf_wf (lf_q s)" "lf_items (lf_q s) = drop (length (lf_pops s)) (lf_hist s)"
    "length (lf_data (lf_q s)) = N"
proof -
  let ?H = "length (lf_pops s)" and ?T = "length (lf_hist s)"
  note sh = lf_shapeD [OF inv]
  from lf_invD(1) [OF inv] show N: "length (lf_data (lf_q s)) = N" by (simp add: lf_shape_def)
  from lf_invD(1) [OF inv] have F: "length (lf_flag (lf_q s)) = N" by (simp add: lf_shape_def)
  have c: "lf_count (lf_q s) = ?T - ?H" using sh by (simp add: lf_count_def N lf_mod_diff)
  have no: "\<not> owns s p k" "\<not> storing (lf_cons s)" for p k using assms(2) by (simp_all add: lf_quiet_def owns_def)
  have slot: "lf_flag (lf_q s) ! ((?H + i) mod N)" "lf_data (lf_q s) ! ((?H + i) mod N) = lf_hist s ! (?H + i)"
    if "i < ?T - ?H" for i
  proof -
    have "lf_slot_ok N s (?H + i)" using lf_invD(5) [OF inv, of "?H + i"] that by linarith
    with no show "lf_flag (lf_q s) ! ((?H + i) mod N)"
      "lf_data (lf_q s) ! ((?H + i) mod N) = lf_hist s ! (?H + i)"
      by (simp_all add: lf_slot_ok_def split: if_splits)
  qed
  have free: "\<not> lf_flag (lf_q s) ! ((?H + i) mod N)" if "\<not> i < ?T - ?H" "i < N" for i
    using lf_invD(6) [OF inv, of "?H + i"] that by simp
  have N0: "0 < N" using sh by linarith
  show "lf_wf (lf_q s)" using slot free N0 sh by (auto simp: lf_wf_def N F c mod_simps)
  show "lf_items (lf_q s) = drop ?H (lf_hist s)"
    using slot sh by (auto simp: lf_items_def N c mod_simps intro!: nth_equalityI)
qed

text \<open>The calls as a client sees them: a push that is not disturbed, a pop, the value a pop would give.\<close>

definition lf_push :: "'a \<Rightarrow> 'a lfq \<Rightarrow> (bool \<times> 'a lfq) option" where
  "lf_push d q = (case lf_Push (length (lf_data q)) (\<lambda>_. False) d q of (e, q') \<Rightarrow> Some (e = None, q'))"

definition lf_pop :: "'a lfq \<Rightarrow> 'a lfq option" where
  "lf_pop q = (case lf_Pop (length (lf_data q)) q of (Inl e, q') \<Rightarrow> None | (Inr d, q') \<Rightarrow> Some q')"

definition lf_peek :: "'a lfq \<Rightarrow> 'a option" where
  "lf_peek q = (case lf_Pop (length (lf_data q)) q of (Inl e, q') \<Rightarrow> None | (Inr d, q') \<Rightarrow> Some d)"

lemma lf_tail_pos:
  assumes "lf_wf q"
  shows "ix_index (lf_tail q) = (ix_index (lf_head q) + lf_count q) mod length (lf_data q)"
    "lf_count q < length (lf_data q)"
proof -
  let ?N = "length (lf_data q)" and ?h = "ix_index (lf_head q)" and ?t = "ix_index (lf_tail q)"
  from assms have a: "?h < ?N" "?t < ?N" "0 < ?N" by (simp_all add: lf_wf_def)
  have "(?h + lf_count q) mod ?N = (?h + (?t + ?N - ?h)) mod ?N"
    by (simp add: lf_count_def mod_simps)
  with a show "?t = (?h + lf_count q) mod ?N" by simp
  show "lf_count q < ?N" using a by (simp add: lf_count_def)
qed

lemma lf_count_at:
  "length (lf_data q) = N \<Longrightarrow> ix_index (lf_tail q) = (ix_index (lf_head q) + c) mod N \<Longrightarrow> c < N \<Longrightarrow>
   ix_index (lf_head q) < N \<Longrightarrow> lf_count q = c"
  using lf_mod_diff [of "ix_index (lf_head q)" "ix_index (lf_head q) + c" N] by (simp add: lf_count_def)

lemma lf_IsEmpty_iff: "lf_wf q \<Longrightarrow> lf_IsEmpty q \<longleftrightarrow> lf_count q = 0"
  using lf_tail_pos [of q] mod_window [of "ix_index (lf_head q)" "ix_index (lf_head q) + lf_count q" "length (lf_data q)"
      "ix_index (lf_head q)"] by (auto simp: lf_IsEmpty_def lf_wf_def)

lemma lf_IsFull_iff:
  assumes "lf_wf q"
  shows "lf_IsFull (length (lf_data q)) q \<longleftrightarrow> lf_count q + 1 = length (lf_data q)"
proof -
  let ?N = "length (lf_data q)" and ?h = "ix_index (lf_head q)"
  have "lf_IsFull ?N q \<longleftrightarrow> (?h + (lf_count q + 1)) mod ?N = ?h mod ?N"
    using lf_tail_pos(1) [OF assms] assms by (simp add: lf_IsFull_def lf_wf_def mod_simps)
  also have "\<dots> \<longleftrightarrow> ?N dvd lf_count q + 1"
    using mod_eq_dvd_iff_nat [of ?h "?h + (lf_count q + 1)" ?N] by (auto simp: eq_commute)
  also have "\<dots> \<longleftrightarrow> lf_count q + 1 = ?N"
    using lf_tail_pos(2) [OF assms] by (auto dest: dvd_imp_le)
  finally show ?thesis .
qed

text \<open>The loop: full, a hundred failures, or a claim of the tail.\<close>

lemma lf_push_loop_result:
  "n \<le> MAX_TRY_TIMES \<Longrightarrow> lf_push_loop N fails n q =
     (if lf_IsFull N q then (if n = MAX_TRY_TIMES then Inl TryMax else Inl QueueFull, q)
      else if list_all fails [n..<MAX_TRY_TIMES] then (Inl TryMax, q)
      else (Inr (lf_tail q), q\<lparr>lf_tail := ix_succ N (lf_tail q)\<rparr>))"
proof (induction N fails n q rule: lf_push_loop.induct)
  case (1 N fails n q)
  show ?case
  proof (cases "n = MAX_TRY_TIMES")
    case True
    then show ?thesis by (simp add: lf_push_loop.simps)
  next
    case False
    with 1 have "[n..<MAX_TRY_TIMES] = n # [n + 1..<MAX_TRY_TIMES]" by (simp add: upt_conv_Cons)
    with False 1 show ?thesis by (subst lf_push_loop.simps) (auto simp: Let_def)
  qed
qed

lemma lf_Push_result:
  "lf_Push N fails d q =
     (if lf_IsFull N q then (Some QueueFull, q)
      else if list_all fails [0..<MAX_TRY_TIMES] then (Some TryMax, q)
      else (None, q\<lparr>lf_tail := ix_succ N (lf_tail q), lf_data := (lf_data q)[ix_index (lf_tail q) := d],
              lf_flag := (lf_flag q)[ix_index (lf_tail q) := True]\<rparr>))"
  by (simp add: lf_Push_def lf_push_loop_result) (simp add: MAX_TRY_TIMES_def)

lemma lf_undisturbed: "\<not> list_all (\<lambda>_. False) [0..<MAX_TRY_TIMES]"
  unfolding MAX_TRY_TIMES_def list_all_iff by (rule notI, drule bspec [of _ _ 0]) simp_all

lemma lf_Push_room:
  fixes d :: 'a
  assumes wf: "lf_wf q" and room: "lf_count q + 1 < length (lf_data q)"
    and N: "N = length (lf_data q)"
  defines "t \<equiv> q\<lparr>lf_tail := ix_succ N (lf_tail q), lf_data := (lf_data q)[ix_index (lf_tail q) := d],
              lf_flag := (lf_flag q)[ix_index (lf_tail q) := True]\<rparr>"
  shows "lf_wf t" "lf_items t = lf_items q @ [d]" "length (lf_data t) = N"
proof -
  let ?h = "ix_index (lf_head q)"
  note tp = lf_tail_pos [OF wf]
  have h: "?h < N" "ix_index (lf_tail q) < N" "length (lf_flag q) = N" "lf_count q < N" "0 < N"
    using wf tp by (simp_all add: lf_wf_def N)
  have c: "lf_count t = lf_count q + 1"
    using tp h room by (intro lf_count_at [of _ N]) (simp_all add: t_def ix_succ_def mod_simps N)
  have pos: "(?h + i) mod N = ix_index (lf_tail q) \<longleftrightarrow> i = lf_count q" if "i < N" for i
    using mod_window [of ?h "?h + i" N "?h + lf_count q"] that tp h by (simp add: N)
  show "length (lf_data t) = N" by (simp add: t_def N)
  have "lf_flag t ! ((?h + i) mod N) = (i < lf_count q + 1)" if "i < N" for i
  proof -
    have "lf_flag q ! ((?h + i) mod N) = (i < lf_count q)" using wf that unfolding lf_wf_def N by blast
    with pos [OF that] h show ?thesis by (auto simp: t_def nth_list_update)
  qed
  then show "lf_wf t" using h unfolding lf_wf_def c by (simp add: t_def N [symmetric] ix_succ_def)
  have "map (\<lambda>i. lf_data t ! ((?h + i) mod N)) [0..<lf_count q]
      = map (\<lambda>i. lf_data q ! ((?h + i) mod N)) [0..<lf_count q]"
  proof (rule map_cong [OF refl])
    fix i assume "i \<in> set [0..<lf_count q]"
    then show "lf_data t ! ((?h + i) mod N) = lf_data q ! ((?h + i) mod N)"
      using pos [of i] h by (simp add: t_def)
  qed
  moreover have "lf_data t ! ((?h + lf_count q) mod N) = d"
    using pos [of "lf_count q"] h N by (simp add: t_def)
  ultimately show "lf_items t = lf_items q @ [d]" unfolding lf_items_def c
    by (simp add: t_def N [symmetric])
qed

lemma lf_Pop_result:
  assumes wf: "lf_wf q" and some: "lf_items q \<noteq> []" and N: "N = length (lf_data q)"
  shows "\<exists>t. lf_Pop N q = (Inr (hd (lf_items q)), t) \<and> lf_wf t \<and> lf_items t = tl (lf_items q)
    \<and> length (lf_data t) = N"
proof -
  let ?h = "ix_index (lf_head q)"
  let ?t = "q\<lparr>lf_flag := (lf_flag q)[?h := False], lf_head := ix_succ N (lf_head q)\<rparr>"
  note tp = lf_tail_pos [OF wf]
  from some have c0: "0 < lf_count q" by (auto simp: lf_items_def)
  have h: "?h < N" "ix_index (lf_tail q) < N" "length (lf_flag q) = N" "lf_count q < N" "0 < N"
    using wf tp by (simp_all add: lf_wf_def N)
  have fl: "lf_flag q ! ?h" using wf h c0 by (auto simp: lf_wf_def dest!: spec [of _ 0])
  have hd: "hd (lf_items q) = lf_data q ! ?h" using c0 h by (simp add: lf_items_def hd_map N)
  have c: "lf_count ?t = lf_count q - 1"
    using tp h c0 by (cases "lf_count q") (auto intro!: lf_count_at [of _ N] simp: ix_succ_def mod_simps N)
  have "lf_flag ?t ! ((ix_index (lf_head ?t) + i) mod N) = (i < lf_count q - 1)" if "i < N" for i
  proof -
    have e: "(ix_index (lf_head ?t) + i) mod N = (?h + (i + 1)) mod N" by (simp add: ix_succ_def mod_simps)
    show ?thesis
    proof (cases "i + 1 = N")
      case True
      then have "(?h + (i + 1)) mod N = ?h" using h by simp
      with h show ?thesis unfolding e using True by simp
    next
      case False
      with that have i: "i + 1 < N" by simp
      then have "(?h + (i + 1)) mod N \<noteq> ?h" using mod_window [of ?h "?h + (i + 1)" N ?h] h by simp
      moreover have "lf_flag q ! ((?h + (i + 1)) mod N) = (i + 1 < lf_count q)"
        using wf i unfolding lf_wf_def N by blast
      ultimately show ?thesis unfolding e using h by (auto simp: nth_list_update)
    qed
  qed
  then have "lf_wf ?t" using wf h unfolding lf_wf_def c by (simp add: N [symmetric] ix_succ_def)
  moreover have "lf_items ?t = tl (lf_items q)"
    unfolding lf_items_def c by (rule nth_equalityI) (simp_all add: N [symmetric] ix_succ_def mod_simps nth_tl less_diff_conv)
  moreover have "lf_Pop N q = (Inr (hd (lf_items q)), ?t)"
    using lf_IsEmpty_iff [OF wf] c0 fl hd by (simp add: lf_Pop_def Let_def)
  ultimately show ?thesis by (simp add: N)
qed

interpretation lfq: bounded_fifo lf_wf lf_items "\<lambda>q. length (lf_data q) - 1" lf_push lf_pop lf_peek
proof (unfold_locales, goal_cases)
  case (1 s)
  then show ?case using lf_tail_pos(2) [of s] by (simp add: lf_items_def)
next
  case (2 s x)
  then have "lf_count s + 1 < length (lf_data s)" by (simp add: lf_items_def)
  with 2 lf_Push_room [OF 2(1), of _ x] lf_IsFull_iff [OF 2(1)] show ?case
    by (simp add: lf_push_def lf_Push_result lf_undisturbed)
next
  case (3 s x)
  then have "lf_IsFull (length (lf_data s)) s" using lf_IsFull_iff [of s] lf_tail_pos(2) [of s]
    by (simp add: lf_items_def)
  then show ?case by (simp add: lf_push_def lf_Push_result)
next
  case (4 s)
  then show ?case using lf_Pop_result [of s "length (lf_data s)"] by (auto simp: lf_pop_def)
next
  case (5 s)
  then show ?case using lf_Pop_result [of s "length (lf_data s)"] by (auto simp: lf_peek_def)
qed

section \<open>Properties\<close>

text \<open>C10. Whatever the interleaving of any number of producers with the consumer, as long as fewer than
  \<open>2\<^sup>3\<^sup>2\<close> slots were claimed, the values popped are the values in the order their slots were claimed:
  none is lost, duplicated, reordered or torn; and fewer than \<open>QUEUE_SIZE\<close> claims are outstanding.\<close>

theorem lf_fifo:
  assumes "lf_reach N z s" "0 < N" "length (lf_hist s) < 2 ^ 32"
  shows "lf_pops s = take (length (lf_pops s)) (lf_hist s) \<and> length (lf_hist s) < length (lf_pops s) + N"
  using lf_invD(1) [OF lf_inv_reach [OF assms]] by (simp add: lf_shape_def)

definition lf_demo :: "nat lf_act list" where
  "lf_demo = [CallPush 0 7, CallPush 1 8, StepPush 0 False, StepPush 1 False, StepPush 0 False,
     StepPush 1 False, StepPush 1 False, StepPush 0 False, StepPush 1 False, StepPush 0 False,
     StepPush 1 False, StepPush 1 False, CallPop, StepPop, StepPop, StepPop, StepPop, StepPop, StepPop, StepPop]"

lemma lf_demo_run:
  "map_option (\<lambda>s. (lf_pops s, lf_hist s, lf_prod s 0)) (lf_exec 3 lf_demo (lf_init 3 (0::nat)))
     = Some ([8], [8], PLoad 7 1)"
  by (simp add: lf_demo_def lf_init_def lf_new_def lf_pstep_def lf_cstep_def ix_succ_def MAX_TRY_TIMES_def)

lemma lf_fifo_witness: "\<exists>s. lf_reach 3 (0::nat) s \<and> lf_pops s = [8] \<and> lf_pops s = take (length (lf_pops s)) (lf_hist s)
    \<and> length (lf_hist s) < length (lf_pops s) + 3"
proof -
  from lf_demo_run obtain s where s: "lf_exec 3 lf_demo (lf_init 3 (0::nat)) = Some s" "lf_pops s = [8]"
    "lf_hist s = [8]" by auto
  have "lf_reach 3 0 s" by (rule lf_exec_reach [OF lf_start s(1)])
  with lf_fifo [of 3 0 s] s show ?thesis by (intro exI [of _ s]) simp
qed


definition lf_demo_two :: "nat lf_act list" where
  "lf_demo_two = [CallPush 0 7, CallPush 1 8, StepPush 0 False, StepPush 0 False, StepPush 0 False,
     StepPush 0 False, StepPush 1 False, StepPush 1 False, StepPush 1 False, StepPush 1 False]"

lemma lf_demo_two_run:
  "map_option (\<lambda>s. (lf_prod s 0, lf_prod s 1, length (lf_hist s))) (lf_exec 3 lf_demo_two (lf_init 3 (0::nat)))
     = Some (PData 7 \<lparr>ix_version = 0, ix_index = 0\<rparr>, PData 8 \<lparr>ix_version = 1, ix_index = 1\<rparr>, 2)"
  by (simp add: lf_demo_two_def lf_init_def lf_new_def lf_pstep_def ix_succ_def MAX_TRY_TIMES_def)


text \<open>C12. When every call has returned, the queue is, for a single thread, the queue of exactly the claimed
  values not yet popped: popping them one after the other gives them in the order of their claims.\<close>

theorem lf_quiescent_drain:
  assumes "lf_reach N z s" "0 < N" "length (lf_hist s) < 2 ^ 32" "lf_quiet s"
  shows "\<exists>q. drain lf_peek lf_pop (length (lf_hist s) - length (lf_pops s)) (lf_q s)
      = Some (drop (length (lf_pops s)) (lf_hist s), q) \<and> lf_items q = []"
proof -
  note inv = lf_inv_reach [OF assms(1-3)]
  note wf = lf_quiet_wf [OF inv assms(4)]
  from lfq.drain_in_order [OF wf(1), of "length (lf_items (lf_q s))"] wf(2)
  show ?thesis by auto
qed

definition lf_demo_done :: "nat lf_act list" where
  "lf_demo_done = [CallPush 0 7, StepPush 0 False, StepPush 0 False, StepPush 0 False, StepPush 0 False,
     StepPush 0 False, StepPush 0 False]"

lemma lf_demo_done_run:
  "map_option (\<lambda>s. (lf_quiet s, lf_pops s, lf_hist s)) (lf_exec 3 lf_demo_done (lf_init 3 (0::nat)))
     = Some (True, [], [7])"
  by (simp add: lf_demo_done_def lf_init_def lf_new_def lf_pstep_def ix_succ_def MAX_TRY_TIMES_def
      lf_quiet_def fun_upd_idem_iff)

lemma lf_quiescent_drain_witness: "\<exists>s q. lf_reach 3 (0::nat) s \<and> lf_quiet s \<and> lf_hist s = [7]
    \<and> drain lf_peek lf_pop 1 (lf_q s) = Some ([7], q)"
proof -
  from lf_demo_done_run obtain s where s: "lf_exec 3 lf_demo_done (lf_init 3 (0::nat)) = Some s"
    "lf_quiet s" "lf_pops s = []" "lf_hist s = [7]" by auto
  have r: "lf_reach 3 0 s" by (rule lf_exec_reach [OF lf_start s(1)])
  with lf_quiescent_drain [of 3 0 s] s show ?thesis by (intro exI [of _ s]) auto
qed

text \<open>C36. Without interference the calls do what their steps do: a producer scheduled alone from its call
  to its return leaves the queue as \<^verbatim>\<open>Push\<close> as one function does, and a push has exactly the
  results of the code: full, too many failed exchanges, or the value appended.\<close>

theorem lf_push_alone:
  assumes "lf_prod s p = PIdle" "\<not> lf_IsFull N (lf_q s)" "length (lf_data (lf_q s)) = N" "lf_wf (lf_q s)"
  shows "\<exists>t. lf_exec N (CallPush p d # replicate 6 (StepPush p False)) s = Some t
    \<and> lf_prod t = lf_prod s \<and> lf_wf (lf_q t) \<and> lf_items (lf_q t) = lf_items (lf_q s) @ [d]
    \<and> lf_Push N fails d (lf_q s)
        = (if list_all fails [0..<100] then (Some TryMax, lf_q s) else (None, lf_q t))"
proof -
  have room: "lf_count (lf_q s) + 1 < length (lf_data (lf_q s))"
    using assms lf_IsFull_iff [OF assms(4)] lf_tail_pos(2) [OF assms(4)] by simp
  have pos: "0 < MAX_TRY_TIMES" by (simp add: MAX_TRY_TIMES_def)
  have e: "replicate 6 x = [x, x, x, x, x, x]" for x :: "'a lf_act" by (simp add: numeral_nat)
  let ?q = "(lf_q s)\<lparr>lf_tail := ix_succ N (lf_tail (lf_q s)), lf_data := (lf_data (lf_q s))[ix_index (lf_tail (lf_q s)) := d],
              lf_flag := (lf_flag (lf_q s))[ix_index (lf_tail (lf_q s)) := True]\<rparr>"
  obtain t where t: "lf_exec N (CallPush p d # replicate 6 (StepPush p False)) s = Some t"
      "lf_prod t = lf_prod s" "lf_q t = ?q"
    using assms pos by (auto simp: e lf_pstep_def lf_IsFull_def fun_upd_idem)
  have "lf_Push N fails d (lf_q s)
      = (if list_all fails [0..<100] then (Some TryMax, lf_q s) else (None, ?q))"
    using assms(2) by (simp add: lf_Push_result MAX_TRY_TIMES_def)
  then show ?thesis using lf_Push_room(1,2) [OF assms(4) room, of N d] assms(3) t
    by (intro exI [of _ t]) simp
qed

lemma lf_push_alone_witness:
  "\<exists>t. lf_exec 3 (CallPush 0 7 # replicate 6 (StepPush 0 False)) (lf_init 3 (0::nat)) = Some t
    \<and> lf_items (lf_q t) = [7]"
  using lf_push_alone [of "lf_init 3 (0::nat)" 0 3 7 "\<lambda>_. False"]
    lf_quiet_wf [OF lf_inv_init, of 3 "0::nat"]
  by (auto simp: lf_init_def lf_new_def lf_IsFull_def lf_quiet_def)
end
