(* ===== verification/Timers.thy ===== *)
theory Timers
  imports Prelude "HOL-Library.Word"
begin

text \<open>
  \<^verbatim>\<open>src/common/clock.h\<close>, \<^verbatim>\<open>src/common/id_generator.{h,cpp}\<close> and
  \<^verbatim>\<open>src/common/timeout_queue.{h,cpp}\<close>: the clock, the generator of sequence ids and the
  queue of timers.  Times and ids are 64-bit words, intervals 32-bit words, and every addition wraps
  around.  A timer's task is a value of a type of its own; what running a task does to the program is
  a parameter of the loop that runs the tasks, so that tasks may add and cancel timers.
\<close>

section \<open>The clock\<close>

record clock = clk_micro_sec :: "64 word"

definition clk_CurrentSec :: "clock \<Rightarrow> 64 word" where
  "clk_CurrentSec c = clk_micro_sec c div 1000000"

definition clk_CurrentMilliSec :: "clock \<Rightarrow> 64 word" where
  "clk_CurrentMilliSec c = clk_micro_sec c div 1000"

definition clk_CurrentMicroSec :: "clock \<Rightarrow> 64 word" where
  "clk_CurrentMicroSec c = clk_micro_sec c"

definition clk_Update :: "64 word \<Rightarrow> clock \<Rightarrow> clock" where
  "clk_Update us c = c\<lparr>clk_micro_sec := us\<rparr>"

section \<open>The generator of sequence ids\<close>

record id_gen = ig_base :: "64 word"

definition ig_Init :: "clock \<Rightarrow> id_gen \<Rightarrow> bool \<times> id_gen" where
  "ig_Init c g = (True, g\<lparr>ig_base := and (push_bit 32 (clk_CurrentSec c)) 0xFFFFFFFF00000000\<rparr>)"

definition ig_GenerateSeqID :: "id_gen \<Rightarrow> 64 word \<times> id_gen" where
  "ig_GenerateSeqID g = (ig_base g + 1, g\<lparr>ig_base := ig_base g + 1\<rparr>)"

fun ig_many :: "nat \<Rightarrow> id_gen \<Rightarrow> 64 word list" where
  "ig_many 0 g = []"
| "ig_many (Suc n) g = (case ig_GenerateSeqID g of (i, g) \<Rightarrow> i # ig_many n g)"

lemma length_ig_many [simp]: "length (ig_many n g) = n"
  by (induction n arbitrary: g) (simp_all add: ig_GenerateSeqID_def)

lemma ig_many_nth: "i < n \<Longrightarrow> ig_many n g ! i = ig_base g + of_nat (Suc i)"
proof (induction n arbitrary: g i)
  case (Suc n)
  then show ?case by (cases i) (simp_all add: ig_GenerateSeqID_def)
qed simp

text \<open>The value of the \<open>i\<close>-th id while the seconds fit in 32 bits and fewer than \<open>2\<^sup>3\<^sup>2\<close> were made.\<close>

lemma ig_id_value:
  assumes "clk_CurrentSec c < 2 ^ 32" "Suc i < 2 ^ 32"
  shows "unat (ig_base (snd (ig_Init c g)) + of_nat (Suc i)) = unat (clk_CurrentSec c) * 2 ^ 32 + Suc i"
proof -
  let ?s = "clk_CurrentSec c"
  have m: "(0xFFFFFFFF00000000 :: 64 word) = push_bit 32 (mask 32)"
    by (simp add: mask_eq_exp_minus_1 push_bit_eq_mult)
  have s: "unat ?s < 2 ^ 32" using assms(1) by (simp add: word_less_nat_alt)
  then have "take_bit 32 ?s = ?s"
    by (metis take_bit_nat_eq_self unsigned_take_bit_eq word_unat_eq_iff)
  then have b: "ig_base (snd (ig_Init c g)) = push_bit 32 ?s"
    by (simp add: ig_Init_def m flip: push_bit_and take_bit_eq_mask)
  have "unat (push_bit 32 ?s) = unat ?s * 2 ^ 32"
    unfolding unsigned_push_bit_eq using s by (simp add: push_bit_eq_mult take_bit_nat_eq_self)
  moreover have "unat (of_nat (Suc i) :: 64 word) = Suc i"
    using assms(2) by (simp add: take_bit_nat_eq_self unsigned_of_nat del: of_nat_Suc)
  moreover have "unat ?s * 2 ^ 32 + Suc i < 2 ^ 64" using s assms(2) by simp
  ultimately show ?thesis unfolding b by (simp add: iffD1 [OF unat_add_lem] del: of_nat_Suc)
qed

section \<open>The timer queue\<close>

record 'k timer =
  tm_seq_id :: "64 word"
  tm_interval :: "32 word"
  tm_expire :: "64 word"
  tm_task :: 'k

text \<open>The order of the set: \<^verbatim>\<open>operator<=>\<close> and \<^verbatim>\<open>operator==\<close>.\<close>

definition tm_less :: "'k timer \<Rightarrow> 'k timer \<Rightarrow> bool" where
  "tm_less l r \<longleftrightarrow> (if tm_expire l \<noteq> tm_expire r then tm_expire l < tm_expire r else tm_seq_id l < tm_seq_id r)"

definition tm_eq :: "'k timer \<Rightarrow> 'k timer \<Rightarrow> bool" where
  "tm_eq l r \<longleftrightarrow> tm_expire l = tm_expire r \<and> tm_seq_id l = tm_seq_id r"

text \<open>The ordered set as the list of its elements in order: insertion and erasure.\<close>

fun ts_insert :: "'k timer \<Rightarrow> 'k timer list \<Rightarrow> bool \<times> 'k timer list" where
  "ts_insert t [] = (True, [t])"
| "ts_insert t (u # us) =
     (if tm_less t u then (True, t # u # us)
      else if tm_less u t then (case ts_insert t us of (b, us) \<Rightarrow> (b, u # us))
      else (False, u # us))"

definition ts_erase :: "64 word \<Rightarrow> 64 word \<Rightarrow> 'k timer list \<Rightarrow> 'k timer list" where
  "ts_erase expire seq us = filter (\<lambda>u. \<not> (tm_expire u = expire \<and> tm_seq_id u = seq)) us"

record 'k tq =
  tq_queue :: "'k timer list"
  tq_index :: "64 word \<rightharpoonup> 64 word"
  tq_base_id :: "64 word"

definition tq_new :: "'k tq" where
  "tq_new = \<lparr>tq_queue = [], tq_index = Map.empty, tq_base_id = 0\<rparr>"

definition tq_GenerateID :: "'k tq \<Rightarrow> 64 word \<times> 'k tq" where
  "tq_GenerateID q =
     (let b = tq_base_id q + 1; b = (if b = 0 then b + 1 else b) in (b, q\<lparr>tq_base_id := b\<rparr>))"

definition tq_Add :: "'k \<Rightarrow> 64 word \<Rightarrow> 32 word \<Rightarrow> 'k tq \<Rightarrow> 64 word \<times> 'k tq" where
  "tq_Add task expire interval q =
     (let (new_id, q) = tq_GenerateID q
      in if tq_index q new_id \<noteq> None then (0, q)
         else
           let q = q\<lparr>tq_index := (tq_index q)(new_id \<mapsto> expire)\<rparr>;
               (ok, us) = ts_insert \<lparr>tm_seq_id = new_id, tm_interval = interval, tm_expire = expire, tm_task = task\<rparr>
                            (tq_queue q)
           in if \<not> ok then (0, q\<lparr>tq_index := (tq_index q)(new_id := None)\<rparr>)
              else (new_id, q\<lparr>tq_queue := us\<rparr>))"

definition tq_Cancel :: "64 word \<Rightarrow> 'k tq \<Rightarrow> bool \<times> 'k tq" where
  "tq_Cancel i q =
     (case tq_index q i of
        None \<Rightarrow> (False, q)
      | Some expire \<Rightarrow>
          (True, q\<lparr>tq_queue := ts_erase expire i (tq_queue q), tq_index := (tq_index q)(i := None)\<rparr>))"

definition tq_Exist :: "64 word \<Rightarrow> 'k tq \<Rightarrow> bool" where
  "tq_Exist i q \<longleftrightarrow> tq_index q i \<noteq> None"

definition tq_Clear :: "'k tq \<Rightarrow> 'k tq" where
  "tq_Clear q = q\<lparr>tq_queue := [], tq_index := Map.empty\<rparr>"

text \<open>
  One round of \<^verbatim>\<open>TimeOut\<close> before the task is run: the timer is taken out and, when it is
  periodic, put back with its next expiry.
\<close>

definition tq_fire :: "'k timer \<Rightarrow> 'k tq \<Rightarrow> 'k tq" where
  "tq_fire t q =
     (let q = q\<lparr>tq_index := (tq_index q)(tm_seq_id t := None),
                tq_queue := ts_erase (tm_expire t) (tm_seq_id t) (tq_queue q)\<rparr>
      in if tm_interval t > 0
         then let t = t\<lparr>tm_expire := tm_expire t + ucast (tm_interval t)\<rparr>
              in if tq_index q (tm_seq_id t) = None
                 then q\<lparr>tq_index := (tq_index q)(tm_seq_id t \<mapsto> tm_expire t),
                        tq_queue := snd (ts_insert t (tq_queue q))\<rparr>
                 else q
         else q)"

text \<open>
  The loop.  The queue is a part of the program's state, read by \<open>get\<close> and written by \<open>put\<close>;
  \<open>exec\<close> runs a task on the whole state and is \<^term>\<open>None\<close> when the task aborts or does not return.
\<close>

partial_function (option) tq_TimeOut_loop ::
  "('w \<Rightarrow> 'k tq) \<Rightarrow> ('k tq \<Rightarrow> 'w \<Rightarrow> 'w) \<Rightarrow> ('k \<Rightarrow> 64 word \<Rightarrow> 32 word \<Rightarrow> 'w \<Rightarrow> 'w option) \<Rightarrow>
    64 word \<Rightarrow> 32 word \<Rightarrow> 'w \<Rightarrow> (32 word \<times> 'w) option" where
  "tq_TimeOut_loop get put exec now count w =
     (case tq_queue (get w) of
        [] \<Rightarrow> Some (count, w)
      | t # _ \<Rightarrow>
          if tm_expire t > now then Some (count, w)
          else do {
            w' \<leftarrow> exec (tm_task t) (tm_seq_id t) (tm_interval t) (put (tq_fire t (get w)) w);
            tq_TimeOut_loop get put exec now (count + 1) w' })"

declare tq_TimeOut_loop.simps [code]

definition tq_TimeOut ::
  "('w \<Rightarrow> 'k tq) \<Rightarrow> ('k tq \<Rightarrow> 'w \<Rightarrow> 'w) \<Rightarrow> ('k \<Rightarrow> 64 word \<Rightarrow> 32 word \<Rightarrow> 'w \<Rightarrow> 'w option) \<Rightarrow>
    64 word \<Rightarrow> 'w \<Rightarrow> (32 word \<times> 'w) option" where
  "tq_TimeOut get put exec now w = tq_TimeOut_loop get put exec now 0 w"

section \<open>The invariant of the timer queue\<close>

text \<open>The set is ordered, its ids are different and not 0, and the index gives each id its expiry.\<close>

definition tq_inv :: "'k tq \<Rightarrow> bool" where
  "tq_inv q \<longleftrightarrow> sorted_wrt tm_less (tq_queue q) \<and> distinct (map tm_seq_id (tq_queue q))
     \<and> 0 \<notin> tm_seq_id ` set (tq_queue q)
     \<and> tq_index q = map_of (map (\<lambda>t. (tm_seq_id t, tm_expire t)) (tq_queue q))"

text \<open>What a client sees: the live timers by id.\<close>

definition tq_live :: "'k tq \<Rightarrow> 64 word \<rightharpoonup> 'k timer" where
  "tq_live q = map_of (map (\<lambda>t. (tm_seq_id t, t)) (tq_queue q))"

lemma tm_less_trans: "tm_less a b \<Longrightarrow> tm_less b c \<Longrightarrow> tm_less a c"
  by (auto simp: tm_less_def split: if_splits)

lemma tm_less_linear: "\<not> tm_less a b \<Longrightarrow> \<not> tm_less b a \<longleftrightarrow> tm_eq a b"
  by (auto simp: tm_less_def tm_eq_def split: if_splits)

lemma set_ts_insert: "set (snd (ts_insert t us)) \<subseteq> insert t (set us)"
  by (induction us) (auto split: prod.splits)

lemma ts_insert_fresh:
  "tm_seq_id t \<notin> tm_seq_id ` set us \<Longrightarrow> fst (ts_insert t us) \<and> set (snd (ts_insert t us)) = insert t (set us)
     \<and> (distinct (map tm_seq_id us) \<longrightarrow> distinct (map tm_seq_id (snd (ts_insert t us))))"
proof (induction us)
  case (Cons u us)
  then have "tm_less t u \<or> tm_less u t" by (auto simp: tm_less_def)
  with Cons show ?case by (auto split: prod.splits)
qed simp

lemma ts_insert_sorted: "sorted_wrt tm_less us \<Longrightarrow> sorted_wrt tm_less (snd (ts_insert t us))"
proof (induction us)
  case (Cons u us)
  with set_ts_insert [of t us] show ?case by (auto split: prod.splits dest: tm_less_trans)
qed simp

lemma set_ts_erase: "set (ts_erase e i us) = {u \<in> set us. \<not> (tm_expire u = e \<and> tm_seq_id u = i)}"
  by (auto simp: ts_erase_def)

lemma ts_erase_keeps:
  "sorted_wrt tm_less us \<Longrightarrow> sorted_wrt tm_less (ts_erase e i us)"
  "distinct (map tm_seq_id us) \<Longrightarrow> distinct (map tm_seq_id (ts_erase e i us))"
  by (auto simp: ts_erase_def sorted_wrt_filter distinct_map inj_on_def)

text \<open>The view by id determines, and is determined by, the elements.\<close>

lemma map_of_key_eq_iff:
  "distinct (map f us) \<Longrightarrow> map_of (map (\<lambda>t. (f t, g t)) us) i = Some x \<longleftrightarrow> (\<exists>t \<in> set us. f t = i \<and> g t = x)"
  by (induction us) (auto simp: image_iff)

lemma map_of_key_eqI:
  assumes "distinct (map f us)" "\<And>i x. m i = Some x \<longleftrightarrow> (\<exists>t \<in> set us. f t = i \<and> g t = x)"
  shows "m = map_of (map (\<lambda>t. (f t, g t)) us)"
proof
  fix i
  show "m i = map_of (map (\<lambda>t. (f t, g t)) us) i"
    using assms(2) [of i] map_of_key_eq_iff [OF assms(1), of g i] by (metis option.exhaust)
qed

lemma tq_live_iff: "tq_inv q \<Longrightarrow> tq_live q i = Some t \<longleftrightarrow> t \<in> set (tq_queue q) \<and> tm_seq_id t = i"
  by (auto simp: tq_inv_def tq_live_def map_of_key_eq_iff)

lemma map_of_map_value:
  "map_of (map (\<lambda>t. (f t, g t)) us) i = map_option g (map_of (map (\<lambda>t. (f t, t)) us) i)"
  by (induction us) auto

lemma tq_index_live: "tq_inv q \<Longrightarrow> tq_index q i = map_option tm_expire (tq_live q i)"
  using map_of_map_value [of tm_seq_id tm_expire "tq_queue q" i] by (simp add: tq_inv_def tq_live_def)

lemma tq_invI:
  assumes "sorted_wrt tm_less (tq_queue q)" "distinct (map tm_seq_id (tq_queue q))"
    "0 \<notin> tm_seq_id ` set (tq_queue q)"
    "\<And>i e. tq_index q i = Some e \<longleftrightarrow> (\<exists>t \<in> set (tq_queue q). tm_seq_id t = i \<and> tm_expire t = e)"
  shows "tq_inv q"
  using assms map_of_key_eqI [OF assms(2), of "tq_index q" tm_expire] by (simp add: tq_inv_def)

lemma tq_inv_index: "tq_inv q \<Longrightarrow>
    tq_index q i = Some e \<longleftrightarrow> (\<exists>t \<in> set (tq_queue q). tm_seq_id t = i \<and> tm_expire t = e)"
  using map_of_key_eq_iff [of tm_seq_id "tq_queue q" tm_expire i e] by (simp add: tq_inv_def)

lemma tq_live_eqI:
  assumes "tq_inv q" "\<And>i t. m i = Some t \<longleftrightarrow> t \<in> set (tq_queue q) \<and> tm_seq_id t = i"
  shows "tq_live q = m"
proof
  fix i
  show "tq_live q i = m i" using tq_live_iff [OF assms(1)] assms(2) by (metis option.exhaust)
qed

lemma tq_inv_new: "tq_inv tq_new" "tq_live tq_new = Map.empty"
  by (simp_all add: tq_inv_def tq_new_def tq_live_def)

lemma tq_inv_Clear: "tq_inv (tq_Clear q)" "tq_live (tq_Clear q) = Map.empty"
  by (simp_all add: tq_inv_def tq_Clear_def tq_live_def)

section \<open>The operations on the live timers\<close>

definition tq_next_id :: "'k tq \<Rightarrow> 64 word" where
  "tq_next_id q = (if tq_base_id q + 1 = 0 then 1 else tq_base_id q + 1)"

lemma tq_next_id_nonzero: "tq_next_id q \<noteq> 0"
  by (simp add: tq_next_id_def)

lemma tq_GenerateID_next: "tq_GenerateID q = (tq_next_id q, q\<lparr>tq_base_id := tq_next_id q\<rparr>)"
  by (simp add: tq_GenerateID_def tq_next_id_def Let_def)

text \<open>An insertion of a timer whose id is not in use, which adding and rescheduling share.\<close>

lemma tq_insert_fresh:
  assumes "tq_inv q" "tm_seq_id t \<notin> tm_seq_id ` set (tq_queue q)" "tm_seq_id t \<noteq> 0"
  defines "q' \<equiv> q\<lparr>tq_index := (tq_index q)(tm_seq_id t \<mapsto> tm_expire t), tq_queue := snd (ts_insert t (tq_queue q))\<rparr>"
  shows "tq_inv q'" "tq_live q' = (tq_live q)(tm_seq_id t \<mapsto> t)" "set (tq_queue q') = insert t (set (tq_queue q))"
proof -
  note f = ts_insert_fresh [OF assms(2)]
  from assms(2) have no: "u \<in> set (tq_queue q) \<Longrightarrow> tm_seq_id u \<noteq> tm_seq_id t" for u by (metis image_eqI)
  show s: "set (tq_queue q') = insert t (set (tq_queue q))" using f by (simp add: q'_def)
  show "tq_inv q'"
  proof (rule tq_invI)
    show "sorted_wrt tm_less (tq_queue q')" "distinct (map tm_seq_id (tq_queue q'))"
      "0 \<notin> tm_seq_id ` set (tq_queue q')"
      using f assms(1,3) by (simp_all add: q'_def tq_inv_def ts_insert_sorted)
    show "tq_index q' i = Some e \<longleftrightarrow> (\<exists>u \<in> set (tq_queue q'). tm_seq_id u = i \<and> tm_expire u = e)" for i e
      using no tq_inv_index [OF assms(1), of i e] unfolding s by (cases "i = tm_seq_id t") (auto simp: q'_def)
  qed
  then show "tq_live q' = (tq_live q)(tm_seq_id t \<mapsto> t)"
  proof (rule tq_live_eqI)
    show "((tq_live q)(tm_seq_id t \<mapsto> t)) i = Some u \<longleftrightarrow> u \<in> set (tq_queue q') \<and> tm_seq_id u = i" for i u
      using no tq_live_iff [OF assms(1), of i u] unfolding s by (cases "i = tm_seq_id t") auto
  qed
qed

lemma tq_erase_live:
  assumes "tq_inv q" "tq_live q i = Some t"
  defines "q' \<equiv> q\<lparr>tq_index := (tq_index q)(i := None), tq_queue := ts_erase (tm_expire t) i (tq_queue q)\<rparr>"
  shows "tq_inv q'" "tq_live q' = (tq_live q)(i := None)" "set (tq_queue q') = set (tq_queue q) - {t}"
proof -
  from assms(2) tq_live_iff [OF assms(1)] have t: "t \<in> set (tq_queue q)" "tm_seq_id t = i" by auto
  have d: "distinct (map tm_seq_id (tq_queue q))" using assms(1) by (simp add: tq_inv_def)
  then have uniq: "u = t" if "u \<in> set (tq_queue q)" "tm_seq_id u = i" for u
    using that t by (metis distinct_map inj_onD)
  have "(tm_expire u = tm_expire t \<and> tm_seq_id u = i) = (u = t)" if "u \<in> set (tq_queue q)" for u
    using uniq [OF that] t by blast
  then show s: "set (tq_queue q') = set (tq_queue q) - {t}" by (auto simp: q'_def set_ts_erase)
  show "tq_inv q'"
  proof (rule tq_invI)
    show "sorted_wrt tm_less (tq_queue q')" "distinct (map tm_seq_id (tq_queue q'))"
      using assms(1) by (simp_all add: q'_def tq_inv_def ts_erase_keeps)
    show "0 \<notin> tm_seq_id ` set (tq_queue q')" using assms(1) unfolding s by (auto simp: tq_inv_def)
    show "tq_index q' j = Some e \<longleftrightarrow> (\<exists>u \<in> set (tq_queue q'). tm_seq_id u = j \<and> tm_expire u = e)" for j e
    proof (cases "j = i")
      case True
      with uniq show ?thesis unfolding s by (auto simp: q'_def)
    next
      case False
      with t tq_inv_index [OF assms(1), of j e] show ?thesis unfolding s by (auto simp: q'_def)
    qed
  qed
  then show "tq_live q' = (tq_live q)(i := None)"
  proof (rule tq_live_eqI)
    show "((tq_live q)(i := None)) j = Some u \<longleftrightarrow> u \<in> set (tq_queue q') \<and> tm_seq_id u = j" for j u
      using t uniq [of u] tq_live_iff [OF assms(1), of j u] unfolding s by (cases "j = i") auto
  qed
qed

lemma tq_live_base [simp]: "tq_live (q\<lparr>tq_base_id := b\<rparr>) = tq_live q" "tq_inv (q\<lparr>tq_base_id := b\<rparr>) = tq_inv q"
  by (simp_all add: tq_live_def tq_inv_def)

lemma tq_live_None: "tq_inv q \<Longrightarrow> tq_live q i = None \<longleftrightarrow> i \<notin> tm_seq_id ` set (tq_queue q)"
  using tq_live_iff [of q i] by (metis image_iff not_Some_eq)

lemma tq_Add_result:
  assumes "tq_inv q"
  defines "i \<equiv> tq_next_id q"
  shows "\<exists>q'. tq_Add k e n q = (if tq_live q i = None then i else 0, q') \<and> tq_inv q' \<and> tq_base_id q' = i
    \<and> tq_live q' = (if tq_live q i = None
        then (tq_live q)(i \<mapsto> \<lparr>tm_seq_id = i, tm_interval = n, tm_expire = e, tm_task = k\<rparr>) else tq_live q)"
proof (cases "tq_live q i")
  case None
  let ?q = "q\<lparr>tq_base_id := i\<rparr>" and ?t = "\<lparr>tm_seq_id = i, tm_interval = n, tm_expire = e, tm_task = k\<rparr>"
  have inv: "tq_inv ?q" using assms by simp
  have fr: "tm_seq_id ?t \<notin> tm_seq_id ` set (tq_queue ?q)" using None tq_live_None [OF assms(1)] by simp
  note ins = tq_insert_fresh [OF inv fr] and ok = ts_insert_fresh [OF fr]
  have "tq_index ?q i = None" using tq_index_live [OF assms(1), of i] None by simp
  then have "tq_Add k e n q = (i, ?q\<lparr>tq_index := (tq_index ?q)(i \<mapsto> e), tq_queue := snd (ts_insert ?t (tq_queue ?q))\<rparr>)"
    using ok by (cases "ts_insert ?t (tq_queue q)") (simp add: tq_Add_def tq_GenerateID_next i_def [symmetric])
  with ins None tq_next_id_nonzero [of q] show ?thesis by (simp add: i_def)
next
  case (Some t)
  then have "tq_index q i \<noteq> None" using tq_index_live [OF assms(1), of i] by simp
  then have "tq_Add k e n q = (0, q\<lparr>tq_base_id := i\<rparr>)"
    by (simp add: tq_Add_def tq_GenerateID_next i_def [symmetric])
  with Some assms show ?thesis by simp
qed

lemma tq_Cancel_result:
  assumes "tq_inv q"
  shows "\<exists>q'. tq_Cancel i q = (tq_live q i \<noteq> None, q') \<and> tq_inv q' \<and> tq_base_id q' = tq_base_id q
    \<and> tq_live q' = (tq_live q)(i := None) \<and> set (tq_queue q') \<subseteq> set (tq_queue q)"
proof (cases "tq_live q i")
  case None
  then show ?thesis using tq_index_live [OF assms, of i] assms by (auto simp: tq_Cancel_def)
next
  case (Some t)
  let ?q = "q\<lparr>tq_index := (tq_index q)(i := None), tq_queue := ts_erase (tm_expire t) i (tq_queue q)\<rparr>"
  have "tq_Cancel i q = (True, ?q)" using Some tq_index_live [OF assms, of i] by (simp add: tq_Cancel_def)
  then show ?thesis using tq_erase_live [OF assms Some] Some
    by (intro exI [of _ ?q] conjI) simp_all
qed

lemma tq_Exist_result: "tq_inv q \<Longrightarrow> tq_Exist i q \<longleftrightarrow> tq_live q i \<noteq> None"
  by (simp add: tq_Exist_def tq_index_live)

definition tm_again :: "'k timer \<Rightarrow> 'k timer" where
  "tm_again t = t\<lparr>tm_expire := tm_expire t + ucast (tm_interval t)\<rparr>"

lemma tq_fire_result:
  assumes "tq_inv q" "tq_queue q = t # us"
  shows "tq_inv (tq_fire t q)"
    "tq_live (tq_fire t q) = (tq_live q)(tm_seq_id t := (if tm_interval t > 0 then Some (tm_again t) else None))"
    "set (tq_queue (tq_fire t q)) = set us \<union> (if tm_interval t > 0 then {tm_again t} else {})"
    "tq_base_id (tq_fire t q) = tq_base_id q"
proof -
  let ?q = "q\<lparr>tq_index := (tq_index q)(tm_seq_id t := None), tq_queue := ts_erase (tm_expire t) (tm_seq_id t) (tq_queue q)\<rparr>"
  have live: "tq_live q (tm_seq_id t) = Some t" using assms tq_live_iff [OF assms(1)] by simp
  note er = tq_erase_live [OF assms(1) live]
  have d: "t \<notin> set us" "tm_seq_id t \<noteq> 0" "tm_seq_id t \<notin> tm_seq_id ` set us"
    using assms by (auto simp: tq_inv_def)
  have s: "set (tq_queue ?q) = set us" using er(3) d(1) assms(2) by auto
  have fr: "tm_seq_id (tm_again t) \<notin> tm_seq_id ` set (tq_queue ?q)" using d unfolding s by (simp add: tm_again_def)
  note ins = tq_insert_fresh [OF er(1) fr]
  have f: "tq_fire t q = (if tm_interval t > 0
      then ?q\<lparr>tq_index := (tq_index ?q)(tm_seq_id (tm_again t) \<mapsto> tm_expire (tm_again t)),
              tq_queue := snd (ts_insert (tm_again t) (tq_queue ?q))\<rparr> else ?q)"
    by (simp add: tq_fire_def tm_again_def)
  have k: "tm_seq_id (tm_again t) = tm_seq_id t" by (simp add: tm_again_def)
  show "tq_inv (tq_fire t q)" using er(1) ins(1) d(2) unfolding f k by simp
  show "tq_live (tq_fire t q) = (tq_live q)(tm_seq_id t := (if tm_interval t > 0 then Some (tm_again t) else None))"
    using er(2) ins(2) d(2) unfolding f k by simp
  show "set (tq_queue (tq_fire t q)) = set us \<union> (if tm_interval t > 0 then {tm_again t} else {})"
    using s ins(3) d(2) unfolding f k by simp
  show "tq_base_id (tq_fire t q) = tq_base_id q" unfolding f by simp
qed

section \<open>The loop ends\<close>

text \<open>How much the timers are behind \<open>now\<close>: it falls with every timer that fires.\<close>

definition tq_due :: "64 word \<Rightarrow> 'k tq \<Rightarrow> nat" where
  "tq_due now q = (\<Sum>t \<in> set (tq_queue q). Suc (unat now) - unat (tm_expire t))"

lemma tq_due_mono: "set (tq_queue q') \<subseteq> set (tq_queue q) \<Longrightarrow> tq_due now q' \<le> tq_due now q"
  by (simp add: tq_due_def sum_mono2)

lemma tq_Cancel_due: "tq_inv q \<Longrightarrow> tq_due now (snd (tq_Cancel i q)) \<le> tq_due now q"
  using tq_Cancel_result [of q i] tq_due_mono by (metis snd_conv)

lemma tq_Add_due:
  assumes "tq_inv q" "now < e"
  shows "tq_due now (snd (tq_Add k e n q)) \<le> tq_due now q"
proof -
  let ?t = "\<lparr>tm_seq_id = tq_next_id q, tm_interval = n, tm_expire = e, tm_task = k\<rparr>"
  obtain q' where q': "tq_Add k e n q = (if tq_live q (tq_next_id q) = None then tq_next_id q else 0, q')" "tq_inv q'"
    "tq_live q' = (if tq_live q (tq_next_id q) = None then (tq_live q)(tq_next_id q \<mapsto> ?t) else tq_live q)"
    using tq_Add_result [OF assms(1), of k e n] by blast
  have "set (tq_queue q') \<subseteq> insert ?t (set (tq_queue q))"
  proof
    fix u assume "u \<in> set (tq_queue q')"
    then have "tq_live q' (tm_seq_id u) = Some u" using tq_live_iff [OF q'(2)] by simp
    then show "u \<in> insert ?t (set (tq_queue q))" using tq_live_iff [OF assms(1)] q'(3)
      by (auto split: if_splits)
  qed
  then have "tq_due now q' \<le> (\<Sum>t \<in> insert ?t (set (tq_queue q)). Suc (unat now) - unat (tm_expire t))"
    unfolding tq_due_def by (intro sum_mono2) auto
  also have "\<dots> \<le> tq_due now q"
    using assms(2) by (simp add: tq_due_def sum.insert_if word_less_nat_alt Suc_le_eq)
  finally show ?thesis using q'(1) by simp
qed

lemma tm_again_later:
  assumes "unat now + 2 ^ 32 \<le> 2 ^ 64" "tm_expire t \<le> now" "0 < tm_interval t"
  shows "tm_expire t < tm_expire (tm_again t)"
proof -
  have b: "unat (tm_interval t) < 2 ^ 32" using unsigned_less [of "tm_interval t"] by simp
  then have i: "unat (ucast (tm_interval t) :: 64 word) = unat (tm_interval t)"
    by (simp add: unsigned_ucast_eq take_bit_nat_eq_self)
  then have "unat (tm_expire t) + unat (ucast (tm_interval t) :: 64 word) < 2 ^ LENGTH(64)"
    using assms(1,2) i b by (simp add: word_le_nat_alt)
  then have "unat (tm_expire (tm_again t)) = unat (tm_expire t) + unat (tm_interval t)"
    unfolding tm_again_def using i by (simp add: iffD1 [OF unat_add_lem])
  then show ?thesis using assms(3) by (simp add: word_less_nat_alt)
qed

lemma tq_fire_due:
  assumes "tq_inv q" "tq_queue q = t # us" "tm_expire t \<le> now" "unat now + 2 ^ 32 \<le> 2 ^ 64"
  shows "tq_due now (tq_fire t q) < tq_due now q"
proof -
  let ?w = "\<lambda>t. Suc (unat now) - unat (tm_expire t)"
  have "t \<notin> set us" using assms(1,2) by (auto simp: tq_inv_def)
  then have q: "tq_due now q = ?w t + sum ?w (set us)" using assms(2) by (simp add: tq_due_def)
  have wt: "0 < ?w t" using assms(3) by (simp add: word_le_nat_alt)
  have "tq_due now (tq_fire t q) \<le> sum ?w (set us) + (if tm_interval t > 0 then ?w (tm_again t) else 0)"
    using tq_fire_result(3) [OF assms(1,2)] by (simp add: tq_due_def sum.insert_if)
  moreover have "(if tm_interval t > 0 then ?w (tm_again t) else 0) < ?w t"
    using tm_again_later [OF assms(4,3)] wt by (auto simp: word_less_nat_alt)
  ultimately show ?thesis using q by linarith
qed

text \<open>
  What the loop asks of the tasks: a task that fires returns, with the program's invariant, and does not
  put the queue further behind; cancelling timers and adding timers that expire later do not.
\<close>

locale timer_host =
  fixes get :: "'w \<Rightarrow> 'k tq"
    and put :: "'k tq \<Rightarrow> 'w \<Rightarrow> 'w"
    and exec :: "'k \<Rightarrow> 64 word \<Rightarrow> 32 word \<Rightarrow> 'w \<Rightarrow> 'w option"
    and ok :: "'w \<Rightarrow> bool"
    and now :: "64 word"
  assumes ok_inv: "ok w \<Longrightarrow> tq_inv (get w)"
    and fire_keeps: "ok w \<Longrightarrow> tq_queue (get w) = t # us \<Longrightarrow> tm_expire t \<le> now \<Longrightarrow>
      \<exists>w'. exec (tm_task t) (tm_seq_id t) (tm_interval t) (put (tq_fire t (get w)) w) = Some w' \<and> ok w'
        \<and> tq_due now (get w') \<le> tq_due now (tq_fire t (get w))"
begin

lemma loop_returns:
  assumes "unat now + 2 ^ 32 \<le> 2 ^ 64"
  shows "ok w \<Longrightarrow> \<exists>n w'. tq_TimeOut_loop get put exec now c w = Some (n, w') \<and> ok w'
    \<and> (\<forall>t \<in> set (tq_queue (get w')). now < tm_expire t)"
proof (induction "tq_due now (get w)" arbitrary: w c rule: less_induct)
  case less
  note inv = ok_inv [OF less.prems]
  show ?case
  proof (cases "tq_queue (get w)")
    case Nil
    with less.prems show ?thesis by (subst tq_TimeOut_loop.simps) simp
  next
    case (Cons t us)
    show ?thesis
    proof (cases "tm_expire t > now")
      case True
      have "now < tm_expire u" if "u \<in> set (tq_queue (get w))" for u
        using inv Cons True that by (auto simp: tq_inv_def tm_less_def split: if_splits)
      with True Cons less.prems show ?thesis by (subst tq_TimeOut_loop.simps) simp
    next
      case False
      then have le: "tm_expire t \<le> now" by simp
      from fire_keeps [OF less.prems Cons le] obtain w' where
        w': "exec (tm_task t) (tm_seq_id t) (tm_interval t) (put (tq_fire t (get w)) w) = Some w'"
        "ok w'" "tq_due now (get w') \<le> tq_due now (tq_fire t (get w))" by blast
      have "tq_due now (get w') < tq_due now (get w)"
        using w'(3) tq_fire_due [OF inv Cons le assms] by simp
      from less.hyps [OF this w'(2), of "c + 1"] w'(1) Cons False show ?thesis
        by (subst tq_TimeOut_loop.simps) simp
    qed
  qed
qed

lemma TimeOut_returns:
  "unat now + 2 ^ 32 \<le> 2 ^ 64 \<Longrightarrow> ok w \<Longrightarrow> \<exists>n w'. tq_TimeOut get put exec now w = Some (n, w') \<and> ok w'
    \<and> (\<forall>t \<in> set (tq_queue (get w')). now < tm_expire t)"
  unfolding tq_TimeOut_def by (rule loop_returns)

end

text \<open>Tasks that do not touch the queue: a host whose state is the queue beside what the tasks change.\<close>

definition tq_aside :: "('k \<Rightarrow> 64 word \<Rightarrow> 's \<Rightarrow> 's) \<Rightarrow> 'k \<Rightarrow> 64 word \<Rightarrow> 32 word \<Rightarrow> 'k tq \<times> 's \<Rightarrow> ('k tq \<times> 's) option" where
  "tq_aside f k i n w = Some (fst w, f k i (snd w))"

abbreviation tq_put_fst :: "'k tq \<Rightarrow> 'k tq \<times> 's \<Rightarrow> 'k tq \<times> 's" where
  "tq_put_fst q w \<equiv> (q, snd w)"

interpretation aside: timer_host fst tq_put_fst "tq_aside f" "\<lambda>w. tq_inv (fst w)" now
  for f :: "'k \<Rightarrow> 64 word \<Rightarrow> 's \<Rightarrow> 's" and now
  by unfold_locales (simp_all add: tq_aside_def tq_fire_result(1))

text \<open>One-shot timers leave the queue one after the other from its front.\<close>

lemma tq_fire_one_shot:
  assumes "tq_inv q" "tq_queue q = t # us" "tm_interval t = 0"
  shows "tq_queue (tq_fire t q) = us"
proof -
  have "tm_seq_id t \<notin> tm_seq_id ` set us" using assms(1,2) by (simp add: tq_inv_def)
  then have "tm_seq_id u \<noteq> tm_seq_id t" if "u \<in> set us" for u using that by (metis image_eqI)
  then have "filter (\<lambda>u. tm_expire u = tm_expire t \<longrightarrow> tm_seq_id u \<noteq> tm_seq_id t) us = us"
    by (auto simp: filter_id_conv)
  with assms(2,3) show ?thesis by (simp add: tq_fire_def ts_erase_def)
qed

lemma tq_loop_one_shot:
  "tq_inv q \<Longrightarrow> list_all (\<lambda>t. tm_interval t = 0) (tq_queue q) \<Longrightarrow>
   \<exists>q'. tq_TimeOut_loop fst tq_put_fst (tq_aside f) now c (q, s)
      = Some (c + of_nat (length (takeWhile (\<lambda>t. tm_expire t \<le> now) (tq_queue q))), (q',
          fold (\<lambda>t. f (tm_task t) (tm_seq_id t)) (takeWhile (\<lambda>t. tm_expire t \<le> now) (tq_queue q)) s))
    \<and> tq_queue q' = dropWhile (\<lambda>t. tm_expire t \<le> now) (tq_queue q)"
proof (induction "tq_queue q" arbitrary: q c s)
  case Nil
  then show ?case by (subst tq_TimeOut_loop.simps) (simp flip: Nil(1))
next
  case (Cons t us)
  note q = Cons.hyps(2) [symmetric]
  show ?case
  proof (cases "tm_expire t > now")
    case True
    then show ?thesis by (subst tq_TimeOut_loop.simps) (simp add: q)
  next
    case False
    let ?q = "tq_fire t q"
    have "tm_interval t = 0" using Cons.prems(2) q by simp
    then have us: "tq_queue ?q = us" by (rule tq_fire_one_shot [OF Cons.prems(1) q])
    have "list_all (\<lambda>t. tm_interval t = 0) us" using Cons.prems(2) q by simp
    from Cons.hyps(1) [of ?q "c + 1" "f (tm_task t) (tm_seq_id t) s"] us this
      tq_fire_result(1) [OF Cons.prems(1) q]
    show ?thesis using False by (subst tq_TimeOut_loop.simps) (simp add: q tq_aside_def add.assoc not_less [symmetric])
  qed
qed

section \<open>Properties\<close>

text \<open>C13. \<^verbatim>\<open>TimeOut\<close> ends: with tasks that leave the queue alone, periodic timers included, and a time
  that is \<open>2\<^sup>3\<^sup>2\<close> below the largest, the loop returns, every timer left expires later than
  \<open>now\<close>, and the queue is still ordered and consistent with its index.\<close>

theorem tq_TimeOut_returns:
  assumes "tq_inv q" "unat now + 2 ^ 32 \<le> 2 ^ 64"
  shows "\<exists>n q' s'. tq_TimeOut fst tq_put_fst (tq_aside f) now (q, s) = Some (n, (q', s')) \<and> tq_inv q'
    \<and> (\<forall>t \<in> set (tq_queue q'). now < tm_expire t)"
  using aside.TimeOut_returns [OF assms(2), of "(q, s)" f] assms(1) by (auto simp: split_paired_Ex)

text \<open>A queue with a periodic and a one-shot timer.\<close>

definition tq_demo :: "nat tq" where
  "tq_demo = snd (tq_Add 8 5 0 (snd (tq_Add 7 3 10 tq_new)))"

lemma tq_demo_inv: "tq_inv tq_demo"
  "tq_queue tq_demo = [\<lparr>tm_seq_id = 1, tm_interval = 10, tm_expire = 3, tm_task = 7\<rparr>,
     \<lparr>tm_seq_id = 2, tm_interval = 0, tm_expire = 5, tm_task = 8\<rparr>]"
  by (simp_all add: tq_demo_def tq_new_def tq_inv_def tq_Add_def tq_GenerateID_def tm_less_def fun_eq_iff)

lemma tq_TimeOut_returns_witness:
  "\<exists>n q' s'. tq_TimeOut fst tq_put_fst (tq_aside (\<lambda>k i s. s @ [(k, i)])) 20 (tq_demo, []) = Some (n, (q', s'))
    \<and> tq_inv q'"
  using tq_TimeOut_returns [OF tq_demo_inv(1), of 20 "\<lambda>k i s. s @ [(k, i)]" "[]"] by auto

text \<open>C14. One-shot timers fire in the order of their expiry, ties in the order of their ids: exactly those
  due are run, each once, and exactly the others stay, cancelled or not yet due timers never run.\<close>

theorem tq_TimeOut_in_order:
  assumes "tq_inv q" "list_all (\<lambda>t. tm_interval t = 0) (tq_queue q)"
  shows "\<exists>q'. tq_TimeOut fst tq_put_fst (tq_aside f) now (q, s)
      = Some (of_nat (length (takeWhile (\<lambda>t. tm_expire t \<le> now) (tq_queue q))), (q',
          fold (\<lambda>t. f (tm_task t) (tm_seq_id t)) (takeWhile (\<lambda>t. tm_expire t \<le> now) (tq_queue q)) s))
    \<and> tq_queue q' = dropWhile (\<lambda>t. tm_expire t \<le> now) (tq_queue q)
    \<and> takeWhile (\<lambda>t. tm_expire t \<le> now) (tq_queue q) = filter (\<lambda>t. tm_expire t \<le> now) (tq_queue q)"
proof -
  have sorted: "takeWhile (\<lambda>t. tm_expire t \<le> now) us = filter (\<lambda>t. tm_expire t \<le> now) us"
    if "sorted_wrt tm_less us" for us :: "'a timer list"
    using that
  proof (induction us)
    case (Cons u us)
    then have "now < tm_expire u \<Longrightarrow> filter (\<lambda>t. tm_expire t \<le> now) us = []"
      by (force simp: tm_less_def filter_empty_conv not_le split: if_splits)
    with Cons show ?case by (auto simp: not_le)
  qed simp
  from tq_loop_one_shot [OF assms, of f now 0 s] sorted [of "tq_queue q"] assms(1)
  show ?thesis by (auto simp: tq_TimeOut_def tq_inv_def)
qed

lemma tq_TimeOut_in_order_witness:
  "\<exists>q'. tq_TimeOut fst tq_put_fst (tq_aside (\<lambda>k i s. s @ [(k, i)])) 5 (snd (tq_Add 9 5 0 (snd (tq_Add 8 3 0 (snd (tq_Add 7 5 0 tq_new))))), [])
     = Some (3, (q', [(8, 2), (7, 1), (9, 3 :: 64 word)])) \<and> tq_queue q' = ([] :: nat timer list)"
proof -
  let ?q = "snd (tq_Add 9 5 0 (snd (tq_Add 8 3 0 (snd (tq_Add 7 5 0 (tq_new :: nat tq))))))"
  have q: "tq_queue ?q = [\<lparr>tm_seq_id = 2, tm_interval = 0, tm_expire = 3, tm_task = 8\<rparr>,
     \<lparr>tm_seq_id = 1, tm_interval = 0, tm_expire = 5, tm_task = 7\<rparr>,
     \<lparr>tm_seq_id = 3, tm_interval = 0, tm_expire = 5, tm_task = 9\<rparr>]" "tq_inv ?q"
    by (simp_all add: tq_new_def tq_inv_def tq_Add_def tq_GenerateID_def tm_less_def fun_eq_iff)
  show ?thesis using tq_TimeOut_in_order [OF q(2), of "\<lambda>k i s. s @ [(k, i)]" 5 "[]"]
    by (auto simp: q(1))
qed

text \<open>C30. The ids of one process are pairwise different, and two processes (or two runs of one) that were
  initialised in different seconds never produce the same id, as long as each produced fewer than
  \<open>2\<^sup>3\<^sup>2\<close> of them (and the second counter fits in 32 bits).\<close>

theorem ig_ids_unique:
  assumes "m < 2 ^ 32" "n < 2 ^ 32" "clk_CurrentSec c \<noteq> clk_CurrentSec d"
    "clk_CurrentSec c < 2 ^ 32" "clk_CurrentSec d < 2 ^ 32"
  shows "distinct (ig_many m (snd (ig_Init c g))) \<and>
    set (ig_many m (snd (ig_Init c g))) \<inter> set (ig_many n (snd (ig_Init d h))) = {}"
proof -
  let ?id = "\<lambda>m c g i. ig_many m (snd (ig_Init c g)) ! i"
  have d: "unat (?id m c g i) = unat (clk_CurrentSec c) * 2 ^ 32 + Suc i"
    if "i < m" "m < 2 ^ 32" "clk_CurrentSec c < 2 ^ 32" for m c g i
    using that ig_id_value [of c i g] by (simp add: ig_many_nth)
  have "distinct (ig_many m (snd (ig_Init c g)))"
    unfolding distinct_conv_nth using d [of _ m c g] assms by (metis add_left_cancel length_ig_many nat.inject)
  moreover have "?id m c g i \<noteq> ?id n d h j" if "i < m" "j < n" for i j
  proof
    assume e: "?id m c g i = ?id n d h j"
    have "unat (clk_CurrentSec c) * 2 ^ 32 + Suc i = unat (clk_CurrentSec d) * 2 ^ 32 + Suc j"
      using d [of i m c g] d [of j n d h] e that assms by metis
    then have "unat (clk_CurrentSec c) = unat (clk_CurrentSec d)"
      using that assms(1,2) by (cases "unat (clk_CurrentSec c)" "unat (clk_CurrentSec d)" rule: linorder_cases) simp_all
    with assms(3) show False by (simp add: word_unat_eq_iff)
  qed
  ultimately show ?thesis unfolding disjoint_iff by (metis in_set_conv_nth length_ig_many)
qed

lemma ig_ids_unique_witness:
  "distinct (ig_many 3 (snd (ig_Init \<lparr>clk_micro_sec = 5000000\<rparr> \<lparr>ig_base = 0\<rparr>))) \<and>
    set (ig_many 3 (snd (ig_Init \<lparr>clk_micro_sec = 5000000\<rparr> \<lparr>ig_base = 0\<rparr>)))
      \<inter> set (ig_many 4 (snd (ig_Init \<lparr>clk_micro_sec = 6000000\<rparr> \<lparr>ig_base = 7\<rparr>))) = {}"
  by (rule ig_ids_unique) (simp_all add: clk_CurrentSec_def)
end
