(* ===== verification/Statistics.thy ===== *)
theory Statistics
  imports Prelude "HOL-Library.Word" "HOL-Library.AList"
begin

text \<open>
  \<^verbatim>\<open>src/core/rpc_error.h\<close> and \<^verbatim>\<open>src/core/server_statistics.h\<close>: the error codes
  and the counters of a statistics period.  The counters are 32-bit words and wrap around.  The maps
  by command, error code and cost bucket are association lists without duplicate keys;
  \<^verbatim>\<open>m[k]\<close> of a missing key makes an entry with the default value.
\<close>

section \<open>Error codes\<close>

datatype rpc_error = Success | SystemError | ChannelSendError | Timeout | SendMsgTooLong
  | MsgSerializeError | RecvMsgTooLong | MsgParseError | RouterFindDstError

fun ToInt :: "rpc_error \<Rightarrow> 32 word" where
  "ToInt Success = 0"
| "ToInt SystemError = -1"
| "ToInt ChannelSendError = -2"
| "ToInt Timeout = -3"
| "ToInt SendMsgTooLong = -4"
| "ToInt MsgSerializeError = -5"
| "ToInt RecvMsgTooLong = -6"
| "ToInt MsgParseError = -7"
| "ToInt RouterFindDstError = -8"

definition IsSuccess :: "rpc_error \<Rightarrow> bool" where
  "IsSuccess e \<longleftrightarrow> e = Success"

text \<open>A code that is none of the enumerators stays what it is; it has no constructor here.\<close>

definition FromInt :: "32 word \<Rightarrow> rpc_error option" where
  "FromInt i = List.find (\<lambda>e. ToInt e = i) [Success, SystemError, ChannelSendError, Timeout, SendMsgTooLong,
     MsgSerializeError, RecvMsgTooLong, MsgParseError, RouterFindDstError]"

definition ErrorName :: "rpc_error option \<Rightarrow> string" where
  "ErrorName e = (case e of
      Some Success \<Rightarrow> ''Success''
    | Some SystemError \<Rightarrow> ''SystemError''
    | Some ChannelSendError \<Rightarrow> ''ChannelSendError''
    | Some Timeout \<Rightarrow> ''Timeout''
    | Some SendMsgTooLong \<Rightarrow> ''SendMsgTooLong''
    | Some MsgSerializeError \<Rightarrow> ''MsgSerializeError''
    | Some RecvMsgTooLong \<Rightarrow> ''RecvMsgTooLong''
    | Some MsgParseError \<Rightarrow> ''MsgParseError''
    | Some RouterFindDstError \<Rightarrow> ''RouterFindDstError''
    | None \<Rightarrow> ''Unknown'')"

definition RPC_SUCCESS :: "32 word" where "RPC_SUCCESS = ToInt Success"
definition RPC_SYS_ERR :: "32 word" where "RPC_SYS_ERR = ToInt SystemError"
definition RPC_CHANNEL_SEND_ERR :: "32 word" where "RPC_CHANNEL_SEND_ERR = ToInt ChannelSendError"
definition RPC_TIME_OUT :: "32 word" where "RPC_TIME_OUT = ToInt Timeout"
definition RPC_SEND_MSG_TOO_LONG :: "32 word" where "RPC_SEND_MSG_TOO_LONG = ToInt SendMsgTooLong"
definition RPC_MSG_SERIALIZE_ERR :: "32 word" where "RPC_MSG_SERIALIZE_ERR = ToInt MsgSerializeError"
definition RPC_ROUTER_FIND_DST_ERR :: "32 word" where "RPC_ROUTER_FIND_DST_ERR = ToInt RouterFindDstError"

lemmas rpc_codes = RPC_SUCCESS_def RPC_SYS_ERR_def RPC_CHANNEL_SEND_ERR_def RPC_TIME_OUT_def
  RPC_SEND_MSG_TOO_LONG_def RPC_MSG_SERIALIZE_ERR_def RPC_ROUTER_FIND_DST_ERR_def

lemma FromInt_ToInt: "FromInt (ToInt e) = Some e"
  by (cases e) (simp_all add: FromInt_def)

section \<open>The counters of a period\<close>

record statistics =
  recv_pkg_num :: "32 word"
  recv_byte_num :: "64 word"
  recv_error_pkg_num :: "32 word"
  send_pkg_num :: "32 word"
  send_byte_num :: "64 word"
  send_error_pkg_num :: "32 word"
  send_pkg_size_max :: "32 word"
  recv_pkg_size_max :: "32 word"
  log_error_num :: "32 word"
  log_warn_num :: "32 word"
  log_info_num :: "32 word"
  log_debug_num :: "32 word"
  log_trace_num :: "32 word"
  rpc_time_out_num :: "32 word"
  coro_num_max :: "32 word"
  coro_pending_num_max :: "32 word"
  on_proc_num :: "32 word"
  on_idle_num :: "32 word"
  proc_timeout_0 :: "32 word"
  proc_timeout_1 :: "32 word"
  proc_timeout_2 :: "32 word"
  proc_total_timeout :: "32 word"
  proc_deal_time_0 :: "32 word"
  proc_deal_time_1 :: "32 word"
  proc_deal_time_2 :: "32 word"
  tick_timeout :: "32 word"
  tick_deal_time :: "32 word"

definition statistics_zero :: statistics where
  "statistics_zero = \<lparr>recv_pkg_num = 0, recv_byte_num = 0, recv_error_pkg_num = 0, send_pkg_num = 0,
     send_byte_num = 0, send_error_pkg_num = 0, send_pkg_size_max = 0, recv_pkg_size_max = 0,
     log_error_num = 0, log_warn_num = 0, log_info_num = 0, log_debug_num = 0, log_trace_num = 0,
     rpc_time_out_num = 0, coro_num_max = 0, coro_pending_num_max = 0, on_proc_num = 0, on_idle_num = 0,
     proc_timeout_0 = 0, proc_timeout_1 = 0, proc_timeout_2 = 0, proc_total_timeout = 0,
     proc_deal_time_0 = 0, proc_deal_time_1 = 0, proc_deal_time_2 = 0, tick_timeout = 0, tick_deal_time = 0\<rparr>"

definition inc_rpc_time_out_num :: "statistics \<Rightarrow> statistics" where
  "inc_rpc_time_out_num s = s\<lparr>rpc_time_out_num := rpc_time_out_num s + 1\<rparr>"

definition inc_on_proc_num :: "statistics \<Rightarrow> statistics" where
  "inc_on_proc_num s = s\<lparr>on_proc_num := on_proc_num s + 1\<rparr>"

definition inc_proc_timeout_0 :: "statistics \<Rightarrow> statistics" where
  "inc_proc_timeout_0 s = s\<lparr>proc_timeout_0 := proc_timeout_0 s + 1\<rparr>"

definition inc_proc_timeout_1 :: "statistics \<Rightarrow> statistics" where
  "inc_proc_timeout_1 s = s\<lparr>proc_timeout_1 := proc_timeout_1 s + 1\<rparr>"

definition inc_proc_timeout_2 :: "statistics \<Rightarrow> statistics" where
  "inc_proc_timeout_2 s = s\<lparr>proc_timeout_2 := proc_timeout_2 s + 1\<rparr>"

definition inc_proc_total_timeout :: "statistics \<Rightarrow> statistics" where
  "inc_proc_total_timeout s = s\<lparr>proc_total_timeout := proc_total_timeout s + 1\<rparr>"

definition inc_tick_timeout :: "statistics \<Rightarrow> statistics" where
  "inc_tick_timeout s = s\<lparr>tick_timeout := tick_timeout s + 1\<rparr>"

definition set_max_proc_deal_time_0 :: "32 word \<Rightarrow> statistics \<Rightarrow> statistics" where
  "set_max_proc_deal_time_0 v s = s\<lparr>proc_deal_time_0 := max (proc_deal_time_0 s) v\<rparr>"

definition set_max_proc_deal_time_1 :: "32 word \<Rightarrow> statistics \<Rightarrow> statistics" where
  "set_max_proc_deal_time_1 v s = s\<lparr>proc_deal_time_1 := max (proc_deal_time_1 s) v\<rparr>"

definition set_max_proc_deal_time_2 :: "32 word \<Rightarrow> statistics \<Rightarrow> statistics" where
  "set_max_proc_deal_time_2 v s = s\<lparr>proc_deal_time_2 := max (proc_deal_time_2 s) v\<rparr>"

definition set_max_tick_deal_time :: "32 word \<Rightarrow> statistics \<Rightarrow> statistics" where
  "set_max_tick_deal_time v s = s\<lparr>tick_deal_time := max (tick_deal_time s) v\<rparr>"

definition save_max_coro_num_max :: "32 word \<Rightarrow> statistics \<Rightarrow> statistics" where
  "save_max_coro_num_max v s = s\<lparr>coro_num_max := max (coro_num_max s) v\<rparr>"

definition save_max_coro_pending_num_max :: "32 word \<Rightarrow> statistics \<Rightarrow> statistics" where
  "save_max_coro_pending_num_max v s = s\<lparr>coro_pending_num_max := max (coro_pending_num_max s) v\<rparr>"

section \<open>The statistics by command\<close>

definition at :: "'v \<Rightarrow> ('k \<times> 'v) list \<Rightarrow> 'k \<Rightarrow> 'v" where
  "at z m k = (case map_of m k of None \<Rightarrow> z | Some v \<Rightarrow> v)"

definition at_upd :: "'v \<Rightarrow> 'k \<Rightarrow> ('v \<Rightarrow> 'v) \<Rightarrow> ('k \<times> 'v) list \<Rightarrow> ('k \<times> 'v) list" where
  "at_upd z k f m = AList.update k (f (at z m k)) m"

definition kLowerCostTime :: "32 word list" where
  "kLowerCostTime = [0, 50, 100, 500, 1000, 3000, 5000, 60000]"

record recv_info =
  ri_error_code_2_num :: "(32 word \<times> 32 word) list"
  ri_cost_map :: "(32 word \<times> 32 word) list"
  ri_queue_cost_map :: "(32 word \<times> 32 word) list"
  ri_expire_drop :: "32 word"
  ri_schedule_drop :: "32 word"
  ri_max_req_size :: "32 word"
  ri_max_rsp_size :: "32 word"
  ri_total_recv_num :: "32 word"

record send_info =
  si_total_send_num :: "32 word"
  si_max_send_size :: "32 word"

definition ri_zero :: recv_info where
  "ri_zero = \<lparr>ri_error_code_2_num = [], ri_cost_map = [], ri_queue_cost_map = [], ri_expire_drop = 0,
     ri_schedule_drop = 0, ri_max_req_size = 0, ri_max_rsp_size = 0, ri_total_recv_num = 0\<rparr>"

definition si_zero :: send_info where
  "si_zero = \<lparr>si_total_send_num = 0, si_max_send_size = 0\<rparr>"

record server_stats =
  ss_statistics :: statistics
  ss_recv :: "(32 word \<times> recv_info) list"
  ss_send :: "(32 word \<times> send_info) list"

definition ss_new :: server_stats where
  "ss_new = \<lparr>ss_statistics = statistics_zero, ss_recv = [], ss_send = []\<rparr>"

definition ClearStatistics :: "server_stats \<Rightarrow> server_stats" where
  "ClearStatistics s = s\<lparr>ss_statistics := statistics_zero, ss_recv := [], ss_send := []\<rparr>"

text \<open>\<^verbatim>\<open>std::lower_bound\<close> finds the first bound that is not below the duration; the bucket is
  the bound before it.\<close>

definition GetCostBucket :: "32 word \<Rightarrow> 32 word" where
  "GetCostBucket duration =
     (let duration = (if duration = 0 then 1 else duration);
          i = length (takeWhile (\<lambda>b. b < duration) kLowerCostTime)
      in if i = 0 then 0 else kLowerCostTime ! (i - 1))"

definition SetCoroRunTime :: "32 word \<Rightarrow> 32 word \<Rightarrow> 32 word \<Rightarrow> server_stats \<Rightarrow> server_stats" where
  "SetCoroRunTime cmd duration ret_code s = s\<lparr>ss_recv := at_upd ri_zero cmd (\<lambda>info. info\<lparr>
     ri_error_code_2_num := at_upd 0 ret_code (\<lambda>n. n + 1) (ri_error_code_2_num info),
     ri_cost_map := at_upd 0 (GetCostBucket duration) (\<lambda>n. n + 1) (ri_cost_map info)\<rparr>) (ss_recv s)\<rparr>"

definition SetRspSize :: "32 word \<Rightarrow> 32 word \<Rightarrow> server_stats \<Rightarrow> server_stats" where
  "SetRspSize cmd body_size s = s\<lparr>ss_recv := at_upd ri_zero cmd (\<lambda>info. info\<lparr>
     ri_max_rsp_size := max (ri_max_rsp_size info) body_size\<rparr>) (ss_recv s)\<rparr>"

definition SetReqSize :: "32 word \<Rightarrow> 32 word \<Rightarrow> server_stats \<Rightarrow> server_stats" where
  "SetReqSize cmd body_size s = s\<lparr>ss_recv := at_upd ri_zero cmd (\<lambda>info. info\<lparr>
     ri_max_req_size := max (ri_max_req_size info) body_size,
     ri_total_recv_num := ri_total_recv_num info + 1\<rparr>) (ss_recv s)\<rparr>"

definition SetSendSize :: "32 word \<Rightarrow> 32 word \<Rightarrow> server_stats \<Rightarrow> server_stats" where
  "SetSendSize cmd body_size s = s\<lparr>ss_send := at_upd si_zero cmd (\<lambda>info. info\<lparr>
     si_max_send_size := max (si_max_send_size info) body_size\<rparr>) (ss_send s)\<rparr>"

definition AddCmdExpireDrop :: "32 word \<Rightarrow> server_stats \<Rightarrow> server_stats" where
  "AddCmdExpireDrop cmd s = s\<lparr>ss_recv := at_upd ri_zero cmd (\<lambda>info. info\<lparr>
     ri_expire_drop := ri_expire_drop info + 1\<rparr>) (ss_recv s)\<rparr>"

definition AddCmdScheduleDrop :: "32 word \<Rightarrow> server_stats \<Rightarrow> server_stats" where
  "AddCmdScheduleDrop cmd s = s\<lparr>ss_recv := at_upd ri_zero cmd (\<lambda>info. info\<lparr>
     ri_schedule_drop := ri_schedule_drop info + 1\<rparr>) (ss_recv s)\<rparr>"

definition AddSendCmd :: "32 word \<Rightarrow> server_stats \<Rightarrow> server_stats" where
  "AddSendCmd cmd s = s\<lparr>ss_send := at_upd si_zero cmd (\<lambda>info. info\<lparr>
     si_total_send_num := si_total_send_num info + 1\<rparr>) (ss_send s)\<rparr>"

definition SetQueueCost :: "32 word \<Rightarrow> 32 word \<Rightarrow> server_stats \<Rightarrow> server_stats" where
  "SetQueueCost cmd duration s = s\<lparr>ss_recv := at_upd ri_zero cmd (\<lambda>info. info\<lparr>
     ri_queue_cost_map := at_upd 0 (GetCostBucket duration) (\<lambda>n. n + 1) (ri_queue_cost_map info)\<rparr>) (ss_recv s)\<rparr>"

definition ss_map_statistics :: "(statistics \<Rightarrow> statistics) \<Rightarrow> server_stats \<Rightarrow> server_stats" where
  "ss_map_statistics f s = s\<lparr>ss_statistics := f (ss_statistics s)\<rparr>"

section \<open>The logger\<close>

text \<open>
  \<^verbatim>\<open>src/core/logger.h\<close>: whether a message is written is decided by a function the program may
  set; a message that is written is counted by its level, and its text is cut to the buffer.  The text
  itself is made by the C library and not modelled.
\<close>

datatype priority_type = PRIORITY_ERROR | PRIORITY_WARN | PRIORITY_INFO | PRIORITY_DEBUG | PRIORITY_TRACE

definition CanOutput :: "(priority_type \<Rightarrow> bool) option \<Rightarrow> priority_type \<Rightarrow> bool" where
  "CanOutput f p = (case f of None \<Rightarrow> False | Some f \<Rightarrow> f p)"

fun inc_log_num :: "priority_type \<Rightarrow> statistics \<Rightarrow> statistics" where
  "inc_log_num PRIORITY_ERROR s = s\<lparr>log_error_num := log_error_num s + 1\<rparr>"
| "inc_log_num PRIORITY_WARN s = s\<lparr>log_warn_num := log_warn_num s + 1\<rparr>"
| "inc_log_num PRIORITY_INFO s = s\<lparr>log_info_num := log_info_num s + 1\<rparr>"
| "inc_log_num PRIORITY_DEBUG s = s\<lparr>log_debug_num := log_debug_num s + 1\<rparr>"
| "inc_log_num PRIORITY_TRACE s = s\<lparr>log_trace_num := log_trace_num s + 1\<rparr>"

text \<open>\<^verbatim>\<open>Format\<close>: the length kept of a text for which \<^verbatim>\<open>vsnprintf\<close> answers \<open>write_len\<close>.\<close>

definition kBufferSize :: "32 word" where
  "kBufferSize = 4096"

definition log_Format :: "int \<Rightarrow> 32 word" where
  "log_Format write_len =
     (if write_len < 0 then 0
      else let len = word_of_int write_len in if len \<ge> kBufferSize then kBufferSize - 1 else len)"

text \<open>The macro \<^verbatim>\<open>_UA_LOG_\<close>: the new counters, and what is handed to the output function.\<close>

definition ua_log :: "(priority_type \<Rightarrow> bool) option \<Rightarrow> priority_type \<Rightarrow> int \<Rightarrow> server_stats
    \<Rightarrow> (priority_type \<times> 32 word) option \<times> server_stats" where
  "ua_log can p write_len s =
     (if CanOutput can p then (Some (p, log_Format write_len), ss_map_statistics (inc_log_num p) s)
      else (None, s))"

section \<open>The buckets\<close>

lemma GetCostBucket_bounds:
  "GetCostBucket d \<in> set kLowerCostTime \<and> GetCostBucket d < max 1 d
    \<and> (\<forall>b \<in> set kLowerCostTime. b < max 1 d \<longrightarrow> b \<le> GetCostBucket d)"
proof -
  define e where "e = max 1 d"
  have e: "(if d = 0 then 1 else d) = e" by (auto simp: e_def max_def word_less_nat_alt word_le_nat_alt
    unat_eq_0 Suc_le_eq)
  have "(0 :: 32 word) < 1" by simp
  also have "1 \<le> e" by (simp add: e_def)
  finally show ?thesis unfolding GetCostBucket_def e e_def [symmetric]
    by (auto simp: kLowerCostTime_def word_less_nat_alt word_le_nat_alt)
qed

section \<open>What the maps count\<close>

lemma at_at_upd [simp]: "at z (at_upd z k f m) j = (if j = k then f (at z m k) else at z m j)"
  by (simp add: at_upd_def at_def update_conv')

lemma at_Nil [simp]: "at z [] k = z"
  by (simp add: at_def)

datatype st_op = OpRun "32 word" "32 word" "32 word" | OpReq "32 word" "32 word" | OpRsp "32 word" "32 word"
  | OpSend "32 word" "32 word" | OpExpireDrop "32 word" | OpScheduleDrop "32 word" | OpSendCmd "32 word"
  | OpQueueCost "32 word" "32 word" | OpClear

fun st_apply :: "st_op \<Rightarrow> server_stats \<Rightarrow> server_stats" where
  "st_apply (OpRun cmd d r) s = SetCoroRunTime cmd d r s"
| "st_apply (OpReq cmd n) s = SetReqSize cmd n s"
| "st_apply (OpRsp cmd n) s = SetRspSize cmd n s"
| "st_apply (OpSend cmd n) s = SetSendSize cmd n s"
| "st_apply (OpExpireDrop cmd) s = AddCmdExpireDrop cmd s"
| "st_apply (OpScheduleDrop cmd) s = AddCmdScheduleDrop cmd s"
| "st_apply (OpSendCmd cmd) s = AddSendCmd cmd s"
| "st_apply (OpQueueCost cmd d) s = SetQueueCost cmd d s"
| "st_apply OpClear s = ClearStatistics s"

text \<open>The operations since the last clearing, newest first, and how many of them satisfy a predicate.\<close>

definition st_period :: "st_op list \<Rightarrow> st_op list" where
  "st_period ops = takeWhile (\<lambda>p. p \<noteq> OpClear) (rev ops)"

definition st_count :: "(st_op \<Rightarrow> bool) \<Rightarrow> st_op list \<Rightarrow> 32 word" where
  "st_count P ops = of_nat (length (filter P (st_period ops)))"

fun st_cost :: "32 word \<Rightarrow> 32 word \<Rightarrow> st_op \<Rightarrow> bool" where
  "st_cost cmd b (OpRun c d r) = (c = cmd \<and> GetCostBucket d = b)"
| "st_cost cmd b _ = False"

fun st_ret :: "32 word \<Rightarrow> 32 word \<Rightarrow> st_op \<Rightarrow> bool" where
  "st_ret cmd ret (OpRun c d r) = (c = cmd \<and> r = ret)"
| "st_ret cmd ret _ = False"

fun st_req :: "32 word \<Rightarrow> st_op \<Rightarrow> bool" where
  "st_req cmd (OpReq c n) = (c = cmd)"
| "st_req cmd _ = False"

fun st_req_size :: "32 word \<Rightarrow> st_op \<Rightarrow> 32 word" where
  "st_req_size cmd (OpReq c n) = (if c = cmd then n else 0)"
| "st_req_size cmd _ = 0"

lemma st_count_snoc: "st_count P (ops @ [p]) = (if p = OpClear then 0 else st_count P ops + (if P p then 1 else 0))"
  by (simp add: st_count_def st_period_def)

lemmas st_defs = SetCoroRunTime_def SetReqSize_def SetRspSize_def SetSendSize_def AddCmdExpireDrop_def
  AddCmdScheduleDrop_def AddSendCmd_def SetQueueCost_def ClearStatistics_def

section \<open>Properties\<close>

text \<open>C33. Whatever is recorded, in whatever order, the figures of a command are those of the records since the
  last clearing: each cost bucket counts the runs whose duration falls in it, each error code the runs
  that ended with it, the requests are counted and their largest size is kept (all modulo
  \<open>2\<^sup>3\<^sup>2\<close>, as the counters wrap around).\<close>

theorem st_figures:
  "let info = at ri_zero (ss_recv (fold st_apply ops ss_new)) cmd
   in at 0 (ri_cost_map info) b = st_count (st_cost cmd b) ops
    \<and> at 0 (ri_error_code_2_num info) r = st_count (st_ret cmd r) ops
    \<and> ri_total_recv_num info = st_count (st_req cmd) ops
    \<and> ri_max_req_size info = foldr max (map (st_req_size cmd) (st_period ops)) 0"
proof (induction ops rule: rev_induct)
  case Nil
  then show ?case by (simp add: ss_new_def ri_zero_def st_count_def st_period_def)
next
  case (snoc p ops)
  have "st_period (ops @ [p]) = (if p = OpClear then [] else p # st_period ops)"
    by (simp add: st_period_def)
  with snoc show ?case
    by (cases p) (auto simp: st_count_snoc st_defs Let_def ri_zero_def max.commute)
qed
end
