(* ===== verification/ContextCtl.thy ===== *)
theory ContextCtl
  imports Timers Statistics
begin

text \<open>
  \<^verbatim>\<open>src/core/context.h\<close>, \<^verbatim>\<open>src/core/context_mgr.{h,cpp}\<close>,
  \<^verbatim>\<open>src/core/coro_mgr.h\<close> and \<^verbatim>\<open>src/core/context_controller.{h,cpp}\<close>: the contexts
  of requests and the controller that suspends a request until its answer or its timeout.

  The closures the code stores are values of data types; pointers are numbers into the maps of live
  contexts, and reading a context that was deleted is \<^term>\<open>None\<close>, like a failed assertion.  The user's
  callbacks, the bodies of the finish handlers and the resumption of a coroutine are an environment the
  operations take as an argument.  A log call does nothing here.
\<close>

section \<open>Server contexts\<close>

text \<open>The fields of the protocol head, of \<^verbatim>\<open>src/pb/common_context.h\<close>.\<close>

record pb_head =
  ph_gid :: "64 word"
  ph_seq_id :: "64 word"
  ph_cmd :: "32 word"
  ph_src :: "32 word"
  ph_dst :: "32 word"
  ph_pkg_flag :: "16 word"
  ph_timeout :: "64 word"
  ph_ret_code :: "32 word"
  ph_svr_version :: "32 word"

definition ph_zero :: pb_head where
  "ph_zero = \<lparr>ph_gid = 0, ph_seq_id = 0, ph_cmd = 0, ph_src = 0, ph_dst = 0, ph_pkg_flag = 0, ph_timeout = 0,
     ph_ret_code = 0, ph_svr_version = 0\<rparr>"

text \<open>The callbacks set on server contexts: that of an RPC method and that of a timer event.\<close>

datatype sx_callback = MethodFinish | EventFinish "64 word"

text \<open>
  A server context; the last three fields are those of \<^verbatim>\<open>PBContext\<close>.  The recycling function of
  every server context deletes it; whether it is set is a flag.
\<close>

record sctx =
  sx_id :: "64 word"
  sx_ret_code :: "32 word"
  sx_callback :: "sx_callback option"
  sx_recycle :: bool
  sx_to_be_continue :: bool
  sx_start_time :: "64 word"
  sx_end_time :: "64 word"
  sx_gid :: "64 word"
  sx_pkg_flag :: "16 word"
  sx_svr_version :: "32 word"
  sx_head :: pb_head
  sx_transport_index :: "32 word"
  sx_ignore :: bool

definition sx_new :: "64 word \<Rightarrow> sctx" where
  "sx_new i = \<lparr>sx_id = i, sx_ret_code = 0, sx_callback = None, sx_recycle = False, sx_to_be_continue = False,
     sx_start_time = 0, sx_end_time = 0, sx_gid = 0, sx_pkg_flag = 0, sx_svr_version = 0, sx_head = ph_zero,
     sx_transport_index = 0, sx_ignore = False\<rparr>"

definition sx_SetCallback :: "sx_callback \<Rightarrow> bool \<Rightarrow> sctx \<Rightarrow> sctx" where
  "sx_SetCallback cb recycle c = c\<lparr>sx_callback := Some cb, sx_recycle := recycle\<rparr>"

definition sx_Duration :: "sctx \<Rightarrow> 32 word" where
  "sx_Duration c = ucast (sx_end_time c - sx_start_time c)"

definition sx_IsFinish :: "sctx \<Rightarrow> bool" where
  "sx_IsFinish c \<longleftrightarrow> sx_ret_code c \<noteq> 0 \<or> \<not> sx_to_be_continue c"

section \<open>Client contexts\<close>

text \<open>The three closures \<^verbatim>\<open>Pending\<close> makes, with what they capture: the user's callback and the server context.\<close>

datatype 'cb cx_callback = CbBlocking 'cb "nat option" | CbYield "'cb option" "nat option" | CbAsync "'cb option" nat

datatype 'rc cx_recycle = RcUser 'rc | RcResume nat

record ('cb, 'rc) cctx =
  cx_id :: "64 word"
  cx_ret_code :: "32 word"
  cx_callback :: "'cb cx_callback option"
  cx_recycle :: "'rc cx_recycle option"
  cx_timer_id :: "32 word"
  cx_server_ctx :: "nat option"
  cx_cmd :: "32 word"

record ('cb, 'rc, 'bl) async_task =
  at_callback :: "'cb option"
  at_recycle_fun :: "'rc option"
  at_blocking_fun :: "'bl option"

section \<open>The state\<close>

text \<open>
  The global objects (clock, ids, statistics), the current server context of the thread, the live
  contexts by pointer with the next pointer of the allocator, and the controller's members.  A timer of
  the controller runs a closure that captures a sequence id: the task is that id.
\<close>

record ('cb, 'rc) world =
  w_clock :: clock
  w_idgen :: id_gen
  w_stats :: server_stats
  w_auto_counter :: "64 word"
  w_curr :: "nat option"
  w_sctx :: "nat \<Rightarrow> sctx option"
  w_cctx :: "nat \<Rightarrow> ('cb, 'rc) cctx option"
  w_next :: nat
  cc_timers :: "64 word tq"
  cc_cache :: "(64 word \<times> nat) list"
  cc_init :: bool
  cc_use_coroutine :: bool

record ('cb, 'rc, 'w) env =
  e_callback :: "'cb \<Rightarrow> 32 word \<Rightarrow> nat option \<Rightarrow> 'w \<Rightarrow> 'w option"
  e_recycle :: "'rc \<Rightarrow> 'w \<Rightarrow> 'w option"
  e_resume :: "nat \<Rightarrow> 'w \<Rightarrow> 'w option"
  e_finish :: "sx_callback \<Rightarrow> nat \<Rightarrow> 'w \<Rightarrow> 'w option"

definition cm_GetContextId :: "('cb, 'rc, 'z) world_scheme \<Rightarrow> 64 word option" where
  "cm_GetContextId w = (case w_curr w of None \<Rightarrow> Some 0 | Some p \<Rightarrow> map_option sx_gid (w_sctx w p))"

definition w_new_sctx :: "('cb, 'rc, 'z) world_scheme \<Rightarrow> nat \<times> ('cb, 'rc, 'z) world_scheme" where
  "w_new_sctx w = (w_next w, w\<lparr>w_sctx := (w_sctx w)(w_next w \<mapsto> sx_new (w_auto_counter w)),
     w_auto_counter := w_auto_counter w + 1, w_next := w_next w + 1\<rparr>)"

definition w_new_cctx :: "('cb, 'rc, 'z) world_scheme \<Rightarrow> nat \<times> ('cb, 'rc, 'z) world_scheme" where
  "w_new_cctx w = (w_next w, w\<lparr>w_cctx := (w_cctx w)(w_next w \<mapsto>
       \<lparr>cx_id = w_auto_counter w, cx_ret_code = 0, cx_callback = None, cx_recycle = None, cx_timer_id = 0,
        cx_server_ctx = w_curr w, cx_cmd = 0\<rparr>),
     w_auto_counter := w_auto_counter w + 1, w_next := w_next w + 1\<rparr>)"

section \<open>Running a context\<close>

definition sx_Run :: "('cb, 'rc, ('cb, 'rc, 'z) world_scheme) env \<Rightarrow> nat \<Rightarrow> ('cb, 'rc, 'z) world_scheme
    \<Rightarrow> ('cb, 'rc, 'z) world_scheme option" where
  "sx_Run e p w = do {
     c \<leftarrow> w_sctx w p;
     cb \<leftarrow> sx_callback c;
     w \<leftarrow> e_finish e cb p w;
     c \<leftarrow> w_sctx w p;
     Some (if sx_recycle c then w\<lparr>w_sctx := (w_sctx w)(p := None)\<rparr> else w) }"

fun cx_call :: "('cb, 'rc, ('cb, 'rc, 'z) world_scheme) env \<Rightarrow> 'cb cx_callback \<Rightarrow> 32 word
    \<Rightarrow> ('cb, 'rc, 'z) world_scheme \<Rightarrow> ('cb, 'rc, 'z) world_scheme option" where
  "cx_call e (CbBlocking cb sp) ret w = e_callback e cb ret sp w"
| "cx_call e (CbYield cb sp) ret w = (case cb of None \<Rightarrow> Some w | Some cb \<Rightarrow> e_callback e cb ret sp w)"
| "cx_call e (CbAsync cb p) ret w = do {
     c \<leftarrow> w_sctx w p;
     w \<leftarrow> Some (w\<lparr>w_sctx := (w_sctx w)(p \<mapsto> c\<lparr>sx_to_be_continue := False\<rparr>), w_curr := Some p\<rparr>);
     w \<leftarrow> (case cb of None \<Rightarrow> Some w | Some cb \<Rightarrow> e_callback e cb ret (Some p) w);
     c \<leftarrow> w_sctx w p;
     if sx_IsFinish c then sx_Run e p w else Some w }"

definition cx_Run :: "('cb, 'rc, ('cb, 'rc, 'z) world_scheme) env \<Rightarrow> nat \<Rightarrow> ('cb, 'rc, 'z) world_scheme
    \<Rightarrow> ('cb, 'rc, 'z) world_scheme option" where
  "cx_Run e p w = do {
     c \<leftarrow> w_cctx w p;
     cb \<leftarrow> cx_callback c;
     w \<leftarrow> cx_call e cb (cx_ret_code c) w;
     c \<leftarrow> w_cctx w p;
     (case cx_recycle c of
        None \<Rightarrow> Some w
      | Some (RcUser r) \<Rightarrow> e_recycle e r w
      | Some (RcResume co) \<Rightarrow> e_resume e co w) }"

section \<open>The controller\<close>

definition cc_Init :: "bool \<Rightarrow> ('cb, 'rc, 'z) world_scheme \<Rightarrow> bool \<times> ('cb, 'rc, 'z) world_scheme" where
  "cc_Init coroutine w = (True, if cc_init w then w else w\<lparr>cc_use_coroutine := coroutine, cc_init := True\<rparr>)"

definition cc_Awake :: "64 word \<Rightarrow> 32 word \<Rightarrow> ('cb, 'rc, 'z) world_scheme
    \<Rightarrow> (nat option \<times> ('cb, 'rc, 'z) world_scheme) option" where
  "cc_Awake seq_id ret_code w =
     (case map_of (cc_cache w) seq_id of
        None \<Rightarrow> Some (None, w)
      | Some p \<Rightarrow> do {
          c \<leftarrow> w_cctx w p;
          w \<leftarrow> Some (w\<lparr>cc_cache := AList.delete seq_id (cc_cache w)\<rparr>);
          w \<leftarrow> Some (if ret_code \<noteq> RPC_TIME_OUT
               then w\<lparr>cc_timers := snd (tq_Cancel (ucast (cx_timer_id c)) (cc_timers w))\<rparr>
               else w\<lparr>w_stats := ss_map_statistics inc_rpc_time_out_num (w_stats w)\<rparr>);
          Some (Some p, w\<lparr>w_cctx := (w_cctx w)(p \<mapsto> c\<lparr>cx_ret_code := ret_code, cx_timer_id := 0\<rparr>)\<rparr>) })"

text \<open>
  How \<^verbatim>\<open>Pending\<close> ends: it returns a code, or it has yielded the coroutine; when the coroutine is
  resumed, it continues with \<open>cc_resumed\<close>.
\<close>

datatype cc_result = Returned "32 word" | Yielded nat "nat option"

definition cc_resumed :: "nat option \<Rightarrow> ('cb, 'rc, 'z) world_scheme \<Rightarrow> 32 word \<times> ('cb, 'rc, 'z) world_scheme" where
  "cc_resumed server_ctx w = (RPC_SUCCESS, w\<lparr>w_curr := server_ctx\<rparr>)"

text \<open>The part after the request is registered: the closures of the three modes.\<close>

definition cc_suspend :: "('bl \<Rightarrow> ('cb, 'rc, 'z) world_scheme \<Rightarrow> ('cb, 'rc, 'z) world_scheme option) \<Rightarrow> nat option \<Rightarrow> nat
    \<Rightarrow> ('cb, 'rc, 'bl) async_task \<Rightarrow> ('cb, 'rc, 'z) world_scheme \<Rightarrow> (cc_result \<times> ('cb, 'rc, 'z) world_scheme) option" where
  "cc_suspend block this_coro p task w = do {
     c \<leftarrow> w_cctx w p;
     if cc_use_coroutine w then
       (case (at_callback task, at_blocking_fun task) of
          (Some cb, Some bl) \<Rightarrow> do {
            w \<leftarrow> Some (w\<lparr>w_cctx := (w_cctx w)(p \<mapsto> c\<lparr>cx_callback := Some (CbBlocking cb (cx_server_ctx c)),
                     cx_recycle := map_option RcUser (at_recycle_fun task)\<rparr>), w_curr := None\<rparr>);
            w \<leftarrow> block bl w;
            Some (Returned RPC_SUCCESS, w\<lparr>w_curr := cx_server_ctx c\<rparr>) }
        | _ \<Rightarrow> do {
            co \<leftarrow> this_coro;
            Some (Yielded co (cx_server_ctx c),
              w\<lparr>w_cctx := (w_cctx w)(p \<mapsto> c\<lparr>cx_callback := Some (CbYield (at_callback task) (cx_server_ctx c)),
                  cx_recycle := Some (RcResume co)\<rparr>), w_curr := None\<rparr>) })
     else do {
       sp \<leftarrow> cx_server_ctx c;
       s \<leftarrow> w_sctx w sp;
       Some (Returned RPC_SUCCESS,
         w\<lparr>w_cctx := (w_cctx w)(p \<mapsto> c\<lparr>cx_callback := Some (CbAsync (at_callback task) sp),
             cx_recycle := map_option RcUser (at_recycle_fun task)\<rparr>),
           w_sctx := (w_sctx w)(sp \<mapsto> s\<lparr>sx_to_be_continue := True\<rparr>), w_curr := None\<rparr>) } }"

definition cc_Pending :: "('bl \<Rightarrow> ('cb, 'rc, 'z) world_scheme \<Rightarrow> ('cb, 'rc, 'z) world_scheme option) \<Rightarrow> nat option
    \<Rightarrow> 64 word \<Rightarrow> 32 word \<Rightarrow> nat option \<Rightarrow> ('cb, 'rc, 'bl) async_task
    \<Rightarrow> ('cb, 'rc, 'z) world_scheme \<Rightarrow> (cc_result \<times> ('cb, 'rc, 'z) world_scheme) option" where
  "cc_Pending block this_coro seq_id timeout client_ctx task w =
     (case client_ctx of
        None \<Rightarrow> Some (Returned RPC_SYS_ERR, w)
      | Some p \<Rightarrow>
          let (seq_id, w) = (if seq_id = 0 then case ig_GenerateSeqID (w_idgen w) of (i, g) \<Rightarrow> (i, w\<lparr>w_idgen := g\<rparr>)
                             else (seq_id, w));
              expire_time = clk_CurrentMilliSec (w_clock w) + ucast timeout;
              (timer_id, q) = tq_Add seq_id expire_time 0 (cc_timers w);
              w = w\<lparr>cc_timers := q\<rparr>
          in if timer_id = 0 then Some (Returned RPC_SYS_ERR, w)
             else do {
               c \<leftarrow> w_cctx w p;
               w \<leftarrow> Some (w\<lparr>w_cctx := (w_cctx w)(p \<mapsto> c\<lparr>cx_timer_id := ucast timer_id\<rparr>)\<rparr>);
               if map_of (cc_cache w) seq_id \<noteq> None
               then Some (Returned RPC_SYS_ERR, w\<lparr>cc_timers := snd (tq_Cancel timer_id (cc_timers w))\<rparr>)
               else do {
                 w \<leftarrow> Some (w\<lparr>cc_cache := (seq_id, p) # cc_cache w\<rparr>);
                 w \<leftarrow> Some (w\<lparr>w_stats := ss_map_statistics
                        (save_max_coro_pending_num_max (of_nat (length (cc_cache w)))) (w_stats w)\<rparr>);
                 cc_suspend block this_coro p task w } })"

text \<open>The closure a controller's timer runs.\<close>

definition cc_on_timer :: "('cb, 'rc, ('cb, 'rc, 'z) world_scheme) env \<Rightarrow> 64 word \<Rightarrow> 64 word \<Rightarrow> 32 word
    \<Rightarrow> ('cb, 'rc, 'z) world_scheme \<Rightarrow> ('cb, 'rc, 'z) world_scheme option" where
  "cc_on_timer e seq_id timer_id interval w = do {
     (r, w) \<leftarrow> cc_Awake seq_id RPC_TIME_OUT w;
     (case r of None \<Rightarrow> Some w | Some p \<Rightarrow> cx_Run e p w) }"

definition cc_ProcTimeOut :: "('cb, 'rc, ('cb, 'rc, 'z) world_scheme) env \<Rightarrow> 64 word \<Rightarrow> ('cb, 'rc, 'z) world_scheme
    \<Rightarrow> (32 word \<times> ('cb, 'rc, 'z) world_scheme) option" where
  "cc_ProcTimeOut e now w = tq_TimeOut cc_timers (\<lambda>q w. w\<lparr>cc_timers := q\<rparr>) (cc_on_timer e) now w"

definition cc_UseCoroutine :: "('cb, 'rc, 'z) world_scheme \<Rightarrow> bool" where
  "cc_UseCoroutine w = cc_use_coroutine w"

definition cc_PendingContextNum :: "('cb, 'rc, 'z) world_scheme \<Rightarrow> nat" where
  "cc_PendingContextNum w = length (cc_cache w)"

definition cc_PendingCoroutineNum :: "nat \<Rightarrow> ('cb, 'rc, 'z) world_scheme \<Rightarrow> nat" where
  "cc_PendingCoroutineNum running w = (if cc_UseCoroutine w then running else 0)"

section \<open>The invariant of the controller\<close>

text \<open>
  Pending requests and live timers correspond one to one: every request has its own one-shot timer, whose
  task is the request's id and whose number is kept in the client context.  The numbers stay below
  \<open>2\<^sup>3\<^sup>2\<close>, as \<^verbatim>\<open>ClientContext::timer_id\<close> has 32 bits.
\<close>

definition cc_link :: "('cb, 'rc, 'z) world_scheme \<Rightarrow> 64 word \<Rightarrow> nat \<Rightarrow> 64 word timer \<Rightarrow> bool" where
  "cc_link w s p t \<longleftrightarrow> t \<in> set (tq_queue (cc_timers w)) \<and> tm_task t = s
     \<and> map_option cx_timer_id (w_cctx w p) = Some (ucast (tm_seq_id t))"

definition cc_timers_ok :: "64 word tq \<Rightarrow> bool" where
  "cc_timers_ok q \<longleftrightarrow> tq_inv q \<and> unat (tq_base_id q) < 2 ^ 32 \<and> inj_on tm_task (set (tq_queue q))
     \<and> (\<forall>t \<in> set (tq_queue q). tm_interval t = 0 \<and> tm_seq_id t \<le> tq_base_id q)"

definition cc_inv :: "('cb, 'rc, 'z) world_scheme \<Rightarrow> bool" where
  "cc_inv w \<longleftrightarrow> cc_timers_ok (cc_timers w) \<and> distinct (map fst (cc_cache w)) \<and> distinct (map snd (cc_cache w))
     \<and> tm_task ` set (tq_queue (cc_timers w)) = fst ` set (cc_cache w)
     \<and> (\<forall>s p. map_of (cc_cache w) s = Some p \<longrightarrow> (\<exists>t. cc_link w s p t))"

lemma ucast_back: "unat (x :: 64 word) < 2 ^ 32 \<Longrightarrow> ucast (ucast x :: 32 word) = x"
  by (simp add: unsigned_ucast_eq word_unat_eq_iff unsigned_take_bit_eq take_bit_nat_eq_self)

lemma in_queue_iff_live: "tq_inv q \<Longrightarrow> t \<in> set (tq_queue q) \<longleftrightarrow> tq_live q (tm_seq_id t) = Some t"
  by (simp add: tq_live_iff)

lemma tq_Cancel_set:
  assumes "tq_inv q" "t \<in> set (tq_queue q)" "tm_seq_id t = i"
  shows "tq_inv (snd (tq_Cancel i q))" "set (tq_queue (snd (tq_Cancel i q))) = set (tq_queue q) - {t}"
    "tq_base_id (snd (tq_Cancel i q)) = tq_base_id q"
proof -
  obtain q' where q': "tq_Cancel i q = (tq_live q i \<noteq> None, q')" "tq_inv q'" "tq_base_id q' = tq_base_id q"
    "tq_live q' = (tq_live q)(i := None)" using tq_Cancel_result [OF assms(1), of i] by blast
  have "tq_live q i = Some t" using assms in_queue_iff_live by blast
  then have "u \<in> set (tq_queue q') \<longleftrightarrow> u \<in> set (tq_queue q) - {t}" for u
    using in_queue_iff_live [OF assms(1), of u] assms(3)
    unfolding in_queue_iff_live [OF q'(2)] q'(4) by auto
  with q' show "tq_inv (snd (tq_Cancel i q))" "set (tq_queue (snd (tq_Cancel i q))) = set (tq_queue q) - {t}"
    "tq_base_id (snd (tq_Cancel i q)) = tq_base_id q" by auto
qed

lemma map_of_delete: "map_of (AList.delete k xs) = (map_of xs)(k := None)"
  by (rule delete_conv')

lemma delete_distinct:
  "distinct (map fst xs) \<Longrightarrow> distinct (map fst (AList.delete k xs))"
  "distinct (map snd xs) \<Longrightarrow> distinct (map snd (AList.delete k xs))"
  "fst ` set (AList.delete k xs) = fst ` set xs - {k}"
  by (auto simp: AList.delete_eq distinct_map inj_on_def image_iff intro: distinct_filter split: prod.splits)

text \<open>Taking a request and its timer away, as an answer and an expiry do.\<close>

lemma cc_inv_remove:
  assumes inv: "cc_inv w" and p: "map_of (cc_cache w) s = Some p" and t: "cc_link w s p t"
    and q': "tq_inv q'" "set (tq_queue q') = set (tq_queue (cc_timers w)) - {t}"
      "tq_base_id q' = tq_base_id (cc_timers w)"
    and w': "cc_timers w' = q'" "cc_cache w' = AList.delete s (cc_cache w)"
      "w_cctx w' = (w_cctx w)(p \<mapsto> c)"
  shows "cc_inv w'" "s \<notin> tm_task ` set (tq_queue q')"
proof -
  let ?Q = "set (tq_queue (cc_timers w))"
  from inv have d: "cc_timers_ok (cc_timers w)" "distinct (map fst (cc_cache w))" "distinct (map snd (cc_cache w))"
    "tm_task ` ?Q = fst ` set (cc_cache w)" by (simp_all add: cc_inv_def)
  have tt: "t \<in> ?Q" "tm_task t = s" using t by (simp_all add: cc_link_def)
  have "inj_on tm_task ?Q" using d(1) by (simp add: cc_timers_ok_def)
  then have im: "tm_task ` (?Q - {t}) = tm_task ` ?Q - {s}" using tt by (auto dest: inj_onD)
  then show "s \<notin> tm_task ` set (tq_queue q')" using q'(2) by simp
  have link: "\<exists>u. cc_link w' s' p' u" if "map_of (cc_cache w') s' = Some p'" for s' p'
  proof -
    from that have s': "s' \<noteq> s" "map_of (cc_cache w) s' = Some p'"
      by (auto simp: w' map_of_delete split: if_splits)
    from inv s'(2) obtain u where u: "cc_link w s' p' u" unfolding cc_inv_def by blast
    have "u \<noteq> t" using u t s'(1) by (auto simp: cc_link_def)
    moreover have "p' \<noteq> p"
    proof
      assume "p' = p"
      with p s'(2) have "(s', p) \<in> set (cc_cache w)" "(s, p) \<in> set (cc_cache w)" by (simp_all add: map_of_SomeD)
      then have "s' = s" using d(3) inj_onD [of snd "set (cc_cache w)" "(s', p)" "(s, p)"]
        by (simp add: distinct_map)
      with s'(1) show False by simp
    qed
    ultimately show ?thesis using u q'(2) w' by (intro exI [of _ u]) (simp add: cc_link_def)
  qed
  have "cc_timers_ok q'" using d(1) q' by (auto simp: cc_timers_ok_def intro: inj_on_subset)
  with d im link q'(2) show "cc_inv w'" by (simp add: cc_inv_def w' delete_distinct)
qed

lemma cc_inv_link: "cc_inv w \<Longrightarrow> map_of (cc_cache w) s = Some p \<Longrightarrow> \<exists>t c. cc_link w s p t \<and> w_cctx w p = Some c
    \<and> ucast (cx_timer_id c) = tm_seq_id t"
proof -
  assume inv: "cc_inv w" and p: "map_of (cc_cache w) s = Some p"
  then obtain t where t: "cc_link w s p t" unfolding cc_inv_def by blast
  then obtain c where c: "w_cctx w p = Some c" "cx_timer_id c = ucast (tm_seq_id t)" by (auto simp: cc_link_def)
  have "tm_seq_id t \<le> tq_base_id (cc_timers w)" "unat (tq_base_id (cc_timers w)) < 2 ^ 32"
    using inv t by (auto simp: cc_inv_def cc_timers_ok_def cc_link_def)
  then have "unat (tm_seq_id t) < 2 ^ 32" by (simp add: word_le_nat_alt)
  with t c show ?thesis by (auto simp: ucast_back)
qed

text \<open>An answer that is not the timeout code.\<close>

lemma cc_Awake_answer:
  assumes inv: "cc_inv w" and p: "map_of (cc_cache w) s = Some p" and ret: "ret \<noteq> RPC_TIME_OUT"
  shows "\<exists>w' c. cc_Awake s ret w = Some (Some p, w') \<and> cc_inv w' \<and> cc_cache w' = AList.delete s (cc_cache w)
    \<and> s \<notin> tm_task ` set (tq_queue (cc_timers w')) \<and> w_cctx w p = Some c
    \<and> w' = w\<lparr>cc_cache := cc_cache w', cc_timers := cc_timers w',
        w_cctx := (w_cctx w)(p \<mapsto> c\<lparr>cx_ret_code := ret, cx_timer_id := 0\<rparr>)\<rparr>"
proof -
  from cc_inv_link [OF inv p] obtain t c where t: "cc_link w s p t" "w_cctx w p = Some c"
    "ucast (cx_timer_id c) = tm_seq_id t" by blast
  have tq: "tq_inv (cc_timers w)" "t \<in> set (tq_queue (cc_timers w))"
    using inv t(1) by (simp_all add: cc_inv_def cc_timers_ok_def cc_link_def)
  note can = tq_Cancel_set [OF tq refl]
  let ?w = "w\<lparr>cc_cache := AList.delete s (cc_cache w), cc_timers := snd (tq_Cancel (tm_seq_id t) (cc_timers w)),
      w_cctx := (w_cctx w)(p \<mapsto> c\<lparr>cx_ret_code := ret, cx_timer_id := 0\<rparr>)\<rparr>"
  have "cc_Awake s ret w = Some (Some p, ?w)" using p t ret by (simp add: cc_Awake_def)
  moreover have "cc_inv ?w" "s \<notin> tm_task ` set (tq_queue (cc_timers ?w))"
    using cc_inv_remove [OF inv p t(1) can, of ?w] by simp_all
  ultimately show ?thesis using t(2) by (intro exI [of _ ?w] exI [of _ c]) simp
qed

text \<open>The expiry of the request's own timer.\<close>

lemma cc_Awake_expiry:
  assumes inv: "cc_inv w" and q: "tq_queue (cc_timers w) = t # us"
  shows "\<exists>w' p c. cc_Awake (tm_task t) RPC_TIME_OUT (w\<lparr>cc_timers := tq_fire t (cc_timers w)\<rparr>) = Some (Some p, w')
    \<and> cc_inv w' \<and> map_of (cc_cache w) (tm_task t) = Some p \<and> w_cctx w p = Some c
    \<and> cc_cache w' = AList.delete (tm_task t) (cc_cache w) \<and> cc_timers w' = tq_fire t (cc_timers w)
    \<and> w_cctx w' = (w_cctx w)(p \<mapsto> c\<lparr>cx_ret_code := RPC_TIME_OUT, cx_timer_id := 0\<rparr>)
    \<and> w' = w\<lparr>cc_cache := cc_cache w', cc_timers := cc_timers w', w_stats := w_stats w',
        w_cctx := (w_cctx w)(p \<mapsto> c\<lparr>cx_ret_code := RPC_TIME_OUT, cx_timer_id := 0\<rparr>)\<rparr>"
proof -
  have tq: "tq_inv (cc_timers w)" "t \<in> set (tq_queue (cc_timers w))" "tm_interval t = 0"
    using inv q by (simp_all add: cc_inv_def cc_timers_ok_def)
  have "tm_task t \<in> fst ` set (cc_cache w)" using inv tq(2) by (auto simp: cc_inv_def)
  then obtain p where p: "map_of (cc_cache w) (tm_task t) = Some p" by (metis map_of_eq_None_iff not_Some_eq)
  from cc_inv_link [OF inv p] obtain u c where u: "cc_link w (tm_task t) p u" "w_cctx w p = Some c" by blast
  have "u = t" using u(1) inv tq(2) by (auto simp: cc_link_def cc_inv_def cc_timers_ok_def dest: inj_onD)
  with u have t: "cc_link w (tm_task t) p t" by simp
  note fire = tq_fire_result [OF tq(1) q]
  have "t \<notin> set us" using tq(1) q by (auto simp: tq_inv_def)
  then have set: "set (tq_queue (tq_fire t (cc_timers w))) = set (tq_queue (cc_timers w)) - {t}"
    using fire(3) q tq(3) by auto
  let ?w = "w\<lparr>cc_cache := AList.delete (tm_task t) (cc_cache w), cc_timers := tq_fire t (cc_timers w),
      w_stats := ss_map_statistics inc_rpc_time_out_num (w_stats w),
      w_cctx := (w_cctx w)(p \<mapsto> c\<lparr>cx_ret_code := RPC_TIME_OUT, cx_timer_id := 0\<rparr>)\<rparr>"
  have "cc_Awake (tm_task t) RPC_TIME_OUT (w\<lparr>cc_timers := tq_fire t (cc_timers w)\<rparr>) = Some (Some p, ?w)"
    using p u(2) by (simp add: cc_Awake_def)
  moreover have "cc_inv ?w" using cc_inv_remove(1) [OF inv p t fire(1) set fire(4), of ?w] by simp
  ultimately show ?thesis using p u(2) by (intro exI [of _ ?w] exI [of _ p] exI [of _ c]) simp
qed

section \<open>Suspending a request\<close>

lemma cc_inv_cong:
  assumes "cc_inv w" "cc_timers w' = cc_timers w" "cc_cache w' = cc_cache w"
    "\<And>p. map_option cx_timer_id (w_cctx w' p) = map_option cx_timer_id (w_cctx w p)"
  shows "cc_inv w'"
  using assms by (simp add: cc_inv_def cc_link_def)

text \<open>Arming a timer for a new request.\<close>

lemma cc_arm:
  fixes s e :: "64 word"
  assumes ok: "cc_timers_ok q" and room: "unat (tq_base_id q) + 1 < 2 ^ 32"
  defines "t \<equiv> \<lparr>tm_seq_id = tq_next_id q, tm_interval = 0, tm_expire = e, tm_task = s\<rparr>"
  shows "\<exists>q'. tq_Add s e 0 q = (tq_next_id q, q') \<and> tq_inv q' \<and> set (tq_queue q') = insert t (set (tq_queue q))
    \<and> t \<notin> set (tq_queue q) \<and> tq_base_id q' = tq_next_id q \<and> tq_live q' = (tq_live q)(tq_next_id q \<mapsto> t)
    \<and> tq_live q (tq_next_id q) = None
    \<and> unat (tq_next_id q) < 2 ^ 32 \<and> tq_base_id q \<le> tq_next_id q"
proof -
  have inv: "tq_inv q" using ok by (simp add: cc_timers_ok_def)
  have "unat (tq_base_id q + 1) = unat (tq_base_id q) + 1" using room by (simp add: iffD1 [OF unat_add_lem])
  then have nx: "tq_next_id q = tq_base_id q + 1" "unat (tq_next_id q) = unat (tq_base_id q) + 1"
    by (auto simp: tq_next_id_def unat_eq_0)
  have le: "tm_seq_id u \<le> tq_base_id q" if "u \<in> set (tq_queue q)" for u
    using ok that by (simp add: cc_timers_ok_def)
  then have fresh: "tm_seq_id u \<noteq> tq_next_id q" if "u \<in> set (tq_queue q)" for u
    using that nx(2) by (force simp: word_le_nat_alt)
  then have none: "tq_live q (tq_next_id q) = None" using tq_live_None [OF inv] by force
  with tq_Add_result [OF inv, of s e 0] obtain q' where q': "tq_Add s e 0 q = (tq_next_id q, q')" "tq_inv q'"
    "tq_base_id q' = tq_next_id q" "tq_live q' = (tq_live q)(tq_next_id q \<mapsto> t)" unfolding t_def by auto
  have "u \<in> set (tq_queue q') \<longleftrightarrow> u \<in> insert t (set (tq_queue q))" for u
    using in_queue_iff_live [OF inv, of u] none fresh [of u]
    unfolding in_queue_iff_live [OF q'(2)] q'(4) by (auto simp: t_def)
  then have set: "set (tq_queue q') = insert t (set (tq_queue q))" by blast
  have "t \<notin> set (tq_queue q)" using fresh [of t] by (auto simp: t_def)
  with q' set none nx room show ?thesis by (auto simp: word_le_nat_alt)
qed

definition cc_effective_id :: "64 word \<Rightarrow> ('cb, 'rc, 'z) world_scheme \<Rightarrow> 64 word" where
  "cc_effective_id s w = (if s = 0 then ig_base (w_idgen w) + 1 else s)"

text \<open>The caller's obligations: the client context is live and not pending, and what the mode needs is there.\<close>

definition cc_can_pend :: "nat option \<Rightarrow> nat \<Rightarrow> ('cb, 'rc, 'z) world_scheme \<Rightarrow> bool" where
  "cc_can_pend this_coro p w \<longleftrightarrow> cc_inv w \<and> p \<notin> snd ` set (cc_cache w) \<and> unat (tq_base_id (cc_timers w)) + 1 < 2 ^ 32
     \<and> (case w_cctx w p of None \<Rightarrow> False
        | Some c \<Rightarrow> if cc_use_coroutine w then this_coro \<noteq> None
                    else (case cx_server_ctx c of None \<Rightarrow> False | Some sp \<Rightarrow> w_sctx w sp \<noteq> None))"

lemma cc_suspend_result:
  assumes "at_blocking_fun task = None" "w_cctx w p = Some c"
    "if cc_use_coroutine w then this_coro \<noteq> None
     else (case cx_server_ctx c of None \<Rightarrow> False | Some sp \<Rightarrow> w_sctx w sp \<noteq> None)"
  shows "\<exists>r w'. cc_suspend block this_coro p task w = Some (r, w') \<and> r \<noteq> Returned RPC_SYS_ERR
    \<and> w_curr w' = None \<and> cc_timers w' = cc_timers w \<and> cc_cache w' = cc_cache w
    \<and> (\<forall>x. x \<noteq> p \<longrightarrow> w_cctx w' x = w_cctx w x) \<and> map_option cx_timer_id (w_cctx w' p) = Some (cx_timer_id c)
    \<and> Option.bind (w_cctx w' p) cx_callback \<noteq> None"
proof (cases "cc_use_coroutine w")
  case True
  with assms show ?thesis by (auto simp: cc_suspend_def split: option.splits)
next
  case False
  with assms show ?thesis
    by (auto simp: cc_suspend_def rpc_codes split: option.splits)
qed

lemma cc_Pending_result:
  fixes s :: "64 word"
  assumes can: "cc_can_pend this_coro p w" and nb: "at_blocking_fun task = None"
  defines "i \<equiv> cc_effective_id s w"
  shows "\<exists>r w'. cc_Pending block this_coro s timeout (Some p) task w = Some (r, w') \<and> cc_inv w'
    \<and> (if i \<in> fst ` set (cc_cache w)
       then r = Returned RPC_SYS_ERR \<and> cc_cache w' = cc_cache w \<and> tq_live (cc_timers w') = tq_live (cc_timers w)
       else r \<noteq> Returned RPC_SYS_ERR \<and> w_curr w' = None \<and> cc_cache w' = (i, p) # cc_cache w
         \<and> (\<exists>t. cc_link w' i p t \<and> tm_expire t = clk_CurrentMilliSec (w_clock w) + ucast timeout))"
proof -
  let ?q = "cc_timers w" and ?e = "clk_CurrentMilliSec (w_clock w) + ucast timeout"
  let ?t = "\<lparr>tm_seq_id = tq_next_id ?q, tm_interval = 0, tm_expire = ?e, tm_task = i\<rparr>"
  from can obtain c where c: "w_cctx w p = Some c" "cc_inv w" "p \<notin> snd ` set (cc_cache w)"
    "unat (tq_base_id ?q) + 1 < 2 ^ 32" "if cc_use_coroutine w then this_coro \<noteq> None
     else (case cx_server_ctx c of None \<Rightarrow> False | Some sp \<Rightarrow> w_sctx w sp \<noteq> None)"
    by (auto simp: cc_can_pend_def split: option.splits)
  from c(2) have d: "cc_timers_ok ?q" "distinct (map fst (cc_cache w))" "distinct (map snd (cc_cache w))"
    "tm_task ` set (tq_queue ?q) = fst ` set (cc_cache w)" by (simp_all add: cc_inv_def)
  from cc_arm [OF d(1) c(4), of i ?e] obtain q' where q': "tq_Add i ?e 0 ?q = (tq_next_id ?q, q')" "tq_inv q'"
    "set (tq_queue q') = insert ?t (set (tq_queue ?q))" "?t \<notin> set (tq_queue ?q)" "tq_base_id q' = tq_next_id ?q"
    "tq_live q' = (tq_live ?q)(tq_next_id ?q \<mapsto> ?t)" "tq_live ?q (tq_next_id ?q) = None"
    "unat (tq_next_id ?q) < 2 ^ 32" "tq_base_id ?q \<le> tq_next_id ?q" by blast
  define w0 where "w0 = (if s = 0 then w\<lparr>w_idgen := snd (ig_GenerateSeqID (w_idgen w))\<rparr> else w)"
  have w0: "cc_cache w0 = cc_cache w" "w_cctx w0 = w_cctx w" "w_sctx w0 = w_sctx w" "cc_timers w0 = ?q"
    "cc_use_coroutine w0 = cc_use_coroutine w" "w_clock w0 = w_clock w" by (simp_all add: w0_def)
  have gen: "(if s = 0 then case ig_GenerateSeqID (w_idgen w) of (i, g) \<Rightarrow> (i, w\<lparr>w_idgen := g\<rparr>) else (s, w)) = (i, w0)"
    by (simp add: i_def cc_effective_id_def w0_def ig_GenerateSeqID_def)
  let ?c = "c\<lparr>cx_timer_id := ucast (tq_next_id ?q)\<rparr>"
  have ids: "\<forall>t \<in> set (tq_queue q'). tm_interval t = 0 \<and> tm_seq_id t \<le> tq_base_id q'"
    using d(1) q'(3,5,9) by (auto simp: cc_timers_ok_def dest: order_trans)
  have other: "\<exists>u. u \<in> set (tq_queue ?q) \<and> tm_task u = s' \<and> p' \<noteq> p
      \<and> map_option cx_timer_id (w_cctx w p') = Some (ucast (tm_seq_id u))"
    if "map_of (cc_cache w) s' = Some p'" for s' p'
    using c(2,3) map_of_SomeD [OF that] that by (force simp: cc_inv_def cc_link_def)
  show ?thesis
  proof (cases "i \<in> fst ` set (cc_cache w)")
    case True
    then have known: "map_of (cc_cache w) i \<noteq> None" by (simp add: map_of_eq_None_iff)
    let ?q2 = "snd (tq_Cancel (tq_next_id ?q) q')"
    let ?w = "w0\<lparr>cc_timers := ?q2, w_cctx := (w_cctx w)(p \<mapsto> ?c)\<rparr>"
    have run: "cc_Pending block this_coro s timeout (Some p) task w = Some (Returned RPC_SYS_ERR, ?w)"
      using q'(1) tq_next_id_nonzero [of ?q] c(1) known
      by (simp add: cc_Pending_def gen w0 del: not_None_eq)
    have "?t \<in> set (tq_queue q')" using q'(3) by simp
    note can = tq_Cancel_set [OF q'(2) this, of "tq_next_id ?q"]
    have set: "set (tq_queue ?q2) = set (tq_queue ?q)" using can(2) q'(3,4) by simp
    have "tq_live ?q2 = tq_live ?q" using tq_Cancel_result [OF q'(2), of "tq_next_id ?q"] q'(6,7)
      by (auto simp: fun_upd_idem)
    moreover have "cc_inv ?w"
    proof -
      have "\<exists>t. cc_link ?w s' p' t" if "map_of (cc_cache w) s' = Some p'" for s' p'
        using other [OF that] set by (auto simp: cc_link_def)
      moreover have "cc_timers_ok ?q2" using d(1) can set q'(5,8,9) ids
        by (auto simp: cc_timers_ok_def dest: order_trans)
      ultimately show ?thesis using d set by (simp add: cc_inv_def w0)
    qed
    ultimately show ?thesis using run True by (intro exI [of _ "Returned RPC_SYS_ERR"] exI [of _ ?w]) (simp add: w0)
  next
    case False
    then have new: "map_of (cc_cache w) i = None" by (simp add: map_of_eq_None_iff)
    let ?w = "w0\<lparr>cc_timers := q', w_cctx := (w_cctx w)(p \<mapsto> ?c), cc_cache := (i, p) # cc_cache w,
        w_stats := ss_map_statistics (save_max_coro_pending_num_max (of_nat (Suc (length (cc_cache w))))) (w_stats w0)\<rparr>"
    have run: "cc_Pending block this_coro s timeout (Some p) task w = cc_suspend block this_coro p task ?w"
      using q'(1) tq_next_id_nonzero [of ?q] c(1) new by (simp add: cc_Pending_def gen w0)
    have t: "cc_link ?w i p ?t" using q'(3) by (simp add: cc_link_def)
    have inv: "cc_inv ?w"
    proof -
      have "\<exists>t. cc_link ?w s' p' t" if "map_of (cc_cache ?w) s' = Some p'" for s' p'
      proof (cases "s' = i")
        case True
        with that t show ?thesis by auto
      next
        case False
        with that have "map_of (cc_cache w) s' = Some p'" by simp
        from other [OF this] q'(3) show ?thesis by (auto simp: cc_link_def)
      qed
      moreover have "cc_timers_ok q'" using d(1,4) q'(2,3,5,8) ids False
        by (auto simp: cc_timers_ok_def)
      ultimately show ?thesis using d q'(3) False c(3) by (simp add: cc_inv_def)
    qed
    have "\<exists>r w'. cc_suspend block this_coro p task ?w = Some (r, w') \<and> r \<noteq> Returned RPC_SYS_ERR
      \<and> w_curr w' = None \<and> cc_timers w' = cc_timers ?w \<and> cc_cache w' = cc_cache ?w
      \<and> (\<forall>x. x \<noteq> p \<longrightarrow> w_cctx w' x = w_cctx ?w x) \<and> map_option cx_timer_id (w_cctx w' p) = Some (cx_timer_id ?c)
      \<and> Option.bind (w_cctx w' p) cx_callback \<noteq> None"
      by (rule cc_suspend_result [OF nb]) (use c(5) in \<open>simp_all add: w0 cong: if_cong option.case_cong\<close>)
    then obtain r w' where w': "cc_suspend block this_coro p task ?w = Some (r, w')" "r \<noteq> Returned RPC_SYS_ERR"
      "w_curr w' = None" "cc_timers w' = cc_timers ?w" "cc_cache w' = cc_cache ?w"
      "\<And>x. x \<noteq> p \<Longrightarrow> w_cctx w' x = w_cctx ?w x" "map_option cx_timer_id (w_cctx w' p) = Some (cx_timer_id ?c)" by blast
    have "map_option cx_timer_id (w_cctx w' x) = map_option cx_timer_id (w_cctx ?w x)" for x
      using w'(6,7) by (cases "x = p") simp_all
    then have "cc_inv w'" by (rule cc_inv_cong [OF inv w'(4,5)])
    moreover have "cc_link w' i p ?t" using t w'(4,7) by (simp add: cc_link_def)
    ultimately show ?thesis using run w' False by (intro exI [of _ r] exI [of _ w']) auto
  qed
qed

text \<open>A context that is not pending may change.\<close>

lemma cc_inv_fresh:
  assumes "cc_inv w" "w_cctx w p = None"
  shows "p \<notin> snd ` set (cc_cache w)"
proof
  assume "p \<in> snd ` set (cc_cache w)"
  then obtain s where "(s, p) \<in> set (cc_cache w)" by auto
  then have "map_of (cc_cache w) s = Some p" using assms(1) by (simp add: cc_inv_def)
  from cc_inv_link [OF assms(1) this] show False using assms(2) by auto
qed

lemma cc_inv_other:
  assumes "cc_inv w" "w_cctx w p = None" "cc_timers w' = cc_timers w" "cc_cache w' = cc_cache w"
    "\<And>x. x \<noteq> p \<Longrightarrow> w_cctx w' x = w_cctx w x"
  shows "cc_inv w'"
proof -
  have "cc_link w' s q t = cc_link w s q t" if "map_of (cc_cache w) s = Some q" for s q t
  proof -
    have "q \<in> snd ` set (cc_cache w)" using map_of_SomeD [OF that] by force
    then have "q \<noteq> p" using cc_inv_fresh [OF assms(1,2)] by blast
    then show ?thesis using assms(3) assms(5) [of q] by (simp add: cc_link_def)
  qed
  with assms show ?thesis by (auto simp: cc_inv_def)
qed

text \<open>What a request that waits without a coroutine leaves in the two contexts.\<close>

lemma cc_Pending_async:
  assumes "cc_Pending block this_coro s timeout (Some p) task w = Some (r, w')" "r \<noteq> Returned RPC_SYS_ERR"
    "\<not> cc_use_coroutine w" "w_cctx w p = Some c" "cx_server_ctx c = Some sp" "w_sctx w sp = Some sc"
  shows "r = Returned RPC_SUCCESS \<and> w_sctx w' = (w_sctx w)(sp \<mapsto> sc\<lparr>sx_to_be_continue := True\<rparr>)
    \<and> (\<forall>x. x \<noteq> p \<longrightarrow> w_cctx w' x = w_cctx w x)
    \<and> (\<exists>c'. w_cctx w' p = Some c' \<and> cx_callback c' = Some (CbAsync (at_callback task) sp)
        \<and> cx_recycle c' = map_option RcUser (at_recycle_fun task) \<and> cx_cmd c' = cx_cmd c)"
  using assms by (auto simp: cc_Pending_def cc_suspend_def Let_def split: if_splits prod.splits option.splits)

text \<open>What an answer cancels in general: the timer whose number is the low half of the request's.\<close>

lemma cc_Awake_cancels_low_half:
  assumes "tq_inv (cc_timers w)" "map_of (cc_cache w) s = Some p" "w_cctx w p = Some c"
    "cx_timer_id c = ucast i" "ret \<noteq> RPC_TIME_OUT"
  shows "\<exists>w'. cc_Awake s ret w = Some (Some p, w')
    \<and> tq_live (cc_timers w') = (tq_live (cc_timers w))(and i 0xFFFFFFFF := None)"
proof -
  have "(ucast (ucast i :: 32 word) :: 64 word) = take_bit 32 i"
    by (simp add: word_unat_eq_iff unsigned_ucast_eq unsigned_take_bit_eq)
  then have "(ucast (ucast i :: 32 word) :: 64 word) = and i 0xFFFFFFFF"
    by (simp add: take_bit_eq_mask mask_eq_exp_minus_1)
  then show ?thesis using assms tq_Cancel_result [OF assms(1), of "and i 0xFFFFFFFF"]
    by (auto simp: cc_Awake_def)
qed

section \<open>Properties\<close>

text \<open>C22. Suspending a request registers it under its id with a timer of its own that expires after the given
  time, and suspends the current server context; when the id is in use already, it is refused with an
  error, the pending requests stay as they are and no timer is left behind.  Either way pending requests
  and timers still correspond one to one.\<close>

theorem cc_pending_registers:
  assumes "cc_can_pend this_coro p w" "at_blocking_fun task = None"
  shows "\<exists>r w'. cc_Pending block this_coro s timeout (Some p) task w = Some (r, w') \<and> cc_inv w'
    \<and> (if cc_effective_id s w \<in> fst ` set (cc_cache w)
       then r = Returned RPC_SYS_ERR \<and> cc_cache w' = cc_cache w \<and> tq_live (cc_timers w') = tq_live (cc_timers w)
       else r \<noteq> Returned RPC_SYS_ERR \<and> w_curr w' = None \<and> cc_cache w' = (cc_effective_id s w, p) # cc_cache w
         \<and> (\<exists>t. cc_link w' (cc_effective_id s w) p t
              \<and> tm_expire t = clk_CurrentMilliSec (w_clock w) + ucast timeout))"
  by (rule cc_Pending_result [OF assms])

text \<open>A process in coroutine mode with two client contexts, the first of them pending.\<close>

definition cc_demo0 :: "(nat, nat) world" where
  "cc_demo0 = \<lparr>w_clock = \<lparr>clk_micro_sec = 1000000\<rparr>, w_idgen = \<lparr>ig_base = 0\<rparr>, w_stats = ss_new, w_auto_counter = 1,
     w_curr = None, w_sctx = (\<lambda>_. None),
     w_cctx = (\<lambda>p. if p = 1 \<or> p = 2 then Some \<lparr>cx_id = 1, cx_ret_code = 0, cx_callback = None, cx_recycle = None,
        cx_timer_id = 0, cx_server_ctx = None, cx_cmd = 0\<rparr> else None),
     w_next = 3, cc_timers = tq_new, cc_cache = [], cc_init = True, cc_use_coroutine = True\<rparr>"

definition cc_demo_task :: "(nat, nat, nat) async_task" where
  "cc_demo_task = \<lparr>at_callback = None, at_recycle_fun = None, at_blocking_fun = None\<rparr>"

definition cc_demo1 :: "(nat, nat) world" where
  "cc_demo1 = snd (the (cc_Pending (\<lambda>_ w. Some w) (Some 9) 77 500 (Some 1) cc_demo_task cc_demo0))"

lemma cc_demo0_can: "cc_can_pend (Some 9) 1 cc_demo0" "cc_can_pend (Some 9) 2 cc_demo0"
  by (simp_all add: cc_can_pend_def cc_demo0_def cc_inv_def cc_timers_ok_def tq_inv_new)
     (simp_all add: tq_new_def)

lemma cc_pending_registers_witness:
  "\<exists>r w'. cc_Pending (\<lambda>_ w. Some w) (Some 9) 77 500 (Some 1) cc_demo_task cc_demo0 = Some (r, w')
    \<and> cc_cache w' = [(77, 1)] \<and> cc_inv w'"
proof -
  have "at_blocking_fun cc_demo_task = None" by (simp add: cc_demo_task_def)
  from cc_pending_registers [OF cc_demo0_can(1) this, of "\<lambda>_ w. Some w" 77 500] show ?thesis
    by (auto simp: cc_effective_id_def cc_demo0_def)
qed

lemma cc_demo1: "cc_inv cc_demo1" "cc_cache cc_demo1 = [(77, 1)]"
proof -
  have "at_blocking_fun cc_demo_task = None" by (simp add: cc_demo_task_def)
  from cc_Pending_result [OF cc_demo0_can(1) this, of "\<lambda>_ w. Some w" 77 500]
  show "cc_inv cc_demo1" "cc_cache cc_demo1 = [(77, 1)]"
    by (auto simp: cc_demo1_def cc_effective_id_def cc_demo0_def)
qed




text \<open>The program of the witness: coroutines whose continuation does nothing more.\<close>

definition cc_demo_env :: "(nat, nat, (nat, nat) world) env" where
  "cc_demo_env = \<lparr>e_callback = (\<lambda>_ _ _ w. Some w), e_recycle = (\<lambda>_ w. Some w), e_resume = (\<lambda>_ w. Some w),
     e_finish = (\<lambda>_ _ w. Some w)\<rparr>"

definition cc_demo_ok :: "(nat, nat) world \<Rightarrow> bool" where
  "cc_demo_ok w \<longleftrightarrow> cc_inv w \<and> (\<forall>s p. map_of (cc_cache w) s = Some p \<longrightarrow>
     (\<exists>c sp co. w_cctx w p = Some c \<and> cx_callback c = Some (CbYield None sp) \<and> cx_recycle c = Some (RcResume co)))"

lemma cc_demo_ok1: "cc_demo_ok cc_demo1"
proof -
  have "\<exists>c. w_cctx cc_demo1 1 = Some c \<and> cx_callback c = Some (CbYield None None) \<and> cx_recycle c = Some (RcResume 9)"
    by (simp add: cc_demo1_def cc_Pending_def cc_demo0_def cc_demo_task_def cc_suspend_def tq_new_def tq_Add_def
        tq_GenerateID_def Let_def)
  then show ?thesis using cc_demo1 by (auto simp: cc_demo_ok_def)
qed


text \<open>
  Two requests of one asynchronous handler: the first answer finishes and deletes the server context, and
  the callback of the second reads it.
\<close>

lemma cc_second_answer_dangling:
  assumes "w_cctx w p1 = Some c1" "cx_callback c1 = Some (CbAsync None sp)" "cx_recycle c1 = None"
    "w_cctx w p2 = Some c2" "cx_callback c2 = Some (CbAsync None sp)"
    "w_sctx w sp = Some s" "sx_callback s = Some cb" "sx_recycle s" "\<And>w. e_finish e cb sp w = Some w"
  shows "\<exists>w1. cx_Run e p1 w = Some w1 \<and> w_sctx w1 sp = None \<and> cx_Run e p2 w1 = None"
proof -
  let ?w = "w\<lparr>w_sctx := (w_sctx w)(sp := None), w_curr := Some sp\<rparr>"
  have "cx_Run e p1 w = Some ?w" using assms
    by (simp add: cx_Run_def sx_Run_def sx_IsFinish_def)
  moreover have "cx_Run e p2 ?w = None" using assms by (simp add: cx_Run_def)
  ultimately show ?thesis by (intro exI [of _ ?w]) simp
qed
end
