(* ===== verification/TimeoutDeco.thy ===== *)
theory TimeoutDeco
  imports ContextCtl
begin

text \<open>
  \<^verbatim>\<open>src/core/timeout_decorator.{h,cpp}\<close>: timer events as server contexts.  When a timer fires, its
  task is stored under a new event id and the event is handed to the scheduler, or dealt with at once when
  there is none; dealing with an event takes the task out and runs it inside a new server context.  The
  tasks, the scheduler, the watch function and the coroutines are parameters.
\<close>

section \<open>State\<close>

record event_info =
  ei_event_id :: "64 word"
  ei_gid :: "64 word"
  ei_timer_id :: "64 word"
  ei_interval_time :: "32 word"

definition sizeof_EventInfo :: "32 word" where
  "sizeof_EventInfo = 32"

text \<open>What the closure of a timer captures.\<close>

record 'tk td_closure =
  tt_gid :: "64 word"
  tt_callback :: 'tk
  tt_expire_time :: "64 word"
  tt_interval_time :: "32 word"

record ('cb, 'rc, 'tk) td_world = "('cb, 'rc) world" +
  td_use_coroutine :: bool
  td_special_transport_type :: "32 word"
  td_scheduler :: bool
  td_event :: "(64 word \<times> 'tk) list"
  td_timers :: "'tk td_closure tq"

text \<open>The environment: the user's tasks, the scheduler, the watch function when it is set, the coroutines.\<close>

record ('cb, 'rc, 'tk, 'w) td_env = "('cb, 'rc, 'w) env" +
  te_task :: "'tk \<Rightarrow> 'w \<Rightarrow> (32 word \<times> 'w) option"
  te_OnRequest :: "64 word \<Rightarrow> 64 word \<Rightarrow> event_info \<Rightarrow> 32 word \<Rightarrow> 32 word \<Rightarrow> 'w \<Rightarrow> 'w option"
  te_OnResponse :: "64 word \<Rightarrow> 'w \<Rightarrow> 'w option"
  te_watch :: "(nat \<Rightarrow> 64 word \<Rightarrow> 'w \<Rightarrow> 'w option) option"
  te_Spawn :: "('w \<Rightarrow> 'w option) \<Rightarrow> 'w \<Rightarrow> (bool \<times> 'w) option"

type_synonym ('cb, 'rc, 'tk, 'z) tdw = "('cb, 'rc, 'tk, 'z) td_world_scheme"
type_synonym ('cb, 'rc, 'tk, 'z, 'y) tde = "('cb, 'rc, 'tk, ('cb, 'rc, 'tk, 'z) td_world_scheme, 'y) td_env_scheme"

section \<open>Operations\<close>

definition td_Init :: "bool \<Rightarrow> ('cb, 'rc, 'tk, 'z) tdw \<Rightarrow> ('cb, 'rc, 'tk, 'z) tdw" where
  "td_Init use_coroutine w = w\<lparr>td_use_coroutine := use_coroutine\<rparr>"

definition td_SetReqScheduler :: "bool \<Rightarrow> 32 word \<Rightarrow> ('cb, 'rc, 'tk, 'z) tdw \<Rightarrow> ('cb, 'rc, 'tk, 'z) tdw" where
  "td_SetReqScheduler scheduler typ w = w\<lparr>td_scheduler := scheduler, td_special_transport_type := typ\<rparr>"

definition td_AddEvent :: "64 word \<Rightarrow> 'tk \<Rightarrow> 64 word \<Rightarrow> 32 word \<Rightarrow> ('cb, 'rc, 'tk, 'z) tdw
    \<Rightarrow> 64 word \<times> ('cb, 'rc, 'tk, 'z) tdw" where
  "td_AddEvent gid callback expire_time interval_time w =
     (case tq_Add \<lparr>tt_gid = gid, tt_callback = callback, tt_expire_time = expire_time, tt_interval_time = interval_time\<rparr>
             expire_time interval_time (td_timers w) of
        (i, q) \<Rightarrow> (i, w\<lparr>td_timers := q\<rparr>))"

definition td_DelEvent :: "64 word \<Rightarrow> ('cb, 'rc, 'tk, 'z) tdw \<Rightarrow> bool \<times> ('cb, 'rc, 'tk, 'z) tdw" where
  "td_DelEvent timer_id w = (case tq_Cancel timer_id (td_timers w) of (b, q) \<Rightarrow> (b, w\<lparr>td_timers := q\<rparr>))"

text \<open>\<^verbatim>\<open>context\<close> is finished: the scheduler and the watch function are told.\<close>

definition td_EventFinish :: "('cb, 'rc, 'tk, 'z, 'y) tde \<Rightarrow> nat \<Rightarrow> 64 word \<Rightarrow> ('cb, 'rc, 'tk, 'z) tdw
    \<Rightarrow> ('cb, 'rc, 'tk, 'z) tdw option" where
  "td_EventFinish e p gid w = do {
     w \<leftarrow> (if td_scheduler w then te_OnResponse e gid w else Some w);
     w \<leftarrow> (case te_watch e of None \<Rightarrow> Some w | Some watch \<Rightarrow> watch p gid w);
     c \<leftarrow> w_sctx w p;
     Some (w\<lparr>w_sctx := (w_sctx w)(p \<mapsto> c\<lparr>sx_end_time := clk_CurrentMilliSec (w_clock w)\<rparr>), w_curr := None\<rparr>) }"

definition td_Run :: "('cb, 'rc, 'tk, 'z, 'y) tde \<Rightarrow> nat \<Rightarrow> 'tk \<Rightarrow> ('cb, 'rc, 'tk, 'z) tdw
    \<Rightarrow> ('cb, 'rc, 'tk, 'z) tdw option" where
  "td_Run e p task w = do {
     w \<leftarrow> Some (w\<lparr>w_curr := Some p\<rparr>);
     (ret, w) \<leftarrow> te_task e task w;
     c \<leftarrow> w_sctx w p;
     c \<leftarrow> Some (c\<lparr>sx_ret_code := ret\<rparr>);
     w \<leftarrow> Some (w\<lparr>w_sctx := (w_sctx w)(p \<mapsto> c)\<rparr>);
     if sx_IsFinish c then sx_Run (env.truncate e) p w else Some w }"

text \<open>\<^verbatim>\<open>data\<close> points to the event, or is null.\<close>

definition td_DealEvent :: "('cb, 'rc, 'tk, 'z, 'y) tde \<Rightarrow> event_info option \<Rightarrow> 32 word \<Rightarrow> ('cb, 'rc, 'tk, 'z) tdw
    \<Rightarrow> (bool \<times> ('cb, 'rc, 'tk, 'z) tdw) option" where
  "td_DealEvent e data len w =
     (case data of
        None \<Rightarrow> Some (False, w)
      | Some info \<Rightarrow>
          if len \<noteq> sizeof_EventInfo then Some (False, w)
          else case map_of (td_event w) (ei_event_id info) of
            None \<Rightarrow> Some (False, w)
          | Some task \<Rightarrow>
              let del = AList.delete (ei_event_id info) (td_event w)
              in if ei_interval_time info > 0 \<and> \<not> tq_Exist (ei_timer_id info) (td_timers w)
                 then Some (False, w\<lparr>td_event := del\<rparr>)
                 else do {
                   w \<leftarrow> Some (w\<lparr>td_event := del\<rparr>);
                   (p, w) \<leftarrow> Some (w_new_sctx w);
                   c \<leftarrow> w_sctx w p;
                   c \<leftarrow> Some (sx_SetCallback (EventFinish (ei_gid info)) True c);
                   w \<leftarrow> Some (w\<lparr>w_sctx := (w_sctx w)(p \<mapsto> c\<lparr>sx_start_time := clk_CurrentMilliSec (w_clock w),
                            sx_gid := ei_gid info\<rparr>)\<rparr>);
                   if td_use_coroutine w then do {
                     (ok, w) \<leftarrow> te_Spawn e (td_Run e p task) w;
                     Some (if ok then (True, w) else (False, w\<lparr>w_sctx := (w_sctx w)(p := None)\<rparr>)) }
                   else do {
                     w \<leftarrow> td_Run e p task w;
                     Some (True, w) } })"

text \<open>The closure of a timer.\<close>

definition td_on_timer :: "('cb, 'rc, 'tk, 'z, 'y) tde \<Rightarrow> 'tk td_closure \<Rightarrow> 64 word \<Rightarrow> 32 word
    \<Rightarrow> ('cb, 'rc, 'tk, 'z) tdw \<Rightarrow> ('cb, 'rc, 'tk, 'z) tdw option" where
  "td_on_timer e cl timer_id interval w =
     (let (seq_id, g) = ig_GenerateSeqID (w_idgen w);
          w = w\<lparr>w_idgen := g\<rparr>;
          w = (if map_of (td_event w) seq_id = None
               then w\<lparr>td_event := (seq_id, tt_callback cl) # td_event w\<rparr> else w);
          info = \<lparr>ei_event_id = seq_id, ei_gid = tt_gid cl, ei_timer_id = timer_id, ei_interval_time = interval\<rparr>
      in if td_scheduler w
         then te_OnRequest e seq_id (tt_gid cl) info sizeof_EventInfo (td_special_transport_type w) w
         else do { (_, w) \<leftarrow> td_DealEvent e (Some info) sizeof_EventInfo w; Some w })"

definition td_ProcTimeOut :: "('cb, 'rc, 'tk, 'z, 'y) tde \<Rightarrow> 64 word \<Rightarrow> ('cb, 'rc, 'tk, 'z) tdw
    \<Rightarrow> (32 word \<times> ('cb, 'rc, 'tk, 'z) tdw) option" where
  "td_ProcTimeOut e now w = tq_TimeOut td_timers (\<lambda>q w. w\<lparr>td_timers := q\<rparr>) (td_on_timer e) now w"

section \<open>Properties\<close>

text \<open>The context a delivered event runs in, and the state its task starts in.\<close>

definition td_ctx :: "event_info \<Rightarrow> ('cb, 'rc, 'tk, 'z) tdw \<Rightarrow> sctx" where
  "td_ctx info w = (sx_new (w_auto_counter w))\<lparr>sx_callback := Some (EventFinish (ei_gid info)), sx_recycle := True,
     sx_start_time := clk_CurrentMilliSec (w_clock w), sx_gid := ei_gid info\<rparr>"

definition td_start :: "event_info \<Rightarrow> ('cb, 'rc, 'tk, 'z) tdw \<Rightarrow> ('cb, 'rc, 'tk, 'z) tdw" where
  "td_start info w = w\<lparr>td_event := AList.delete (ei_event_id info) (td_event w),
     w_auto_counter := w_auto_counter w + 1, w_next := w_next w + 1,
     w_sctx := (w_sctx w)(w_next w \<mapsto> td_ctx info w), w_curr := Some (w_next w)\<rparr>"

lemma td_DealEvent_runs:
  assumes "map_of (td_event w) (ei_event_id info) = Some task" "\<not> td_use_coroutine w"
    "ei_interval_time info = 0 \<or> tq_Exist (ei_timer_id info) (td_timers w)"
  shows "td_DealEvent e (Some info) sizeof_EventInfo w = do {
     (ret, w2) \<leftarrow> te_task e task (td_start info w);
     c \<leftarrow> w_sctx w2 (w_next w);
     c \<leftarrow> Some (c\<lparr>sx_ret_code := ret\<rparr>);
     w2 \<leftarrow> Some (w2\<lparr>w_sctx := (w_sctx w2)(w_next w \<mapsto> c)\<rparr>);
     w2 \<leftarrow> (if sx_IsFinish c then sx_Run (env.truncate e) (w_next w) w2 else Some w2);
     Some (True, w2) }"
  using assms by (auto simp: td_DealEvent_def Let_def w_new_sctx_def sx_SetCallback_def td_Run_def td_start_def
      td_ctx_def split_def)


definition td_demo_world :: "(nat, nat, nat) td_world" where
  "td_demo_world = \<lparr>w_clock = \<lparr>clk_micro_sec = 1000000\<rparr>, w_idgen = \<lparr>ig_base = 7\<rparr>, w_stats = ss_new,
     w_auto_counter = 1, w_curr = None, w_sctx = (\<lambda>_. None), w_cctx = (\<lambda>_. None), w_next = 3,
     cc_timers = tq_new, cc_cache = [], cc_init = True, cc_use_coroutine = False,
     td_use_coroutine = False, td_special_transport_type = 32, td_scheduler = False, td_event = [(7, 5)],
     td_timers = tq_new\<rparr>"

text \<open>Here the finish handler is the code's; a record of functions that refers to itself is built in two steps.\<close>

definition td_demo_env0 :: "(nat, nat, nat, (nat, nat, nat) td_world) td_env" where
  "td_demo_env0 = \<lparr>e_callback = (\<lambda>_ _ _ w. Some w), e_recycle = (\<lambda>_ w. Some w), e_resume = (\<lambda>_ w. Some w),
     e_finish = (\<lambda>_ _ w. Some w), te_task = (\<lambda>k w. Some (0, w)), te_OnRequest = (\<lambda>_ _ _ _ _ w. Some w),
     te_OnResponse = (\<lambda>_ w. Some w), te_watch = None, te_Spawn = (\<lambda>f w. map_option (Pair True) (f w))\<rparr>"

definition td_demo_env :: "(nat, nat, nat, (nat, nat, nat) td_world) td_env" where
  "td_demo_env = td_demo_env0\<lparr>e_finish := (\<lambda>cb p. td_EventFinish td_demo_env0 p (case cb of EventFinish g \<Rightarrow> g | MethodFinish \<Rightarrow> 0))\<rparr>"

end
