(* ===== verification/Transport.thy ===== *)
theory Transport
  imports Statistics "HOL-Library.Monad_Syntax"
begin

text \<open>
  \<^verbatim>\<open>src/core/transport.{h,cpp}\<close>, \<^verbatim>\<open>src/pb/pkg_flag_type.h\<close> and
  \<^verbatim>\<open>src/pb/intercepter.h\<close>: sending through a channel, with or without routing, the flags of a
  package, and the six queues of interceptors.

  The channel, the codec and the routing are abstract classes the user implements: their methods are
  functions of an environment on the state \<open>'w\<close> of the program, with pointers as numbers.
\<close>

section \<open>The flags of a package\<close>

definition FLAG_RSP_PKG :: "16 word" where "FLAG_RSP_PKG = 0x0001"
definition FLAG_DONT_RSP :: "16 word" where "FLAG_DONT_RSP = 0x0002"
definition FLAG_FROM_TCONND :: "16 word" where "FLAG_FROM_TCONND = 0x0004"
definition FLAG_IS_BROADCAST :: "16 word" where "FLAG_IS_BROADCAST = 0x0008"

lemmas pkg_flags = FLAG_RSP_PKG_def FLAG_DONT_RSP_def FLAG_FROM_TCONND_def FLAG_IS_BROADCAST_def

text \<open>\<^verbatim>\<open>flag & FLAG\<close>, with the 16-bit constant promoted to 32 bits.\<close>

definition has_flag :: "32 word \<Rightarrow> 16 word \<Rightarrow> bool" where
  "has_flag flag f \<longleftrightarrow> and flag (ucast f) \<noteq> 0"

section \<open>The interfaces\<close>

text \<open>What the getters of a codec return.\<close>

record codec_head =
  ch_cmd :: "32 word"
  ch_svr_type :: "32 word"
  ch_gid :: "64 word"
  ch_seq_id :: "64 word"
  ch_src :: "32 word"
  ch_dst :: "32 word"
  ch_timeout :: "64 word"
  ch_ret_code :: "32 word"
  ch_version :: "32 word"
  ch_flag :: "32 word"
  ch_body_len :: "32 word"

datatype codec_set = Reset | SetSvrType "32 word" | SetVersion "32 word" | SetSrc "32 word" | SetDst "32 word" | SetTimeout "64 word" | SetGid "64 word"
  | SetSeqID "64 word" | SetCmd "32 word" | SetRetCode "32 word" | SetFlag "32 word" | SetBodyLen "32 word"

type_synonym bytes = "8 word list"

record 'w io_env =
  io_head :: "nat \<Rightarrow> 'w \<Rightarrow> codec_head"
  io_put :: "nat \<Rightarrow> codec_set \<Rightarrow> 'w \<Rightarrow> 'w"
  io_Decode :: "nat \<Rightarrow> bytes \<Rightarrow> 32 word \<Rightarrow> 'w \<Rightarrow> bool \<times> 'w"
  io_Encode :: "nat \<Rightarrow> 'w \<Rightarrow> bool \<times> 'w"
  io_GetBodyBuf :: "nat \<Rightarrow> 'w \<Rightarrow> 32 word \<times> 'w"
  io_write :: "nat \<Rightarrow> bytes \<Rightarrow> 'w \<Rightarrow> 'w"
  io_GetRawData :: "nat \<Rightarrow> 'w \<Rightarrow> bytes option"
  io_MyID :: "nat \<Rightarrow> 'w \<Rightarrow> 32 word"
  io_Send :: "nat \<Rightarrow> 32 word \<Rightarrow> bytes \<Rightarrow> 'w \<Rightarrow> 32 word \<times> 'w"
  io_GetSendDest :: "nat \<Rightarrow> 32 word \<Rightarrow> 64 word \<Rightarrow> 32 word \<Rightarrow> 32 word \<Rightarrow> 'w \<Rightarrow> 32 word"
  io_GetAllSendDest :: "nat \<Rightarrow> 32 word \<Rightarrow> 32 word \<Rightarrow> 32 word \<Rightarrow> 'w \<Rightarrow> 32 word list"

section \<open>Sending\<close>

record transport_info =
  tp_channel :: "nat option"
  tp_recv_codec :: "nat option"
  tp_send_codec :: "nat option"
  tp_routing :: "nat option"

definition tp_none :: transport_info where
  "tp_none = \<lparr>tp_channel = None, tp_recv_codec = None, tp_send_codec = None, tp_routing = None\<rparr>"

definition tp_send :: "'w io_env \<Rightarrow> nat \<Rightarrow> nat \<Rightarrow> 32 word \<Rightarrow> 'w \<Rightarrow> 32 word \<times> 'w" where
  "tp_send io ch codec dst w =
     (case io_GetRawData io codec w of
        None \<Rightarrow> (RPC_SYS_ERR, w)
      | Some send_data \<Rightarrow>
          (case io_Send io ch dst send_data w of
             (ret, w) \<Rightarrow> (if ret \<noteq> 0 then RPC_CHANNEL_SEND_ERR else RPC_SUCCESS, w)))"

definition tp_Send_codec :: "'w io_env \<Rightarrow> transport_info \<Rightarrow> nat \<Rightarrow> 32 word \<Rightarrow> 'w \<Rightarrow> (32 word \<times> 'w) option" where
  "tp_Send_codec io info codec dst w = do {
     ch \<leftarrow> tp_channel info;
     Some (case tp_routing info of
         None \<Rightarrow> tp_send io ch codec dst w
       | Some r \<Rightarrow>
           let h = io_head io codec w;
               dst = io_GetSendDest io r (ch_svr_type h) (ch_gid h) dst (ch_version h) w
           in if dst = 0 then (RPC_ROUTER_FIND_DST_ERR, w) else tp_send io ch codec dst w) }"

definition tp_Send :: "'w io_env \<Rightarrow> transport_info \<Rightarrow> 'w \<Rightarrow> (32 word \<times> 'w) option" where
  "tp_Send io info w = do {
     codec \<leftarrow> tp_send_codec info;
     tp_Send_codec io info codec (ch_dst (io_head io codec w)) w }"

definition tp_Send_to :: "'w io_env \<Rightarrow> transport_info \<Rightarrow> 32 word \<Rightarrow> 'w \<Rightarrow> (32 word \<times> 'w) option" where
  "tp_Send_to io info dst w = do { codec \<leftarrow> tp_send_codec info; tp_Send_codec io info codec dst w }"

text \<open>A broadcast ignores what the channel returns.\<close>

fun tp_send_all :: "'w io_env \<Rightarrow> nat \<Rightarrow> bytes \<Rightarrow> 32 word list \<Rightarrow> 'w \<Rightarrow> 'w" where
  "tp_send_all io ch send_data [] w = w"
| "tp_send_all io ch send_data (dest_id # ds) w = tp_send_all io ch send_data ds (snd (io_Send io ch dest_id send_data w))"

definition tp_Broadcast_codec :: "'w io_env \<Rightarrow> transport_info \<Rightarrow> nat \<Rightarrow> 32 word \<Rightarrow> 'w \<Rightarrow> (32 word \<times> 'w) option" where
  "tp_Broadcast_codec io info codec dst w = do {
     ch \<leftarrow> tp_channel info;
     Some (case tp_routing info of
         None \<Rightarrow> (RPC_ROUTER_FIND_DST_ERR, w)
       | Some r \<Rightarrow>
           let all_inst = io_GetAllSendDest io r (ch_svr_type (io_head io codec w)) dst 0 w
           in if all_inst = [] then (RPC_ROUTER_FIND_DST_ERR, w)
              else case io_GetRawData io codec w of
                None \<Rightarrow> (RPC_SYS_ERR, w)
              | Some send_data \<Rightarrow> (RPC_SUCCESS, tp_send_all io ch send_data all_inst w)) }"

definition tp_Broadcast :: "'w io_env \<Rightarrow> transport_info \<Rightarrow> 'w \<Rightarrow> (32 word \<times> 'w) option" where
  "tp_Broadcast io info w = do {
     codec \<leftarrow> tp_send_codec info;
     tp_Broadcast_codec io info codec (ch_dst (io_head io codec w)) w }"

definition tp_Broadcast_to :: "'w io_env \<Rightarrow> transport_info \<Rightarrow> 32 word \<Rightarrow> 'w \<Rightarrow> (32 word \<times> 'w) option" where
  "tp_Broadcast_to io info dst w = do { codec \<leftarrow> tp_send_codec info; tp_Broadcast_codec io info codec dst w }"

text \<open>With a channel and a send codec, sending returns, with one of four codes.\<close>

lemma tp_Send_returns:
  assumes "tp_channel info = Some ch" "tp_send_codec info = Some codec"
  shows "\<exists>ret w'. tp_Send io info w = Some (ret, w')
    \<and> ret \<in> {RPC_SUCCESS, RPC_SYS_ERR, RPC_CHANNEL_SEND_ERR, RPC_ROUTER_FIND_DST_ERR}"
  using assms by (auto simp: tp_Send_def tp_Send_codec_def tp_send_def Let_def split: option.splits prod.splits)

lemma tp_Broadcast_returns:
  assumes "tp_channel info = Some ch" "tp_send_codec info = Some codec"
  shows "\<exists>ret w'. tp_Broadcast io info w = Some (ret, w')
    \<and> ret \<in> {RPC_SUCCESS, RPC_SYS_ERR, RPC_ROUTER_FIND_DST_ERR}"
  using assms by (auto simp: tp_Broadcast_def tp_Broadcast_codec_def Let_def split: option.splits)

section \<open>Interceptors\<close>

text \<open>
  The queues hold the user's functions, named by numbers.  Functions on the way in run in the order they
  were added, those on the way out in the reverse order.
\<close>

record intercepters =
  iq_recv :: "nat list"
  iq_req :: "nat list"
  iq_rsp :: "nat list"
  iq_send :: "nat list"
  iq_call :: "nat list"
  iq_reply :: "nat list"

definition AddRecvIntercepter :: "nat \<Rightarrow> intercepters \<Rightarrow> intercepters" where
  "AddRecvIntercepter f q = q\<lparr>iq_recv := iq_recv q @ [f]\<rparr>"

definition AddReqIntercepter :: "nat \<Rightarrow> intercepters \<Rightarrow> intercepters" where
  "AddReqIntercepter f q = q\<lparr>iq_req := iq_req q @ [f]\<rparr>"

definition AddRspIntercepter :: "nat \<Rightarrow> intercepters \<Rightarrow> intercepters" where
  "AddRspIntercepter f q = q\<lparr>iq_rsp := f # iq_rsp q\<rparr>"

definition AddSendIntercepter :: "nat \<Rightarrow> intercepters \<Rightarrow> intercepters" where
  "AddSendIntercepter f q = q\<lparr>iq_send := f # iq_send q\<rparr>"

definition AddCallIntercepter :: "nat \<Rightarrow> intercepters \<Rightarrow> intercepters" where
  "AddCallIntercepter f q = q\<lparr>iq_call := iq_call q @ [f]\<rparr>"

definition AddReplyIntercepter :: "nat \<Rightarrow> intercepters \<Rightarrow> intercepters" where
  "AddReplyIntercepter f q = q\<lparr>iq_reply := f # iq_reply q\<rparr>"

text \<open>The loop over a queue runs every function, also after one has intercepted.\<close>

fun intercept :: "(nat \<Rightarrow> 'w \<Rightarrow> (bool \<times> 'w) option) \<Rightarrow> nat list \<Rightarrow> bool \<Rightarrow> 'w \<Rightarrow> (bool \<times> 'w) option" where
  "intercept run [] be_intercept w = Some (be_intercept, w)"
| "intercept run (f # fs) be_intercept w = do {
     (b, w) \<leftarrow> run f w;
     intercept run fs (be_intercept \<or> b) w }"

lemma intercept_append:
  "intercept run (fs @ gs) b w = do { (b, w) \<leftarrow> intercept run fs b w; intercept run gs b w }"
  by (induction fs arbitrary: b w) (auto split: Option.bind_splits)

end
