(* ===== verification/PBService.thy ===== *)
theory PBService
  imports TimeoutDeco Transport
begin

text \<open>
  \<^verbatim>\<open>src/pb/pb_service.{h,cpp}\<close>, \<^verbatim>\<open>src/pb/rpc_methods_info.h\<close>: the RPC engine.  It
  receives packages, runs the registered methods in server contexts, sends requests and hands answers to
  the requests that wait for them.

  The user's functions, the protobuf messages and services, the transports, the scheduler and the
  coroutines are an environment, in which closures and objects of the user are numbers.  A use of a null
  pointer, of a deleted context, an index out of range or a write past a buffer is \<^term>\<open>None\<close>.
\<close>

section \<open>State\<close>

record rpc_method =
  rm_service :: "nat option"
  rm_method :: "nat option"
  rm_request :: "nat option"
  rm_response :: "nat option"
  rm_is_private :: bool

record rpc_options =
  ro_dest :: "32 word"
  ro_broadcast :: bool
  ro_timeout :: "32 word"

record check_head =
  hd_gid :: "64 word"
  hd_seq_id :: "64 word"
  hd_cmd_id :: "32 word"

definition head_zero :: check_head where
  "head_zero = \<lparr>hd_gid = 0, hd_seq_id = 0, hd_cmd_id = 0\<rparr>"

definition MAX_TRANSPORT_NUM :: "32 word" where
  "MAX_TRANSPORT_NUM = 10"

text \<open>The closures \<^verbatim>\<open>Rpc\<close> hands to the controller, with what they capture.\<close>

datatype pb_callback = RpcReply "64 word" "nat option" nat "nat option"

datatype pb_recycle = RpcRecycle "nat option" nat

text \<open>
  \<open>pb_shm_pkg_head\<close> is what the mapped file holds, when it is mapped; \<open>pb_channel_cb\<close> says for which transport
  type a channel's callback was set.
\<close>

record pb_world = "(pb_callback, pb_recycle, nat) td_world" +
  pb_intercepters :: intercepters
  pb_methods :: "(32 word \<times> rpc_method) list"
  pb_context_ctrl :: bool
  pb_transport_infos :: "transport_info list"
  pb_channel_cb :: "nat \<Rightarrow> 32 word option"
  pb_scheduler :: bool
  pb_shm_pkg_head :: "check_head option"

type_synonym 'z pbw = "'z pb_world_scheme"

record 'w pb_env = "(pb_callback, pb_recycle, nat, 'w) td_env" +
  pe_io :: "'w io_env"
  pe_real_ms :: "'w \<Rightarrow> 64 word \<times> 'w"
  pe_mmap :: "32 word \<Rightarrow> 'w \<Rightarrow> (check_head \<times> bool) option"
  pe_RecvInt :: "nat \<Rightarrow> transport_info \<Rightarrow> 32 word \<Rightarrow> 'w \<Rightarrow> (bool \<times> 'w) option"
  pe_ReqInt :: "nat \<Rightarrow> nat \<Rightarrow> (transport_info \<Rightarrow> nat \<Rightarrow> 'w \<Rightarrow> 'w option) \<Rightarrow> 'w \<Rightarrow> (bool \<times> 'w) option"
  pe_RspInt :: "nat \<Rightarrow> nat \<Rightarrow> 'w \<Rightarrow> (bool \<times> 'w) option"
  pe_SendInt :: "nat \<Rightarrow> nat \<Rightarrow> 'w \<Rightarrow> (bool \<times> 'w) option"
  pe_CallInt :: "nat \<Rightarrow> nat \<Rightarrow> nat \<Rightarrow> nat option \<Rightarrow> 'w \<Rightarrow> (bool \<times> 'w) option"
  pe_ReplyInt :: "nat \<Rightarrow> 32 word \<Rightarrow> 64 word \<Rightarrow> nat option \<Rightarrow> nat \<Rightarrow> 'w \<Rightarrow> 'w option"
  pe_CallMethod :: "nat \<Rightarrow> nat option \<Rightarrow> nat \<Rightarrow> 'w \<Rightarrow> 'w option"
  pe_OnRequest :: "64 word \<Rightarrow> 64 word \<Rightarrow> bytes \<Rightarrow> 32 word \<Rightarrow> 64 word \<Rightarrow> 'w \<Rightarrow> (bool \<times> 'w) option"
  pe_running_coro :: "'w \<Rightarrow> 64 word"
  pe_this_coro :: "'w \<Rightarrow> nat option"
  pe_ByteSize :: "nat \<Rightarrow> 'w \<Rightarrow> 64 word"
  pe_Serialize :: "nat \<Rightarrow> 'w \<Rightarrow> bytes option"
  pe_callback :: "nat \<Rightarrow> 32 word \<Rightarrow> nat option \<Rightarrow> 'w \<Rightarrow> 'w option"
  pe_recycle :: "nat \<Rightarrow> 'w \<Rightarrow> 'w option"
  pe_block :: "nat \<Rightarrow> 'w \<Rightarrow> 'w option"

type_synonym ('z, 'y) pbe = "('z pb_world_scheme, 'y) pb_env_scheme"

text \<open>Changing the statistics.\<close>

definition w_count :: "(server_stats \<Rightarrow> server_stats) \<Rightarrow> ('cb, 'rc, 'z) world_scheme \<Rightarrow> ('cb, 'rc, 'z) world_scheme" where
  "w_count f w = w\<lparr>w_stats := f (w_stats w)\<rparr>"

definition w_GenerateSeqID :: "('cb, 'rc, 'z) world_scheme \<Rightarrow> 64 word \<times> ('cb, 'rc, 'z) world_scheme" where
  "w_GenerateSeqID w = (case ig_GenerateSeqID (w_idgen w) of (i, g) \<Rightarrow> (i, w\<lparr>w_idgen := g\<rparr>))"

section \<open>Registration\<close>

definition pb_SetContextCtrl :: "bool \<Rightarrow> 'z pbw \<Rightarrow> 'z pbw" where
  "pb_SetContextCtrl ctrl w = w\<lparr>pb_context_ctrl := ctrl\<rparr>"

definition pb_RegisterMethod :: "32 word \<Rightarrow> rpc_method \<Rightarrow> 'z pbw \<Rightarrow> bool \<times> 'z pbw" where
  "pb_RegisterMethod cmd method_info w =
     (if map_of (pb_methods w) cmd = None then (True, w\<lparr>pb_methods := (cmd, method_info) # pb_methods w\<rparr>)
      else (False, w))"

definition pb_RegisterPkgMem :: "('z, 'y) pbe \<Rightarrow> 32 word \<Rightarrow> 'z pbw \<Rightarrow> 'z pbw" where
  "pb_RegisterPkgMem e i w =
     (if i = 0 then w
      else case pe_mmap e i w of
          None \<Rightarrow> w
        | Some (mem, exist) \<Rightarrow> w\<lparr>pb_shm_pkg_head := Some (if exist then mem else head_zero)\<rparr>)"

definition pb_Init :: "('z, 'y) pbe \<Rightarrow> 32 word \<Rightarrow> 'z pbw \<Rightarrow> bool \<times> 'z pbw" where
  "pb_Init e pkg_mem_check_key w = (True, pb_RegisterPkgMem e pkg_mem_check_key w)"

definition pb_head_of :: "codec_head \<Rightarrow> check_head" where
  "pb_head_of h = \<lparr>hd_gid = ch_gid h, hd_seq_id = ch_seq_id h, hd_cmd_id = ch_cmd h\<rparr>"

definition pb_CheckPkgMem :: "codec_head \<Rightarrow> 'z pbw \<Rightarrow> bool \<times> 'z pbw" where
  "pb_CheckPkgMem h w =
     (case pb_shm_pkg_head w of
        None \<Rightarrow> (True, w)
      | Some m \<Rightarrow>
          if hd_gid m = ch_gid h \<and> hd_seq_id m = ch_seq_id h \<and> hd_cmd_id m = ch_cmd h then (False, w)
          else (True, w\<lparr>pb_shm_pkg_head := Some (pb_head_of h)\<rparr>))"

definition pb_ClearPkgMem :: "'z pbw \<Rightarrow> 'z pbw" where
  "pb_ClearPkgMem w = (if pb_shm_pkg_head w \<noteq> None then w\<lparr>pb_shm_pkg_head := Some head_zero\<rparr> else w)"

section \<open>Transports\<close>

text \<open>\<^verbatim>\<open>transport_infos_[i]\<close> of an index out of range is undefined.\<close>

definition pb_info :: "32 word \<Rightarrow> 'z pbw \<Rightarrow> transport_info option" where
  "pb_info i w = (if unat i < length (pb_transport_infos w) then Some (pb_transport_infos w ! unat i) else None)"

definition pb_AddTransport :: "32 word \<Rightarrow> transport_info \<Rightarrow> 'z pbw \<Rightarrow> (bool \<times> 'z pbw) option" where
  "pb_AddTransport transport_type info w =
     (if transport_type \<ge> MAX_TRANSPORT_NUM then Some (False, w)
      else case (tp_channel info, tp_recv_codec info, tp_send_codec info) of
          (Some ch, Some _, Some _) \<Rightarrow> do {
            old \<leftarrow> pb_info transport_type w;
            Some (if tp_channel old \<noteq> None then (False, w)
                  else (True, w\<lparr>pb_transport_infos := (pb_transport_infos w)[unat transport_type := info],
                          pb_channel_cb := (pb_channel_cb w)(ch \<mapsto> transport_type)\<rparr>)) }
        | _ \<Rightarrow> Some (False, w))"

definition pb_FindTransport :: "32 word \<Rightarrow> 'z pbw \<Rightarrow> transport_info option option" where
  "pb_FindTransport transport_type w =
     (if transport_type \<ge> MAX_TRANSPORT_NUM then Some None
      else do {
        info \<leftarrow> pb_info transport_type w;
        Some (if tp_channel info = None then None else Some info) })"

definition pb_SetReqScheduler :: "bool \<Rightarrow> 'z pbw \<Rightarrow> 'z pbw" where
  "pb_SetReqScheduler req_scheduler w = w\<lparr>pb_scheduler := req_scheduler\<rparr>"

section \<open>Interceptors\<close>

definition pb_InterceptRecv :: "('z, 'y) pbe \<Rightarrow> transport_info \<Rightarrow> 32 word \<Rightarrow> 'z pbw \<Rightarrow> (bool \<times> 'z pbw) option" where
  "pb_InterceptRecv e info recv_id w =
     intercept (\<lambda>f. pe_RecvInt e f info recv_id) (iq_recv (pb_intercepters w)) False w"

definition pb_InterceptRsp :: "('z, 'y) pbe \<Rightarrow> nat \<Rightarrow> 'z pbw \<Rightarrow> (bool \<times> 'z pbw) option" where
  "pb_InterceptRsp e p w = intercept (\<lambda>f. pe_RspInt e f p) (iq_rsp (pb_intercepters w)) False w"

definition pb_InterceptSend :: "('z, 'y) pbe \<Rightarrow> nat \<Rightarrow> 'z pbw \<Rightarrow> (bool \<times> 'z pbw) option" where
  "pb_InterceptSend e codec w = intercept (\<lambda>f. pe_SendInt e f codec) (iq_send (pb_intercepters w)) False w"

definition pb_InterceptCall :: "('z, 'y) pbe \<Rightarrow> nat \<Rightarrow> nat \<Rightarrow> nat option \<Rightarrow> 'z pbw \<Rightarrow> (bool \<times> 'z pbw) option" where
  "pb_InterceptCall e codec req rsp w =
     intercept (\<lambda>f. pe_CallInt e f codec req rsp) (iq_call (pb_intercepters w)) False w"

fun reply_loop :: "(nat \<Rightarrow> 'w \<Rightarrow> 'w option) \<Rightarrow> nat list \<Rightarrow> 'w \<Rightarrow> 'w option" where
  "reply_loop run [] w = Some w"
| "reply_loop run (f # fs) w = do { w \<leftarrow> run f w; reply_loop run fs w }"

definition pb_InterceptReply :: "('z, 'y) pbe \<Rightarrow> 32 word \<Rightarrow> 64 word \<Rightarrow> nat option \<Rightarrow> nat \<Rightarrow> 'z pbw \<Rightarrow> 'z pbw option" where
  "pb_InterceptReply e ret_code seq_id codec rsp w =
     reply_loop (\<lambda>f. pe_ReplyInt e f ret_code seq_id codec rsp) (iq_reply (pb_intercepters w)) w"

section \<open>Sending\<close>

definition pb_SendMessage :: "('z, 'y) pbe \<Rightarrow> transport_info \<Rightarrow> nat \<Rightarrow> 'z pbw \<Rightarrow> (32 word \<times> 'z pbw) option" where
  "pb_SendMessage e info msg w = do {
     codec \<leftarrow> tp_send_codec info;
     let io = pe_io e;
         len = ucast (pe_ByteSize e msg w) :: 32 word;
         h = io_head io codec w;
         cmd = ch_cmd h;
         w = w_count (if has_flag (ch_flag h) FLAG_RSP_PKG then SetRspSize cmd len else SetSendSize cmd len) w;
         (max_buf_len, w) = io_GetBodyBuf io codec w
     in if len \<ge> max_buf_len * 85 div 100 \<and> len \<ge> max_buf_len then Some (RPC_SEND_MSG_TOO_LONG, w)
        else case pe_Serialize e msg w of
          None \<Rightarrow> Some (RPC_MSG_SERIALIZE_ERR, w)
        | Some body \<Rightarrow> do {
            _ \<leftarrow> cassert (length body \<le> unat max_buf_len);
            w \<leftarrow> Some (io_write io codec body w);
            if of_nat (length body) \<noteq> len then Some (RPC_MSG_SERIALIZE_ERR, w)
            else do {
              w \<leftarrow> Some (io_put io codec (SetBodyLen len) w);
              (be_intercept, w) \<leftarrow> pb_InterceptSend e codec w;
              if be_intercept then Some (RPC_SUCCESS, w)
              else do {
                (ok, w) \<leftarrow> Some (io_Encode io codec w);
                if \<not> ok then Some (RPC_SYS_ERR, w)
                else do {
                  (ret, w) \<leftarrow> (if has_flag (ch_flag (io_head io codec w)) FLAG_IS_BROADCAST
                              then tp_Broadcast io info w else tp_Send io info w);
                  Some (if ret \<noteq> 0 then ret else RPC_SUCCESS, w) } } } } }"

text \<open>The sender the request interceptors are given drops the code.\<close>

definition pb_sender :: "('z, 'y) pbe \<Rightarrow> transport_info \<Rightarrow> nat \<Rightarrow> 'z pbw \<Rightarrow> 'z pbw option" where
  "pb_sender e info msg w = map_option snd (pb_SendMessage e info msg w)"

definition pb_InterceptReq :: "('z, 'y) pbe \<Rightarrow> nat \<Rightarrow> 'z pbw \<Rightarrow> (bool \<times> 'z pbw) option" where
  "pb_InterceptReq e p w =
     intercept (\<lambda>f. pe_ReqInt e f p (pb_sender e)) (iq_req (pb_intercepters w)) False w"

section \<open>The closures the service stores\<close>

text \<open>A request is finished: the head of its answer is made up, and its figures are counted.\<close>

definition pb_put_all :: "('z, 'y) pbe \<Rightarrow> nat \<Rightarrow> codec_set list \<Rightarrow> 'z pbw \<Rightarrow> 'z pbw" where
  "pb_put_all e codec sets w = fold (io_put (pe_io e) codec) sets w"

definition pb_MethodFinish :: "('z, 'y) pbe \<Rightarrow> nat \<Rightarrow> 'z pbw \<Rightarrow> 'z pbw option" where
  "pb_MethodFinish e p w = do {
     c \<leftarrow> w_sctx w p;
     _ \<leftarrow> cassert (sx_transport_index c < MAX_TRANSPORT_NUM);
     (be_intercept, w) \<leftarrow> pb_InterceptRsp e p w;
     c \<leftarrow> w_sctx w p;
     w \<leftarrow> (if \<not> sx_ignore c \<and> and (ph_pkg_flag (sx_head c)) FLAG_DONT_RSP = 0 \<and> \<not> be_intercept
          then do {
            info \<leftarrow> pb_info (sx_transport_index c) w;
            codec \<leftarrow> tp_send_codec info;
            ch \<leftarrow> tp_channel info;
            Some (pb_put_all e codec [Reset, SetSrc (io_MyID (pe_io e) ch (io_put (pe_io e) codec Reset w)),
              SetDst (ph_src (sx_head c)), SetTimeout 0, SetGid (ph_gid (sx_head c)), SetSeqID (ph_seq_id (sx_head c)),
              SetCmd (ph_cmd (sx_head c)), SetRetCode (sx_ret_code c),
              SetFlag (ucast (or (or (ph_pkg_flag (sx_head c)) FLAG_DONT_RSP) FLAG_RSP_PKG))] w) }
          else Some w);
     c \<leftarrow> w_sctx w p;
     c \<leftarrow> Some (c\<lparr>sx_end_time := clk_CurrentMilliSec (w_clock w)\<rparr>);
     w \<leftarrow> Some (w\<lparr>w_sctx := (w_sctx w)(p \<mapsto> c)\<rparr>);
     w \<leftarrow> Some (w_count (SetCoroRunTime (ph_cmd (sx_head c)) (sx_Duration c) (sx_ret_code c)) w);
     w \<leftarrow> (if pb_scheduler w then te_OnResponse e (ph_gid (sx_head c)) w else Some w);
     Some (w\<lparr>w_curr := None\<rparr>) }"

fun pb_finish :: "('z, 'y) pbe \<Rightarrow> sx_callback \<Rightarrow> nat \<Rightarrow> 'z pbw \<Rightarrow> 'z pbw option" where
  "pb_finish e MethodFinish p w = pb_MethodFinish e p w"
| "pb_finish e (EventFinish gid) p w = td_EventFinish e p gid w"

fun pb_reply :: "('z, 'y) pbe \<Rightarrow> pb_callback \<Rightarrow> 32 word \<Rightarrow> nat option \<Rightarrow> 'z pbw \<Rightarrow> 'z pbw option" where
  "pb_reply e (RpcReply seq_id recv_codec rsp cb) ret_code ctx w = do {
     w \<leftarrow> pb_InterceptReply e ret_code seq_id (if ret_code \<noteq> RPC_TIME_OUT then recv_codec else None) rsp w;
     (case cb of None \<Rightarrow> Some w | Some cb \<Rightarrow> pe_callback e cb ret_code ctx w) }"

fun pb_recycled :: "('z, 'y) pbe \<Rightarrow> pb_recycle \<Rightarrow> 'z pbw \<Rightarrow> 'z pbw option" where
  "pb_recycled e (RpcRecycle recycle p) w = do {
     w \<leftarrow> (case recycle of None \<Rightarrow> Some w | Some r \<Rightarrow> pe_recycle e r w);
     _ \<leftarrow> w_cctx w p;
     Some (w\<lparr>w_cctx := (w_cctx w)(p := None)\<rparr>) }"

text \<open>The environment in which the stored closures run: the code's handlers around the user's functions.\<close>

definition pb_link :: "('z, 'y) pbe \<Rightarrow> ('z, 'y) pbe" where
  "pb_link e = e\<lparr>e_callback := pb_reply e, e_recycle := pb_recycled e, e_finish := pb_finish e\<rparr>"

section \<open>Requests\<close>

definition pb_DealMethod :: "('z, 'y) pbe \<Rightarrow> nat \<Rightarrow> nat option \<Rightarrow> nat option \<Rightarrow> 'z pbw \<Rightarrow> 'z pbw option" where
  "pb_DealMethod e p service method_desc w = do {
     w \<leftarrow> Some (w\<lparr>w_curr := Some p\<rparr>);
     (be_intercept, w) \<leftarrow> pb_InterceptReq e p w;
     w \<leftarrow> (if be_intercept then do {
            c \<leftarrow> w_sctx w p;
            Some (w\<lparr>w_sctx := (w_sctx w)(p \<mapsto> c\<lparr>sx_ignore := True\<rparr>)\<rparr>) }
          else do {
            s \<leftarrow> service;
            pe_CallMethod e s method_desc p w });
     c \<leftarrow> w_sctx w p;
     if sx_IsFinish c then sx_Run (env.truncate (pb_link e)) p w else Some w }"

text \<open>The context of a request.\<close>

definition pb_context :: "32 word \<Rightarrow> codec_head \<Rightarrow> sctx \<Rightarrow> sctx" where
  "pb_context transport_type h c = c\<lparr>sx_transport_index := transport_type,
     sx_head := (sx_head c)\<lparr>ph_gid := ch_gid h, ph_seq_id := ch_seq_id h, ph_cmd := ch_cmd h, ph_src := ch_src h,
       ph_dst := ch_dst h, ph_pkg_flag := ucast (ch_flag h), ph_timeout := ch_timeout h\<rparr>,
     sx_gid := ch_gid h, sx_pkg_flag := ucast (ch_flag h)\<rparr>"

definition pb_DealRequest :: "('z, 'y) pbe \<Rightarrow> 32 word \<Rightarrow> nat \<Rightarrow> 'z pbw \<Rightarrow> (bool \<times> 'z pbw) option" where
  "pb_DealRequest e transport_type codec w =
     (let h = io_head (pe_io e) codec w; cmd = ch_cmd h
      in if ch_timeout h > 0 \<and> ch_timeout h < clk_CurrentMilliSec (w_clock w)
         then Some (False, w_count (AddCmdExpireDrop cmd) w)
         else case map_of (pb_methods w) cmd of
             None \<Rightarrow> Some (False, w)
           | Some rpc_method \<Rightarrow>
               if has_flag (ch_flag h) FLAG_FROM_TCONND \<and> rm_is_private rpc_method then Some (False, w)
               else do {
                 (p, w) \<leftarrow> Some (w_new_sctx w);
                 c \<leftarrow> w_sctx w p;
                 c \<leftarrow> Some (sx_SetCallback MethodFinish True (pb_context transport_type h c));
                 w \<leftarrow> Some (w\<lparr>w_sctx := (w_sctx w)(p \<mapsto> c\<lparr>sx_start_time := clk_CurrentMilliSec (w_clock w)\<rparr>)\<rparr>);
                 _ \<leftarrow> cassert (pb_context_ctrl w);
                 if cc_UseCoroutine w then do {
                   (ok, w) \<leftarrow> te_Spawn e (\<lambda>w. pb_DealMethod e p (rm_service rpc_method) (rm_method rpc_method)
                       (w_count (ss_map_statistics (save_max_coro_num_max (ucast (pe_running_coro e w)))) w)) w;
                   Some (if ok then (True, w) else (False, w\<lparr>w_sctx := (w_sctx w)(p := None)\<rparr>)) }
                 else do {
                   w \<leftarrow> pb_DealMethod e p (rm_service rpc_method) (rm_method rpc_method) w;
                   Some (True, w) } })"

definition pb_DealReqPkg :: "('z, 'y) pbe \<Rightarrow> bytes \<Rightarrow> 32 word \<Rightarrow> 32 word \<Rightarrow> 'z pbw \<Rightarrow> (bool \<times> 'z pbw) option" where
  "pb_DealReqPkg e data len transport_type w = do {
     info \<leftarrow> pb_info transport_type w;
     if tp_channel info = None then Some (False, w)
     else do {
       codec \<leftarrow> tp_recv_codec info;
       (ok, w) \<leftarrow> Some (io_Decode (pe_io e) codec data len w);
       if ok then pb_DealRequest e transport_type codec w else Some (False, w) } }"

section \<open>Answers\<close>

definition pb_DealResponse :: "('z, 'y) pbe \<Rightarrow> nat \<Rightarrow> 'z pbw \<Rightarrow> 'z pbw option" where
  "pb_DealResponse e codec w = do {
     let h = io_head (pe_io e) codec w;
     _ \<leftarrow> cassert (pb_context_ctrl w);
     (r, w) \<leftarrow> cc_Awake (ch_seq_id h) (ch_ret_code h) w;
     (case r of
        None \<Rightarrow> Some w
      | Some p \<Rightarrow> do {
          c \<leftarrow> w_cctx w p;
          w \<leftarrow> Some (if ch_cmd h \<noteq> cx_cmd c
               then w\<lparr>w_cctx := (w_cctx w)(p \<mapsto> c\<lparr>cx_ret_code := RPC_SYS_ERR\<rparr>)\<rparr> else w);
          cx_Run (env.truncate (pb_link e)) p w }) }"

section \<open>Receiving\<close>

text \<open>What is done with a package that is not skipped.\<close>

definition pb_Dispatch :: "('z, 'y) pbe \<Rightarrow> 32 word \<Rightarrow> nat \<Rightarrow> codec_head \<Rightarrow> bytes \<Rightarrow> 64 word \<Rightarrow> 32 word \<Rightarrow> 'z pbw
    \<Rightarrow> 'z pbw option" where
  "pb_Dispatch e transport_type codec h data data_len recv_id w =
     (let cmd = ch_cmd h; is_rsp = has_flag (ch_flag h) FLAG_RSP_PKG;
          w = (if \<not> is_rsp then w_count (SetReqSize cmd (ch_body_len h)) w else w)
      in do {
        info \<leftarrow> pb_info transport_type w;
        (be_intercept, w) \<leftarrow> pb_InterceptRecv e info recv_id w;
        if be_intercept then Some w
        else if is_rsp then pb_DealResponse e codec w
        else if pb_scheduler w then do {
          (seq, w) \<leftarrow> Some (w_GenerateSeqID w);
          (result, w) \<leftarrow> pe_OnRequest e seq (ch_gid h) data (ucast data_len) (ucast transport_type) w;
          Some (if result then w else w_count (AddCmdScheduleDrop cmd) w) }
        else map_option snd (pb_DealRequest e transport_type codec w) })"

definition pb_OnRecv :: "('z, 'y) pbe \<Rightarrow> 32 word \<Rightarrow> bytes \<Rightarrow> 64 word \<Rightarrow> 32 word \<Rightarrow> 64 word \<Rightarrow> 'z pbw
    \<Rightarrow> (32 word \<times> 'z pbw) option" where
  "pb_OnRecv e transport_type data data_len recv_id arrived_time w = do {
     info \<leftarrow> pb_info transport_type w;
     codec \<leftarrow> tp_recv_codec info;
     (ok, w) \<leftarrow> Some (io_Decode (pe_io e) codec data (ucast data_len) w);
     if \<not> ok then Some (RPC_SYS_ERR, w)
     else do {
       let h = io_head (pe_io e) codec w;
           (now, w) = pe_real_ms e w;
           w = (if now \<ge> arrived_time then w_count (SetQueueCost (ch_cmd h) (ucast (now - arrived_time))) w else w);
           (fresh, w) = pb_CheckPkgMem h w
       in if \<not> fresh then Some (RPC_SUCCESS, pb_ClearPkgMem w)
          else do {
            w \<leftarrow> pb_Dispatch e transport_type codec h data data_len recv_id w;
            Some (RPC_SUCCESS, pb_ClearPkgMem w) } } }"

section \<open>Calling a remote method\<close>

text \<open>
  How \<^verbatim>\<open>Rpc\<close> ends: with a code, or its coroutine was suspended; then it continues with
  \<open>pb_Rpc_resumed\<close>, given the client context when that is a local variable.
\<close>

datatype rpc_result = RpcDone "32 word" | RpcYielded nat "nat option" "nat option"

definition pb_delete_cctx :: "nat \<Rightarrow> ('cb, 'rc, 'z) world_scheme \<Rightarrow> ('cb, 'rc, 'z) world_scheme" where
  "pb_delete_cctx p w = w\<lparr>w_cctx := (w_cctx w)(p := None)\<rparr>"

definition pb_new_client :: "32 word \<Rightarrow> ('cb, 'rc, 'z) world_scheme \<Rightarrow> (nat \<times> ('cb, 'rc, 'z) world_scheme) option" where
  "pb_new_client cmd w = do {
     (p, w) \<leftarrow> Some (w_new_cctx w);
     c \<leftarrow> w_cctx w p;
     Some (p, w\<lparr>w_cctx := (w_cctx w)(p \<mapsto> c\<lparr>cx_cmd := cmd\<rparr>)\<rparr>) }"

text \<open>The part after the request was sent.\<close>

definition pb_wait :: "('z, 'y) pbe \<Rightarrow> transport_info \<Rightarrow> 32 word \<Rightarrow> 64 word \<Rightarrow> nat \<Rightarrow> (nat, nat, nat) async_task
    \<Rightarrow> rpc_options \<Rightarrow> 'z pbw \<Rightarrow> (rpc_result \<times> 'z pbw) option" where
  "pb_wait e info cmd seq_id rsp task opts w = do {
     _ \<leftarrow> cassert (pb_context_ctrl w);
     if \<not> cc_UseCoroutine w \<or> at_callback task \<noteq> None then do {
       (p, w) \<leftarrow> pb_new_client cmd w;
       (r, w) \<leftarrow> cc_Pending (pe_block e) (pe_this_coro e w) seq_id (ro_timeout opts) (Some p)
           \<lparr>at_callback = Some (RpcReply seq_id (tp_recv_codec info) rsp (at_callback task)),
            at_recycle_fun = Some (RpcRecycle (at_recycle_fun task) p),
            at_blocking_fun = at_blocking_fun task\<rparr> w;
       Some (case r of
           Returned ret \<Rightarrow> (RpcDone ret, if ret \<noteq> RPC_SUCCESS then pb_delete_cctx p w else w)
         | Yielded co sp \<Rightarrow> (RpcYielded co sp None, w)) }
     else do {
       (p, w) \<leftarrow> pb_new_client cmd w;
       (r, w) \<leftarrow> cc_Pending (pe_block e) (pe_this_coro e w) seq_id (ro_timeout opts) (Some p)
           \<lparr>at_callback = Some (RpcReply seq_id (tp_recv_codec info) rsp None),
            at_recycle_fun = None, at_blocking_fun = None\<rparr> w;
       (case r of
           Yielded co sp \<Rightarrow> Some (RpcYielded co sp (Some p), w)
         | Returned ret \<Rightarrow>
             if ret \<noteq> RPC_SUCCESS then Some (RpcDone ret, pb_delete_cctx p w)
             else do { c \<leftarrow> w_cctx w p; Some (RpcDone (cx_ret_code c), pb_delete_cctx p w) }) } }"

definition pb_Rpc_resumed :: "nat option \<Rightarrow> nat option \<Rightarrow> 'z pbw \<Rightarrow> (32 word \<times> 'z pbw) option" where
  "pb_Rpc_resumed server_ctx local_ctx w =
     (case cc_resumed server_ctx w of
        (ret, w) \<Rightarrow>
          (case local_ctx of
             None \<Rightarrow> Some (ret, w)
           | Some p \<Rightarrow> do {
               c \<leftarrow> w_cctx w p;
               Some (if ret \<noteq> RPC_SUCCESS then ret else cx_ret_code c, pb_delete_cctx p w) }))"

definition pb_Rpc :: "('z, 'y) pbe \<Rightarrow> 32 word \<Rightarrow> 64 word \<Rightarrow> 32 word \<Rightarrow> nat \<Rightarrow> nat option \<Rightarrow> (nat, nat, nat) async_task
    \<Rightarrow> rpc_options \<Rightarrow> 'z pbw \<Rightarrow> (rpc_result \<times> 'z pbw) option" where
  "pb_Rpc e transport_type gid cmd req rsp task opts w =
     (if ro_broadcast opts \<and> rsp \<noteq> None then Some (RpcDone RPC_SYS_ERR, w)
      else do {
        w \<leftarrow> Some (w_count (AddSendCmd cmd) w);
        _ \<leftarrow> cassert (transport_type < MAX_TRANSPORT_NUM);
        info \<leftarrow> pb_info transport_type w;
        ch \<leftarrow> tp_channel info;
        codec \<leftarrow> tp_send_codec info;
        w \<leftarrow> Some (io_put (pe_io e) codec Reset w);
        w \<leftarrow> Some (pb_put_all e codec [SetSrc (io_MyID (pe_io e) ch w), SetDst (ro_dest opts),
               SetTimeout (if ro_timeout opts > 0 then clk_CurrentMilliSec (w_clock w) + ucast (ro_timeout opts) else 0),
               SetGid gid, SetCmd cmd, SetRetCode RPC_SUCCESS] w);
        (seq_id, w) \<leftarrow> Some (if rsp = None then (0, w) else w_GenerateSeqID w);
        pkg_flag \<leftarrow> Some (or (if rsp = None then ucast FLAG_DONT_RSP else 0)
                          (if ro_broadcast opts then ucast FLAG_IS_BROADCAST else 0));
        w \<leftarrow> Some (pb_put_all e codec [SetFlag pkg_flag, SetSeqID seq_id] w);
        (be_intercept, w) \<leftarrow> pb_InterceptCall e codec req rsp w;
        if be_intercept then Some (RpcDone RPC_SUCCESS, w)
        else do {
          (ret, w) \<leftarrow> pb_SendMessage e info req w;
          if ret \<noteq> RPC_SUCCESS then Some (RpcDone ret, w)
          else case rsp of
              None \<Rightarrow> Some (RpcDone RPC_SUCCESS, w)
            | Some rsp \<Rightarrow> pb_wait e info cmd seq_id rsp task opts w } })"

text \<open>The signature with nine parameters.\<close>

definition pb_Rpc9 :: "('z, 'y) pbe \<Rightarrow> 32 word \<Rightarrow> 64 word \<Rightarrow> 32 word \<Rightarrow> nat \<Rightarrow> nat option \<Rightarrow> (nat, nat, nat) async_task
    \<Rightarrow> 32 word \<Rightarrow> bool \<Rightarrow> 32 word \<Rightarrow> 'z pbw \<Rightarrow> (rpc_result \<times> 'z pbw) option" where
  "pb_Rpc9 e transport_type gid cmd req rsp task dest broadcast timeout w =
     pb_Rpc e transport_type gid cmd req rsp task
       \<lparr>ro_dest = dest, ro_broadcast = broadcast, ro_timeout = timeout\<rparr> w"

section \<open>Sending keeps to the buffer\<close>

text \<open>The cheap test of the code lets no package through that fails the exact one, wrap-around included.\<close>

lemma fits_85: "max_len \<le> len \<Longrightarrow> max_len * 85 div 100 \<le> (len :: 32 word)"
proof -
  assume "max_len \<le> len"
  have "unat (max_len * 85) \<le> unat max_len * 85"
    using mod_less_eq_dividend [of "unat max_len * 85" "2 ^ 32"] by (simp add: unat_word_ariths)
  then have "unat (max_len * 85) div 100 \<le> unat max_len" by linarith
  then have "max_len * 85 div 100 \<le> max_len" by (simp add: word_le_nat_alt unat_div)
  with \<open>max_len \<le> len\<close> show ?thesis by order
qed

lemma intercept_returns:
  assumes "\<And>f w. \<exists>b w'. run f w = Some (b, w')"
  shows "\<exists>b' w'. intercept run fs b w = Some (b', w')"
proof (induction fs arbitrary: b w)
  case (Cons f fs)
  obtain b1 w1 where "run f w = Some (b1, w1)" using assms by blast
  with Cons show ?case by simp
qed simp

text \<open>C26. Sending a message never writes past the body buffer of the codec and always returns: a message as
  large as the buffer, or larger, is refused with its own code before anything is written, and every
  other message is written, offered to the interceptors, encoded and sent, with one of the codes of these
  steps.  The serializer writes what it announced, less than 4 GiB; the interceptors return.\<close>

theorem pb_send_fits:
  assumes "tp_channel info = Some ch" "tp_send_codec info = Some codec"
    "\<And>w' body. pe_Serialize e msg w' = Some body \<Longrightarrow> length body = unat (pe_ByteSize e msg w)"
    "unat (pe_ByteSize e msg w) < 2 ^ 32"
    "\<And>f w. \<exists>b w'. pe_SendInt e f codec w = Some (b, w')"
    "\<And>w. fst (io_GetBodyBuf (pe_io e) codec w) = max_len"
  shows "\<exists>ret w'. pb_SendMessage e info msg w = Some (ret, w')
    \<and> (ret = RPC_SEND_MSG_TOO_LONG \<longleftrightarrow> unat max_len \<le> unat (pe_ByteSize e msg w))
    \<and> ret \<in> {RPC_SUCCESS, RPC_SEND_MSG_TOO_LONG, RPC_MSG_SERIALIZE_ERR, RPC_SYS_ERR, RPC_CHANNEL_SEND_ERR,
        RPC_ROUTER_FIND_DST_ERR}"
proof -
  let ?len = "ucast (pe_ByteSize e msg w) :: 32 word"
  have len: "unat ?len = unat (pe_ByteSize e msg w)"
    using assms(4) by (simp add: unsigned_ucast_eq unsigned_take_bit_eq take_bit_nat_eq_self)
  let ?w = "w_count (if has_flag (ch_flag (io_head (pe_io e) codec w)) FLAG_RSP_PKG
      then SetRspSize (ch_cmd (io_head (pe_io e) codec w)) ?len
      else SetSendSize (ch_cmd (io_head (pe_io e) codec w)) ?len) w"
  obtain w1 where w1: "io_GetBodyBuf (pe_io e) codec ?w = (max_len, w1)"
    using assms(6) [of ?w] by (metis prod.collapse)
  show ?thesis
  proof (cases "max_len \<le> ?len")
    case True
    with fits_85 [OF this] w1 assms(2) len show ?thesis
      by (simp add: pb_SendMessage_def Let_def word_le_nat_alt rpc_codes)
  next
    case small: False
    show ?thesis
    proof (cases "pe_Serialize e msg w1")
      case None
      with small w1 assms(2) len show ?thesis
        by (simp add: pb_SendMessage_def Let_def word_le_nat_alt rpc_codes)
    next
      case (Some body)
      then have body: "length body = unat ?len" using assms(3) len by simp
      then have of_nat: "of_nat (length body) = ?len" by simp
      let ?w2 = "io_put (pe_io e) codec (SetBodyLen ?len) (io_write (pe_io e) codec body w1)"
      obtain b w3 where w3: "pb_InterceptSend e codec ?w2 = Some (b, w3)"
        unfolding pb_InterceptSend_def using intercept_returns [of "\<lambda>f. pe_SendInt e f codec", OF assms(5)] by blast
      obtain ok w4 where w4: "io_Encode (pe_io e) codec w3 = (ok, w4)" by fastforce
      have fits: "unat ?len < unat max_len" using small by (simp add: word_le_nat_alt)
      obtain r1 w5 where r1: "tp_Send (pe_io e) info w4 = Some (r1, w5)"
        "r1 \<in> {RPC_SUCCESS, RPC_SYS_ERR, RPC_CHANNEL_SEND_ERR, RPC_ROUTER_FIND_DST_ERR}"
        using tp_Send_returns [OF assms(1,2)] by metis
      obtain r2 w6 where r2: "tp_Broadcast (pe_io e) info w4 = Some (r2, w6)"
        "r2 \<in> {RPC_SUCCESS, RPC_SYS_ERR, RPC_ROUTER_FIND_DST_ERR}"
        using tp_Broadcast_returns [OF assms(1,2)] by metis
      have "pb_SendMessage e info msg w =
          (if b then Some (RPC_SUCCESS, w3) else if \<not> ok then Some (RPC_SYS_ERR, w4)
           else if has_flag (ch_flag (io_head (pe_io e) codec w4)) FLAG_IS_BROADCAST
             then Some (if r2 \<noteq> 0 then r2 else RPC_SUCCESS, w6)
             else Some (if r1 \<noteq> 0 then r1 else RPC_SUCCESS, w5))"
        using small Some body fits w1 w3 w4 r1(1) r2(1) assms(2)
        by (simp add: pb_SendMessage_def Let_def cassert_def)
      with r1(2) r2(2) fits len show ?thesis by (auto simp: rpc_codes)
    qed
  qed
qed

text \<open>A process with one transport, for the witnesses: codec 11 holds a request, codec 12 an answer.\<close>

definition demo_head :: "nat \<Rightarrow> codec_head" where
  "demo_head codec = \<lparr>ch_cmd = 6, ch_svr_type = 1, ch_gid = 40, ch_seq_id = 8, ch_src = 2, ch_dst = 3, ch_timeout = 0,
     ch_ret_code = 0, ch_version = 0, ch_flag = (if codec = 12 then 1 else 0), ch_body_len = 4\<rparr>"

definition demo_io :: "'w io_env" where
  "demo_io = \<lparr>io_head = (\<lambda>codec _. demo_head codec), io_put = (\<lambda>_ _ w. w), io_Decode = (\<lambda>_ _ _ w. (True, w)),
     io_Encode = (\<lambda>_ w. (True, w)), io_GetBodyBuf = (\<lambda>_ w. (100, w)), io_write = (\<lambda>_ _ w. w),
     io_GetRawData = (\<lambda>_ _. Some [1, 2]), io_MyID = (\<lambda>_ _. 3), io_Send = (\<lambda>_ _ _ w. (0, w)),
     io_GetSendDest = (\<lambda>_ _ _ dst _ _. dst), io_GetAllSendDest = (\<lambda>_ _ _ _ _. [])\<rparr>"

definition demo_info :: transport_info where
  "demo_info = \<lparr>tp_channel = Some 10, tp_recv_codec = Some 11, tp_send_codec = Some 13, tp_routing = None\<rparr>"

definition demo_env :: "pb_world pb_env" where
  "demo_env = \<lparr>e_callback = (\<lambda>_ _ _ w. Some w), e_recycle = (\<lambda>_ w. Some w), e_resume = (\<lambda>_ w. Some w),
     e_finish = (\<lambda>_ _ w. Some w), te_task = (\<lambda>_ w. Some (0, w)), te_OnRequest = (\<lambda>_ _ _ _ _ w. Some w),
     te_OnResponse = (\<lambda>_ w. Some w), te_watch = None, te_Spawn = (\<lambda>f w. map_option (Pair True) (f w)),
     pe_io = demo_io, pe_real_ms = (\<lambda>w. (1000, w)),
     pe_mmap = (\<lambda>_ _. Some (\<lparr>hd_gid = 40, hd_seq_id = 8, hd_cmd_id = 6\<rparr>, True)),
     pe_RecvInt = (\<lambda>_ _ _ w. Some (False, w)), pe_ReqInt = (\<lambda>_ _ _ w. Some (False, w)),
     pe_RspInt = (\<lambda>_ _ w. Some (False, w)), pe_SendInt = (\<lambda>_ _ w. Some (False, w)),
     pe_CallInt = (\<lambda>_ _ _ _ w. Some (False, w)), pe_ReplyInt = (\<lambda>_ _ _ _ _ w. Some w),
     pe_CallMethod = (\<lambda>_ _ _ w. Some w), pe_OnRequest = (\<lambda>_ _ _ _ _ w. Some (True, w)),
     pe_running_coro = (\<lambda>_. 1), pe_this_coro = (\<lambda>_. Some 9), pe_ByteSize = (\<lambda>_ _. 4),
     pe_Serialize = (\<lambda>_ _. Some [1, 2, 3, 4]), pe_callback = (\<lambda>_ _ _ w. Some w), pe_recycle = (\<lambda>_ w. Some w),
     pe_block = (\<lambda>_ w. Some w)\<rparr>"

definition demo_world :: pb_world where
  "demo_world = \<lparr>w_clock = \<lparr>clk_micro_sec = 1000000\<rparr>, w_idgen = \<lparr>ig_base = 7\<rparr>, w_stats = ss_new, w_auto_counter = 1,
     w_curr = Some 1, w_sctx = [1 \<mapsto> sx_new 1], w_cctx = Map.empty, w_next = 2, cc_timers = tq_new, cc_cache = [],
     cc_init = True, cc_use_coroutine = False, td_use_coroutine = False, td_special_transport_type = 10,
     td_scheduler = False, td_event = [], td_timers = tq_new, pb_intercepters = \<lparr>iq_recv = [], iq_req = [], iq_rsp = [],
       iq_send = [], iq_call = [], iq_reply = []\<rparr>,
     pb_methods = [(6, \<lparr>rm_service = Some 20, rm_method = Some 21, rm_request = None, rm_response = None,
       rm_is_private = False\<rparr>)], pb_context_ctrl = True,
     pb_transport_infos = demo_info # replicate 9 tp_none, pb_channel_cb = [10 \<mapsto> 0], pb_scheduler = False,
     pb_shm_pkg_head = None\<rparr>"

lemma pb_send_fits_witness:
  "\<exists>ret w'. pb_SendMessage demo_env demo_info 5 demo_world = Some (ret, w') \<and> ret \<noteq> RPC_SEND_MSG_TOO_LONG"
  using pb_send_fits [of demo_info 10 13 demo_env 5 demo_world 100]
  by (fastforce simp: demo_info_def demo_env_def demo_io_def)

section \<open>A package that kills the process\<close>

text \<open>What decoding a package into a codec and reading the clock leave alone.\<close>

definition pb_decodes :: "('z, 'y) pbe \<Rightarrow> nat \<Rightarrow> bytes \<Rightarrow> 64 word \<Rightarrow> codec_head \<Rightarrow> bool" where
  "pb_decodes e codec data data_len h \<longleftrightarrow> (\<forall>w.
     fst (io_Decode (pe_io e) codec data (ucast data_len) w)
     \<and> io_head (pe_io e) codec (snd (io_Decode (pe_io e) codec data (ucast data_len) w)) = h
     \<and> pb_shm_pkg_head (snd (io_Decode (pe_io e) codec data (ucast data_len) w)) = pb_shm_pkg_head w
     \<and> pb_shm_pkg_head (snd (pe_real_ms e w)) = pb_shm_pkg_head w)"

lemma pb_OnRecv_step:
  assumes "pb_info t w = Some info" "tp_recv_codec info = Some codec" "pb_decodes e codec data n h"
    "pb_shm_pkg_head w = Some m"
  shows "\<exists>w1. pb_shm_pkg_head w1 = Some m \<and> pb_OnRecv e t data n r a w =
    (if m = pb_head_of h then Some (RPC_SUCCESS, w1\<lparr>pb_shm_pkg_head := Some head_zero\<rparr>)
     else map_option (\<lambda>w2. (RPC_SUCCESS, pb_ClearPkgMem w2))
            (pb_Dispatch e t codec h data n r (w1\<lparr>pb_shm_pkg_head := Some (pb_head_of h)\<rparr>)))"
proof -
  obtain w1 where w1: "io_Decode (pe_io e) codec data (ucast n) w = (True, w1)" "io_head (pe_io e) codec w1 = h"
    "pb_shm_pkg_head w1 = Some m"
    using assms(3,4) unfolding pb_decodes_def by (metis (full_types) prod.collapse)
  obtain now w2 where w2: "pe_real_ms e w1 = (now, w2)" "pb_shm_pkg_head w2 = Some m"
    using assms(3) w1(3) unfolding pb_decodes_def by (metis prod.collapse)
  define w3 where "w3 = (if a \<le> now then w_count (SetQueueCost (ch_cmd h) (ucast (now - a))) w2 else w2)"
  have w3: "pb_shm_pkg_head w3 = Some m" using w2(2) by (simp add: w3_def w_count_def)
  have eq: "m = pb_head_of h \<longleftrightarrow> hd_gid m = ch_gid h \<and> hd_seq_id m = ch_seq_id h \<and> hd_cmd_id m = ch_cmd h"
    by (cases m) (auto simp: pb_head_of_def)
  have check: "pb_CheckPkgMem h w3 = (if m = pb_head_of h then (False, w3)
      else (True, w3\<lparr>pb_shm_pkg_head := Some (pb_head_of h)\<rparr>))"
    using w3 unfolding eq by (simp add: pb_CheckPkgMem_def)
  have "pb_OnRecv e t data n r a w = (case pb_CheckPkgMem h w3 of (fresh, w) \<Rightarrow>
      if \<not> fresh then Some (RPC_SUCCESS, pb_ClearPkgMem w)
      else do { w \<leftarrow> pb_Dispatch e t codec h data n r w; Some (RPC_SUCCESS, pb_ClearPkgMem w) })"
    using assms(1,2) w1(1,2) w2(1) by (simp add: pb_OnRecv_def w3_def Let_def split: prod.splits)
  also have "\<dots> = (if m = pb_head_of h then Some (RPC_SUCCESS, w3\<lparr>pb_shm_pkg_head := Some head_zero\<rparr>)
     else map_option (\<lambda>w2. (RPC_SUCCESS, pb_ClearPkgMem w2))
            (pb_Dispatch e t codec h data n r (w3\<lparr>pb_shm_pkg_head := Some (pb_head_of h)\<rparr>)))"
    unfolding check using w3 by (simp add: pb_ClearPkgMem_def map_conv_bind_option comp_def)
  finally show ?thesis using w3 by blast
qed

text \<open>C17. A package that kills the process does so only once in a row.  While a package is dealt with, the
  mapped memory holds its identity, and it is cleared afterwards; so when the process died and a new one
  maps the same memory, the new process skips that package, whatever dealing with it would do, and clears
  the memory.\<close>

theorem pb_poison_skipped_after_crash:
  assumes "pb_info t w = Some info" "tp_recv_codec info = Some codec" "pb_decodes e codec data n h"
    "pb_shm_pkg_head w = Some m" "m \<noteq> pb_head_of h"
    "key \<noteq> 0" "pb_info t w0 = Some info" "pe_mmap e key w0 = Some (pb_head_of h, True)"
  shows "(\<exists>w1. pb_shm_pkg_head w1 = Some (pb_head_of h)
      \<and> pb_OnRecv e t data n r a w = map_option (\<lambda>w2. (RPC_SUCCESS, pb_ClearPkgMem w2))
          (pb_Dispatch e t codec h data n r w1))
    \<and> (\<exists>w'. pb_OnRecv e t data n r a (snd (pb_Init e key w0)) = Some (RPC_SUCCESS, w')
        \<and> pb_shm_pkg_head w' = Some head_zero)"
proof
  from pb_OnRecv_step [OF assms(1-4), of r a] assms(5) obtain w1 where
    "pb_OnRecv e t data n r a w = map_option (\<lambda>w2. (RPC_SUCCESS, pb_ClearPkgMem w2))
       (pb_Dispatch e t codec h data n r (w1\<lparr>pb_shm_pkg_head := Some (pb_head_of h)\<rparr>))" by auto
  then show "\<exists>w1. pb_shm_pkg_head w1 = Some (pb_head_of h)
      \<and> pb_OnRecv e t data n r a w = map_option (\<lambda>w2. (RPC_SUCCESS, pb_ClearPkgMem w2))
          (pb_Dispatch e t codec h data n r w1)" by (intro exI conjI) auto
next
  let ?w = "snd (pb_Init e key w0)"
  have "pb_info t ?w = pb_info t w0"
    by (simp add: pb_Init_def pb_RegisterPkgMem_def pb_info_def split: option.splits prod.splits)
  then have "pb_info t ?w = Some info" "pb_shm_pkg_head ?w = Some (pb_head_of h)"
    using assms(6-8) by (simp_all add: pb_Init_def pb_RegisterPkgMem_def)
  from pb_OnRecv_step [OF this(1) assms(2,3) this(2), of r a]
  show "\<exists>w'. pb_OnRecv e t data n r a ?w = Some (RPC_SUCCESS, w') \<and> pb_shm_pkg_head w' = Some head_zero" by auto
qed

lemma pb_poison_skipped_after_crash_witness:
  "\<exists>w'. pb_OnRecv demo_env 0 [1] 1 2 900 (snd (pb_Init demo_env 5 demo_world)) = Some (RPC_SUCCESS, w')
     \<and> pb_shm_pkg_head w' = Some head_zero"
proof -
  have dec: "pb_decodes demo_env 11 [1] 1 (demo_head 11)"
    by (simp add: pb_decodes_def demo_env_def demo_io_def)
  let ?w = "demo_world\<lparr>pb_shm_pkg_head := Some head_zero\<rparr>"
  have info: "pb_info 0 ?w = Some demo_info" "pb_info 0 demo_world = Some demo_info"
    by (simp_all add: pb_info_def demo_world_def)
  have ne: "head_zero \<noteq> pb_head_of (demo_head 11)"
    by (simp add: head_zero_def pb_head_of_def demo_head_def)
  have mm: "pe_mmap demo_env 5 demo_world = Some (pb_head_of (demo_head 11), True)"
    by (simp add: demo_env_def pb_head_of_def demo_head_def)
  have c: "tp_recv_codec demo_info = Some 11" "pb_shm_pkg_head ?w = Some head_zero" "(5 :: 32 word) \<noteq> 0"
    by (simp_all add: demo_info_def)
  from pb_poison_skipped_after_crash [OF info(1) c(1) dec c(2) ne c(3) info(2) mm, of 2 900] show ?thesis by blast
qed

section \<open>The life of a request\<close>

text \<open>The parts of the state the hooks around an answer return and leave alone: those of the user's response
  interceptors, of the codec's setters and of the scheduler.\<close>

definition pb_core :: "'z pbw \<Rightarrow> clock \<times> server_stats \<times> (nat \<Rightarrow> sctx option) \<times> transport_info list" where
  "pb_core w = (w_clock w, w_stats w, w_sctx w, pb_transport_infos w)"

definition pb_frame :: "('z, 'y) pbe \<Rightarrow> bool" where
  "pb_frame e \<longleftrightarrow> (\<forall>codec x w. pb_core (io_put (pe_io e) codec x w) = pb_core w)
     \<and> (\<forall>f p w. \<exists>b w'. pe_RspInt e f p w = Some (b, w') \<and> pb_core w' = pb_core w)
     \<and> (\<forall>gid w. \<exists>w'. te_OnResponse e gid w = Some w' \<and> pb_core w' = pb_core w)"

lemma pb_core_info: "pb_core w1 = pb_core w \<Longrightarrow> pb_info i w1 = pb_info i w"
  by (simp add: pb_core_def pb_info_def)

lemma pb_put_all_core: "pb_frame e \<Longrightarrow> pb_core (pb_put_all e codec xs w) = pb_core w"
  unfolding pb_put_all_def by (induction xs arbitrary: w) (simp_all add: pb_frame_def)

lemma pb_InterceptRsp_core:
  assumes "pb_frame e"
  shows "\<exists>b w'. pb_InterceptRsp e p w = Some (b, w') \<and> pb_core w' = pb_core w"
proof -
  have "\<exists>b w'. intercept (\<lambda>f. pe_RspInt e f p) fs b0 w = Some (b, w') \<and> pb_core w' = pb_core w" for fs b0
  proof (induction fs arbitrary: b0 w)
    case (Cons f fs)
    obtain b1 w1 where w1: "pe_RspInt e f p w = Some (b1, w1)" "pb_core w1 = pb_core w"
      using assms unfolding pb_frame_def by blast
    from Cons.IH [where w = w1 and ?b0.0 = "b0 \<or> b1"] w1 show ?case by auto
  qed simp
  then show ?thesis unfolding pb_InterceptRsp_def .
qed

definition pb_finished :: "'z pbw \<Rightarrow> sctx \<Rightarrow> sctx" where
  "pb_finished w c = c\<lparr>sx_end_time := clk_CurrentMilliSec (w_clock w)\<rparr>"

lemma pb_MethodFinish_result:
  assumes "pb_frame e" "w_sctx w p = Some c" "sx_transport_index c < MAX_TRANSPORT_NUM"
    "pb_info (sx_transport_index c) w = Some info" "tp_send_codec info = Some codec" "tp_channel info = Some ch"
  shows "\<exists>w'. pb_MethodFinish e p w = Some w' \<and> w_sctx w' = (w_sctx w)(p \<mapsto> pb_finished w c)
    \<and> w_stats w' = SetCoroRunTime (ph_cmd (sx_head c)) (sx_Duration (pb_finished w c)) (sx_ret_code c) (w_stats w)
    \<and> w_curr w' = None"
proof -
  obtain b w1 where w1: "pb_InterceptRsp e p w = Some (b, w1)" "pb_core w1 = pb_core w"
    using pb_InterceptRsp_core [OF assms(1)] by blast
  then have c1: "w_sctx w1 p = Some c" "pb_info (sx_transport_index c) w1 = Some info"
    using assms(2,4) pb_core_info [OF w1(2)] by (simp_all add: pb_core_def)
  let ?send = "\<not> sx_ignore c \<and> and (ph_pkg_flag (sx_head c)) FLAG_DONT_RSP = 0 \<and> \<not> b"
  let ?sets = "[Reset, SetSrc (io_MyID (pe_io e) ch (io_put (pe_io e) codec Reset w1)),
      SetDst (ph_src (sx_head c)), SetTimeout 0, SetGid (ph_gid (sx_head c)), SetSeqID (ph_seq_id (sx_head c)),
      SetCmd (ph_cmd (sx_head c)), SetRetCode (sx_ret_code c),
      SetFlag (ucast (or (or (ph_pkg_flag (sx_head c)) FLAG_DONT_RSP) FLAG_RSP_PKG))]"
  define w2 where "w2 = (if ?send then pb_put_all e codec ?sets w1 else w1)"
  have w2: "pb_core w2 = pb_core w" using pb_put_all_core [OF assms(1)] w1(2) by (simp add: w2_def)
  define w3 where "w3 = w_count (SetCoroRunTime (ph_cmd (sx_head c)) (sx_Duration (pb_finished w c)) (sx_ret_code c))
      (w2\<lparr>w_sctx := (w_sctx w2)(p \<mapsto> pb_finished w c)\<rparr>)"
  obtain w4 where w4: "(if pb_scheduler w3 then te_OnResponse e (ph_gid (sx_head c)) w3 else Some w3) = Some w4"
    "pb_core w4 = pb_core w3" using assms(1) unfolding pb_frame_def by (metis (full_types))
  have clk: "w_clock w2 = w_clock w" and cx: "w_sctx w2 p = Some c" using w2 assms(2) by (simp_all add: pb_core_def)
  have "pb_MethodFinish e p w = do {
      w \<leftarrow> (if pb_scheduler w3 then te_OnResponse e (ph_gid (sx_head c)) w3 else Some w3);
      Some (w\<lparr>w_curr := None\<rparr>) }"
  proof (cases ?send)
    case True
    then have "pb_put_all e codec ?sets w1 = w2" by (simp add: w2_def)
    with True show ?thesis unfolding pb_MethodFinish_def using assms(2,3) w1(1) c1 assms(5,6) cx clk
      by (simp add: w3_def pb_finished_def)
  next
    case False
    have "w1 = w2" unfolding w2_def if_not_P [OF False] ..
    with False show ?thesis unfolding pb_MethodFinish_def using assms(2,3) w1(1) cx clk
      by (auto simp: w3_def pb_finished_def)
  qed
  then have "pb_MethodFinish e p w = Some (w4\<lparr>w_curr := None\<rparr>)" using w4(1) by simp
  moreover have "w_sctx w4 = (w_sctx w)(p \<mapsto> pb_finished w c)"
    "w_stats w4 = SetCoroRunTime (ph_cmd (sx_head c)) (sx_Duration (pb_finished w c)) (sx_ret_code c) (w_stats w)"
    using w4(2) w2 by (simp_all add: pb_core_def w3_def w_count_def)
  ultimately show ?thesis by simp
qed


text \<open>The state in which the request of a package runs: a new context at \<open>w_next w\<close>, made the current one.\<close>

definition pb_started :: "32 word \<Rightarrow> codec_head \<Rightarrow> 'z pbw \<Rightarrow> 'z pbw" where
  "pb_started t h w = w\<lparr>w_auto_counter := w_auto_counter w + 1, w_next := w_next w + 1,
     w_sctx := (w_sctx w)(w_next w \<mapsto> (sx_SetCallback MethodFinish True (pb_context t h (sx_new (w_auto_counter w))))
       \<lparr>sx_start_time := clk_CurrentMilliSec (w_clock w)\<rparr>),
     w_curr := Some (w_next w)\<rparr>"

definition pb_refused :: "codec_head \<Rightarrow> 'z pbw \<Rightarrow> bool" where
  "pb_refused h w \<longleftrightarrow> ch_timeout h > 0 \<and> ch_timeout h < clk_CurrentMilliSec (w_clock w)
     \<or> (case map_of (pb_methods w) (ch_cmd h) of None \<Rightarrow> True
        | Some m \<Rightarrow> has_flag (ch_flag h) FLAG_FROM_TCONND \<and> rm_is_private m)"

lemma pb_DealRequest_refused:
  assumes "pb_refused (io_head (pe_io e) codec w) w"
  shows "\<exists>w'. pb_DealRequest e t codec w = Some (False, w') \<and> w_sctx w' = w_sctx w \<and> w_curr w' = w_curr w
    \<and> w_next w' = w_next w"
  using assms by (auto simp: pb_refused_def pb_DealRequest_def Let_def w_count_def split: option.splits)

lemma pb_DealRequest_accepted:
  assumes "\<not> pb_refused (io_head (pe_io e) codec w) w" "pb_context_ctrl w" "\<not> cc_UseCoroutine w"
    "map_of (pb_methods w) (ch_cmd (io_head (pe_io e) codec w)) = Some m"
    "pb_InterceptReq e (w_next w) (pb_started t (io_head (pe_io e) codec w) w) = Some (False, w1)"
    "rm_service m = Some s" "pe_CallMethod e s (rm_method m) (w_next w) w1 = Some w2" "w_sctx w2 (w_next w) = Some c"
  shows "pb_DealRequest e t codec w = do {
     w3 \<leftarrow> (if sx_IsFinish c then sx_Run (env.truncate (pb_link e)) (w_next w) w2 else Some w2);
     Some (True, w3) }"
  using assms by (auto simp: pb_refused_def pb_DealRequest_def Let_def w_new_sctx_def pb_DealMethod_def
      pb_started_def cc_UseCoroutine_def split: option.splits)


lemma demo_frame: "pb_frame demo_env"
  by (auto simp: pb_frame_def demo_env_def demo_io_def)


section \<open>A call and its answer\<close>

text \<open>
  What follows the answer of a call that waits without a coroutine: the reply interceptors and the user's
  callback run, the server context is finished when it has nothing more to wait for, and the call's client
  context is recycled.
\<close>

definition pb_resume_server :: "('z, 'y) pbe \<Rightarrow> nat \<Rightarrow> nat option \<Rightarrow> 64 word \<Rightarrow> nat option \<Rightarrow> nat \<Rightarrow> 32 word
    \<Rightarrow> 'z pbw \<Rightarrow> 'z pbw option" where
  "pb_resume_server e sp cb seq_id recv_codec rsp code w = do {
     w \<leftarrow> pb_reply e (RpcReply seq_id recv_codec rsp cb) code (Some sp) w;
     c \<leftarrow> w_sctx w sp;
     if sx_IsFinish c then sx_Run (env.truncate (pb_link e)) sp w else Some w }"

lemma link_simps:
  "e_callback (env.truncate (pb_link e)) = pb_reply e"
  "e_recycle (env.truncate (pb_link e)) = pb_recycled e"
  "e_finish (env.truncate (pb_link e)) = pb_finish e"
  by (simp_all add: pb_link_def env.defs)

lemma cx_Run_async:
  assumes "w_cctx w p = Some c" "cx_callback c = Some (CbAsync (Some (RpcReply seq_id rc rsp cb)) sp)"
    "cx_recycle c = Some (RcUser (RpcRecycle r p))" "w_sctx w sp = Some s"
    "pb_resume_server e sp cb seq_id rc rsp (cx_ret_code c)
       (w\<lparr>w_sctx := (w_sctx w)(sp \<mapsto> s\<lparr>sx_to_be_continue := False\<rparr>), w_curr := Some sp\<rparr>) = Some w2"
    "map_option cx_recycle (w_cctx w2 p) = Some (cx_recycle c)"
  shows "cx_Run (env.truncate (pb_link e)) p w = pb_recycled e (RpcRecycle r p) w2"
  using assms by (auto simp: cx_Run_def link_simps pb_resume_server_def split: Option.bind_splits)

lemma pb_wait_async:
  assumes "cc_inv w" "w_cctx w (w_next w) = None" "unat (tq_base_id (cc_timers w)) + 1 < 2 ^ 32"
    "pb_context_ctrl w" "\<not> cc_UseCoroutine w" "w_curr w = Some sp" "w_sctx w sp = Some s"
    "seq_id \<noteq> 0" "seq_id \<notin> fst ` set (cc_cache w)" "at_blocking_fun task = None"
  shows "\<exists>w1 c. pb_wait e info cmd seq_id rsp task opts w = Some (RpcDone RPC_SUCCESS, w1) \<and> cc_inv w1
    \<and> cc_cache w1 = (seq_id, w_next w) # cc_cache w \<and> w_curr w1 = None
    \<and> w_sctx w1 = (w_sctx w)(sp \<mapsto> s\<lparr>sx_to_be_continue := True\<rparr>)
    \<and> w_cctx w1 (w_next w) = Some c \<and> cx_cmd c = cmd
    \<and> cx_callback c = Some (CbAsync (Some (RpcReply seq_id (tp_recv_codec info) rsp (at_callback task))) sp)
    \<and> cx_recycle c = Some (RcUser (RpcRecycle (at_recycle_fun task) (w_next w)))"
proof -
  let ?p = "w_next w"
  obtain w0 where w0: "pb_new_client cmd w = Some (?p, w0)" "cc_timers w0 = cc_timers w" "cc_cache w0 = cc_cache w"
    "\<And>x. x \<noteq> ?p \<Longrightarrow> w_cctx w0 x = w_cctx w x" "w_sctx w0 = w_sctx w" "cc_use_coroutine w0 = cc_use_coroutine w"
    and c0: "\<exists>c. w_cctx w0 ?p = Some c \<and> cx_server_ctx c = Some sp \<and> cx_cmd c = cmd"
    using assms(6) by (simp add: pb_new_client_def w_new_cctx_def)
  from c0 obtain c where c: "w_cctx w0 ?p = Some c" "cx_server_ctx c = Some sp" "cx_cmd c = cmd" by blast
  have "cc_can_pend (pe_this_coro e w0) ?p w0"
    using cc_inv_other [OF assms(1,2) w0(2,3,4)] cc_inv_fresh [OF assms(1,2)] assms(3,5,7) w0(2,3,5,6) c
    by (simp add: cc_can_pend_def cc_UseCoroutine_def)
  let ?task = "\<lparr>at_callback = Some (RpcReply seq_id (tp_recv_codec info) rsp (at_callback task)),
      at_recycle_fun = Some (RpcRecycle (at_recycle_fun task) ?p), at_blocking_fun = at_blocking_fun task\<rparr>"
  have nb: "at_blocking_fun ?task = None" using assms(10) by simp
  have "cc_effective_id seq_id w0 = seq_id" using assms(8) by (simp add: cc_effective_id_def)
  from cc_Pending_result [OF \<open>cc_can_pend _ _ _\<close> nb, of "pe_block e" seq_id "ro_timeout opts"] this assms(9) w0(3)
  obtain r w1 where w1: "cc_Pending (pe_block e) (pe_this_coro e w0) seq_id (ro_timeout opts) (Some ?p) ?task w0 = Some (r, w1)"
    "cc_inv w1" "r \<noteq> Returned RPC_SYS_ERR" "w_curr w1 = None" "cc_cache w1 = (seq_id, ?p) # cc_cache w" by auto
  have nc: "\<not> cc_use_coroutine w0" using assms(5) w0(6) by (simp add: cc_UseCoroutine_def)
  have sp: "w_sctx w0 sp = Some s" using assms(7) w0(5) by simp
  from cc_Pending_async [OF w1(1,3) nc c(1,2) sp] obtain c' where a: "r = Returned RPC_SUCCESS"
    "w_sctx w1 = (w_sctx w0)(sp \<mapsto> s\<lparr>sx_to_be_continue := True\<rparr>)" "w_cctx w1 ?p = Some c'"
    "cx_callback c' = Some (CbAsync (Some (RpcReply seq_id (tp_recv_codec info) rsp (at_callback task))) sp)"
    "cx_recycle c' = Some (RcUser (RpcRecycle (at_recycle_fun task) ?p))" "cx_cmd c' = cx_cmd c" by auto
  have "pb_wait e info cmd seq_id rsp task opts w = Some (RpcDone RPC_SUCCESS, w1)"
    unfolding pb_wait_def using assms(4,5) w0(1) w1(1) a(1) by simp
  with w1 a c(3) w0(5) show ?thesis by auto
qed

text \<open>
  \<open>result\<close> resumes the call of client context \<open>p\<close> with the code \<open>code\<close>: the request is no longer pending, the
  server context \<open>sp\<close> is the current one again, the user's callback runs there, and when it has left the
  client context alone, that is recycled at the end.
\<close>

definition pb_resumes :: "('z, 'y) pbe \<Rightarrow> nat \<Rightarrow> nat \<Rightarrow> (nat, nat, nat) async_task \<Rightarrow> 64 word \<Rightarrow> nat option \<Rightarrow> nat
    \<Rightarrow> 32 word \<Rightarrow> 'z pbw \<Rightarrow> 'z pbw option \<Rightarrow> bool" where
  "pb_resumes e p sp task seq_id rc rsp code w result \<longleftrightarrow>
     (\<exists>w1 s. w_sctx w sp = Some s \<and> w_curr w1 = Some sp \<and> map_of (cc_cache w1) seq_id = None
        \<and> w_sctx w1 = (w_sctx w)(sp \<mapsto> s\<lparr>sx_to_be_continue := False\<rparr>)
        \<and> (\<forall>w2. pb_resume_server e sp (at_callback task) seq_id rc rsp code w1 = Some w2
              \<and> map_option cx_recycle (w_cctx w2 p) = Some (Some (RcUser (RpcRecycle (at_recycle_fun task) p)))
            \<longrightarrow> result = pb_recycled e (RpcRecycle (at_recycle_fun task) p) w2))"

lemma pb_resumes_cx_Run:
  assumes "w_cctx w p = Some c" "cx_callback c = Some (CbAsync (Some (RpcReply seq_id rc rsp (at_callback task))) sp)"
    "cx_recycle c = Some (RcUser (RpcRecycle (at_recycle_fun task) p))" "w_sctx w sp = Some s"
    "w_sctx w = w_sctx w0" "map_of (cc_cache w) seq_id = None" "code = cx_ret_code c"
  shows "pb_resumes e p sp task seq_id rc rsp code w0 (cx_Run (env.truncate (pb_link e)) p w)"
proof -
  let ?w1 = "w\<lparr>w_sctx := (w_sctx w)(sp \<mapsto> s\<lparr>sx_to_be_continue := False\<rparr>), w_curr := Some sp\<rparr>"
  have "cx_Run (env.truncate (pb_link e)) p w = pb_recycled e (RpcRecycle (at_recycle_fun task) p) w2"
    if "pb_resume_server e sp (at_callback task) seq_id rc rsp code ?w1 = Some w2"
      "map_option cx_recycle (w_cctx w2 p) = Some (Some (RcUser (RpcRecycle (at_recycle_fun task) p)))" for w2
    by (rule cx_Run_async [OF assms(1-4)]) (use that assms(3,7) in auto)
  then show ?thesis unfolding pb_resumes_def using assms(4-6)
    by (intro exI [of _ ?w1] exI [of _ s]) auto
qed


definition demo_task :: "(nat, nat, nat) async_task" where
  "demo_task = \<lparr>at_callback = Some 30, at_recycle_fun = None, at_blocking_fun = None\<rparr>"


end
