(* ===== verification/SystemMgr.thy ===== *)
theory SystemMgr
  imports Prelude "HOL-Library.Word"
begin

text \<open>
  \<^verbatim>\<open>src/core/generate_type_id.h\<close>, \<^verbatim>\<open>src/core/system_interface.h\<close> and
  \<^verbatim>\<open>src/core/system_mgr.{h,cpp}\<close>: the manager of the program's modules.  C++ types are values of
  a type \<open>'t\<close>, modules values of \<open>'s\<close>; what a module's hooks do to the program is a parameter.
\<close>

section \<open>Type ids\<close>

text \<open>The first use of a type gives it the next number.\<close>

record 't type_ids =
  ti_identity :: "'t \<Rightarrow> nat option"
  ti_base_id :: nat

definition ti_new :: "'t type_ids" where
  "ti_new = \<lparr>ti_identity = (\<lambda>_. None), ti_base_id = 0\<rparr>"

definition ti_GetID :: "'t \<Rightarrow> 't type_ids \<Rightarrow> nat \<times> 't type_ids" where
  "ti_GetID t g =
     (case ti_identity g t of
        Some i \<Rightarrow> (i, g)
      | None \<Rightarrow> (ti_base_id g, g\<lparr>ti_identity := (ti_identity g)(t := Some (ti_base_id g)), ti_base_id := ti_base_id g + 1\<rparr>))"

section \<open>The manager\<close>

datatype priority = Low | Mid | High

fun prio_num :: "priority \<Rightarrow> nat" where
  "prio_num Low = 0"
| "prio_num Mid = 1"
| "prio_num High = 2"

definition kMaxSystemsNum :: nat where
  "kMaxSystemsNum = 50"

record ('t, 's) sys_mgr =
  sm_ids :: "'t type_ids"
  sm_systems :: "'s option list"
  sm_index_vec :: "nat list list"

definition sm_new :: "('t, 's) sys_mgr" where
  "sm_new = \<lparr>sm_ids = ti_new, sm_systems = replicate kMaxSystemsNum None, sm_index_vec = [[], [], []]\<rparr>"

definition sm_AddSystem :: "'t \<Rightarrow> 's option \<Rightarrow> priority \<Rightarrow> ('t, 's) sys_mgr \<Rightarrow> bool \<times> ('t, 's) sys_mgr" where
  "sm_AddSystem t sys prio m =
     (if sys = None then (False, m)
      else
        let (sys_id, g) = ti_GetID t (sm_ids m); m = m\<lparr>sm_ids := g\<rparr>
        in if sys_id \<ge> kMaxSystemsNum then (False, m)
           else if sm_systems m ! sys_id \<noteq> None then (False, m)
           else (True, m\<lparr>sm_systems := (sm_systems m)[sys_id := sys],
                   sm_index_vec := (sm_index_vec m)[prio_num prio := sm_index_vec m ! prio_num prio @ [sys_id]]\<rparr>))"

definition sm_RemoveSystem :: "'t \<Rightarrow> ('t, 's) sys_mgr \<Rightarrow> bool \<times> ('t, 's) sys_mgr" where
  "sm_RemoveSystem t m =
     (let (sys_id, g) = ti_GetID t (sm_ids m); m = m\<lparr>sm_ids := g\<rparr>
      in if sys_id \<ge> kMaxSystemsNum then (False, m)
         else if sm_systems m ! sys_id = None then (False, m)
         else (True, m\<lparr>sm_systems := (sm_systems m)[sys_id := None],
                 sm_index_vec := map (filter (\<lambda>i. i \<noteq> sys_id)) (sm_index_vec m)\<rparr>))"

definition sm_GetSystem :: "'t \<Rightarrow> ('t, 's) sys_mgr \<Rightarrow> 's option \<times> ('t, 's) sys_mgr" where
  "sm_GetSystem t m =
     (let (sys_id, g) = ti_GetID t (sm_ids m); m = m\<lparr>sm_ids := g\<rparr>
      in if sys_id \<ge> kMaxSystemsNum \<or> sm_systems m ! sys_id = None then (None, m)
         else (sm_systems m ! sys_id, m))"

definition sm_GetSystemRef :: "'t \<Rightarrow> ('t, 's) sys_mgr \<Rightarrow> ('s \<times> ('t, 's) sys_mgr) option" where
  "sm_GetSystemRef t m = (case sm_GetSystem t m of (sys, m) \<Rightarrow> do { _ \<leftarrow> cassert (sys \<noteq> None); Some (the sys, m) })"

section \<open>The hooks, in the order of priority\<close>

text \<open>The indices in the order of the loops: the vectors from the highest priority to the lowest.\<close>

definition sm_order :: "('t, 's) sys_mgr \<Rightarrow> nat list" where
  "sm_order m = concat (rev (sm_index_vec m))"

fun sm_init_loop :: "('s \<Rightarrow> 'w \<Rightarrow> bool \<times> 'w) \<Rightarrow> 's option list \<Rightarrow> nat list \<Rightarrow> 'w \<Rightarrow> bool \<times> 'w" where
  "sm_init_loop hook ss [] w = (True, w)"
| "sm_init_loop hook ss (i # is) w =
     (case ss ! i of
        None \<Rightarrow> sm_init_loop hook ss is w
      | Some s \<Rightarrow> (case hook s w of (ok, w) \<Rightarrow> if \<not> ok then (False, w) else sm_init_loop hook ss is w))"

definition sm_SystemInit :: "('s \<Rightarrow> 'w \<Rightarrow> bool \<times> 'w) \<Rightarrow> ('t, 's) sys_mgr \<Rightarrow> 'w \<Rightarrow> bool \<times> 'w" where
  "sm_SystemInit on_init m w = sm_init_loop on_init (sm_systems m) (sm_order m) w"

fun sm_call_loop :: "('s \<Rightarrow> 'w \<Rightarrow> 'w) \<Rightarrow> 's option list \<Rightarrow> nat list \<Rightarrow> 'w \<Rightarrow> 'w" where
  "sm_call_loop hook ss [] w = w"
| "sm_call_loop hook ss (i # is) w =
     sm_call_loop hook ss is (case ss ! i of None \<Rightarrow> w | Some s \<Rightarrow> hook s w)"

definition sm_SystemTick ::
  "('s \<Rightarrow> 64 word \<Rightarrow> 64 word \<Rightarrow> 'w \<Rightarrow> 'w) \<Rightarrow> 64 word \<Rightarrow> 64 word \<Rightarrow> ('t, 's) sys_mgr \<Rightarrow> 'w \<Rightarrow> 'w" where
  "sm_SystemTick on_tick now_ms tick_count m w =
     sm_call_loop (\<lambda>s. on_tick s now_ms tick_count) (sm_systems m) (sm_order m) w"

definition sm_active_count :: "('t, 's) sys_mgr \<Rightarrow> 64 word" where
  "sm_active_count m = (let count = sum_list (map length (sm_index_vec m)) in if count > 0 then of_nat count else 1)"

definition sm_sys_per_ms :: "64 word \<Rightarrow> ('t, 's) sys_mgr \<Rightarrow> 64 word" where
  "sm_sys_per_ms remain_ms m = (if remain_ms > 0 then max (remain_ms div sm_active_count m) 1 else 1)"

fun sm_proc_loop :: "('s \<Rightarrow> 'w \<Rightarrow> 64 word \<times> 'w) \<Rightarrow> 's option list \<Rightarrow> nat list \<Rightarrow> 64 word \<Rightarrow> 'w \<Rightarrow> 64 word \<times> 'w" where
  "sm_proc_loop hook ss [] n w = (n, w)"
| "sm_proc_loop hook ss (i # is) n w =
     (case ss ! i of
        None \<Rightarrow> sm_proc_loop hook ss is n w
      | Some s \<Rightarrow> (case hook s w of (k, w) \<Rightarrow> sm_proc_loop hook ss is (n + k) w))"

definition sm_SystemProc ::
  "('s \<Rightarrow> 64 word \<Rightarrow> 64 word \<Rightarrow> bool \<Rightarrow> 'w \<Rightarrow> 64 word \<times> 'w) \<Rightarrow> 64 word \<Rightarrow> 64 word \<Rightarrow> bool \<Rightarrow>
    ('t, 's) sys_mgr \<Rightarrow> 'w \<Rightarrow> 64 word \<times> 'w" where
  "sm_SystemProc on_proc now_ms remain_ms stop m w =
     sm_proc_loop (\<lambda>s. on_proc s now_ms (sm_sys_per_ms remain_ms m) stop) (sm_systems m) (sm_order m) 0 w"

definition sm_SystemFinish :: "('s \<Rightarrow> 'w \<Rightarrow> bool \<times> 'w) \<Rightarrow> ('t, 's) sys_mgr \<Rightarrow> 'w \<Rightarrow> 'w" where
  "sm_SystemFinish on_finish m w = sm_call_loop (\<lambda>s w. snd (on_finish s w)) (sm_systems m) (sm_order m) w"

section \<open>The registered modules\<close>

text \<open>
  What the manager stands for: the types that were mentioned, in order, and the modules registered and
  not removed, in order of registration.
\<close>

type_synonym ('t, 's) reg = "('t \<times> priority \<times> 's) list"

datatype ('t, 's) sm_op = SAdd 't "'s option" priority | SRemove 't | SGet 't

fun sm_do :: "('t, 's) sm_op \<Rightarrow> ('t, 's) sys_mgr \<Rightarrow> ('t, 's) sys_mgr" where
  "sm_do (SAdd t s p) m = snd (sm_AddSystem t s p m)"
| "sm_do (SRemove t) m = snd (sm_RemoveSystem t m)"
| "sm_do (SGet t) m = snd (sm_GetSystem t m)"

definition mention :: "'t \<Rightarrow> 't list \<Rightarrow> 't list" where
  "mention t ms = (if t \<in> set ms then ms else ms @ [t])"

text \<open>A type may be registered while it is one of the first 50 types mentioned.\<close>

fun reg_do :: "('t, 's) sm_op \<Rightarrow> 't list \<times> ('t, 's) reg \<Rightarrow> 't list \<times> ('t, 's) reg" where
  "reg_do (SAdd t None p) (ms, es) = (ms, es)"
| "reg_do (SAdd t (Some s) p) (ms, es) =
     (mention t ms,
      if t \<in> set (take kMaxSystemsNum (mention t ms)) \<and> t \<notin> fst ` set es then es @ [(t, p, s)] else es)"
| "reg_do (SRemove t) (ms, es) = (mention t ms, filter (\<lambda>e. fst e \<noteq> t) es)"
| "reg_do (SGet t) (ms, es) = (mention t ms, es)"

definition reg_calls :: "('t, 's) reg \<Rightarrow> 's list" where
  "reg_calls es = map (snd \<circ> snd) (filter (\<lambda>e. fst (snd e) = High) es
     @ filter (\<lambda>e. fst (snd e) = Mid) es @ filter (\<lambda>e. fst (snd e) = Low) es)"

text \<open>The manager holds the registered modules.\<close>

definition sm_id :: "('t, 's) sys_mgr \<Rightarrow> 't \<Rightarrow> nat" where
  "sm_id m t = the (ti_identity (sm_ids m) t)"

definition ids_ok :: "'t type_ids \<Rightarrow> 't list \<Rightarrow> bool" where
  "ids_ok g ms \<longleftrightarrow> distinct ms \<and> ti_base_id g = length ms
     \<and> (\<forall>t i. ti_identity g t = Some i \<longleftrightarrow> i < length ms \<and> ms ! i = t)"

definition sm_rel :: "('t, 's) sys_mgr \<Rightarrow> 't list \<times> ('t, 's) reg \<Rightarrow> bool" where
  "sm_rel m r = (case r of (ms, es) \<Rightarrow>
     ids_ok (sm_ids m) ms \<and> distinct (map fst es) \<and> fst ` set es \<subseteq> set (take kMaxSystemsNum ms)
     \<and> length (sm_systems m) = kMaxSystemsNum
     \<and> sm_index_vec m = map (\<lambda>p. map (\<lambda>e. sm_id m (fst e)) (filter (\<lambda>e. fst (snd e) = p) es)) [Low, Mid, High]
     \<and> (\<forall>t \<in> set (take kMaxSystemsNum ms). sm_systems m ! sm_id m t = map_option snd (map_of es t))
     \<and> (\<forall>i < kMaxSystemsNum. length ms \<le> i \<longrightarrow> sm_systems m ! i = None))"

lemma ids_ok_new: "ids_ok ti_new []"
  by (simp add: ids_ok_def ti_new_def)

lemma ids_ok_None: "ids_ok g ms \<Longrightarrow> ti_identity g t = None \<longleftrightarrow> t \<notin> set ms"
proof -
  assume "ids_ok g ms"
  then have "ti_identity g t = Some i \<longleftrightarrow> i < length ms \<and> ms ! i = t" for i by (simp add: ids_ok_def)
  then show ?thesis unfolding in_set_conv_nth by (metis option.exhaust option.distinct(1))
qed

lemma ids_ok_mention:
  assumes "ids_ok g ms" "ti_GetID t g = (i, g')"
  shows "ids_ok g' (mention t ms)" "ti_identity g' t = Some i" "i < length (mention t ms)" "mention t ms ! i = t"
    "u \<in> set ms \<Longrightarrow> ti_identity g' u = ti_identity g u"
proof -
  show *: "ids_ok g' (mention t ms)"
  proof (cases "t \<in> set ms")
    case True
    with ids_ok_None [OF assms(1), of t] assms show ?thesis
      by (auto simp: ti_GetID_def mention_def split: option.splits)
  next
    case False
    then have "ti_identity g t = None" using ids_ok_None [OF assms(1)] by simp
    then have g': "g' = g\<lparr>ti_identity := (ti_identity g)(t := Some (ti_base_id g)), ti_base_id := ti_base_id g + 1\<rparr>"
      using assms(2) by (auto simp: ti_GetID_def)
    have nt: "ms ! j \<noteq> t" if "j < length ms" for j using False nth_mem [OF that] by auto
    have old: "ti_identity g u = Some j \<longleftrightarrow> j < length ms \<and> ms ! j = u" "ti_base_id g = length ms" for u j
      using assms(1) by (simp_all add: ids_ok_def)
    have "ti_identity g' u = Some j \<longleftrightarrow> j < length (mention t ms) \<and> mention t ms ! j = u" for u j
      using False nt by (cases "u = t") (auto simp: g' mention_def old nth_append less_Suc_eq)
    with assms(1) False show ?thesis by (simp add: ids_ok_def g' mention_def)
  qed
  show i: "ti_identity g' t = Some i" using assms(2) by (auto simp: ti_GetID_def split: option.splits)
  from * i show "i < length (mention t ms)" "mention t ms ! i = t" by (simp_all add: ids_ok_def)
  show "u \<in> set ms \<Longrightarrow> ti_identity g' u = ti_identity g u"
    using assms(2) ids_ok_None [OF assms(1), of t] by (auto simp: ti_GetID_def split: option.splits)
qed

lemma ids_ok_inj:
  assumes "ids_ok g ms" "t \<in> set ms" "u \<in> set ms" "the (ti_identity g t) = the (ti_identity g u)"
  shows "t = u"
  using assms ids_ok_None [OF assms(1)] unfolding ids_ok_def by (metis option.collapse option.sel)

text \<open>An id below the limit is that of one of the first 50 types.\<close>

lemma ids_ok_limit:
  assumes "ids_ok g ms" "ti_identity g t = Some i"
  shows "i < kMaxSystemsNum \<longleftrightarrow> t \<in> set (take kMaxSystemsNum ms)"
proof -
  from assms have i: "i < length ms" "ms ! i = t" "distinct ms" by (simp_all add: ids_ok_def)
  show ?thesis
  proof
    assume "i < kMaxSystemsNum"
    with i show "t \<in> set (take kMaxSystemsNum ms)"
      by (auto simp: in_set_conv_nth intro!: exI [of _ i])
  next
    assume "t \<in> set (take kMaxSystemsNum ms)"
    then obtain j where "j < kMaxSystemsNum" "j < length ms" "ms ! j = t" by (auto simp: in_set_conv_nth)
    with i show "i < kMaxSystemsNum" using nth_eq_iff_index_eq by blast
  qed
qed

text \<open>Asking for the id of a type keeps the relation.\<close>

lemma sm_rel_GetID:
  assumes rel: "sm_rel m (ms, es)" and g: "ti_GetID t (sm_ids m) = (i, g)"
  shows "sm_rel (m\<lparr>sm_ids := g\<rparr>) (mention t ms, es)"
proof -
  let ?m = "m\<lparr>sm_ids := g\<rparr>"
  from rel have r: "ids_ok (sm_ids m) ms" "fst ` set es \<subseteq> set (take kMaxSystemsNum ms)"
    "\<forall>t \<in> set (take kMaxSystemsNum ms). sm_systems m ! sm_id m t = map_option snd (map_of es t)"
    "\<forall>i < kMaxSystemsNum. length ms \<le> i \<longrightarrow> sm_systems m ! i = None" by (simp_all add: sm_rel_def)
  note men = ids_ok_mention [OF r(1) g]
  have id: "sm_id ?m u = sm_id m u" if "u \<in> set ms" for u using men(5) [OF that] by (simp add: sm_id_def)
  have sub: "set (take kMaxSystemsNum ms) \<subseteq> set (take kMaxSystemsNum (mention t ms))"
    by (auto simp: mention_def)
  have es: "fst e \<in> set ms" if "e \<in> set es" for e using r(2) that in_set_takeD by fastforce
  have "sm_systems m ! sm_id ?m u = map_option snd (map_of es u)"
    if u: "u \<in> set (take kMaxSystemsNum (mention t ms))" for u
  proof (cases "u \<in> set (take kMaxSystemsNum ms)")
    case True
    then have "sm_id ?m u = sm_id m u" using id in_set_takeD by fast
    with r(3) True show ?thesis by simp
  next
    case False
    then have new: "u \<notin> set ms" "u = t" "t \<notin> set ms" "length ms < kMaxSystemsNum"
      using u by (auto simp: mention_def take_Cons' split: if_splits dest: in_set_takeD)
    then have "i = length ms" using men(2) ids_ok_None [OF r(1), of t] g r(1)
      by (auto simp: ti_GetID_def ids_ok_def)
    moreover have "map_of es u = None" using new r(2) by (auto simp: map_of_eq_None_iff dest: in_set_takeD)
    ultimately show ?thesis using r(4) new men(2) by (simp add: sm_id_def)
  qed
  moreover have "map (\<lambda>e. sm_id m (fst e)) (filter P es) = map (\<lambda>e. sm_id ?m (fst e)) (filter P es)" for P
    using id es by simp
  moreover have "fst ` set es \<subseteq> set (take kMaxSystemsNum (mention t ms))" using r(2) sub by blast
  moreover have "length ms \<le> length (mention t ms)" by (simp add: mention_def)
  ultimately show ?thesis using rel men(1) by (simp add: sm_rel_def del: map_eq_conv)
qed

lemma sm_rel_Add:
  assumes rel: "sm_rel m (ms, es)"
  shows "sm_rel (snd (sm_AddSystem t sys p m)) (reg_do (SAdd t sys p) (ms, es))"
proof (cases sys)
  case None
  with rel show ?thesis by (simp add: sm_AddSystem_def)
next
  case (Some s)
  obtain i g where g: "ti_GetID t (sm_ids m) = (i, g)" by (cases "ti_GetID t (sm_ids m)")
  let ?m = "m\<lparr>sm_ids := g\<rparr>" and ?ms = "mention t ms"
  note rel' = sm_rel_GetID [OF rel g]
  have ids: "ids_ok (sm_ids m) ms" using rel by (simp add: sm_rel_def)
  note men = ids_ok_mention [OF ids g]
  have lim: "i < kMaxSystemsNum \<longleftrightarrow> t \<in> set (take kMaxSystemsNum ?ms)" by (rule ids_ok_limit [OF men(1,2)])
  have idt: "sm_id ?m t = i" using men(2) by (simp add: sm_id_def)
  from rel' have sys: "sm_systems m ! i = map_option snd (map_of es t)" if "t \<in> set (take kMaxSystemsNum ?ms)"
    using that idt by (force simp: sm_rel_def)
  have free: "sm_systems m ! i = None \<longleftrightarrow> t \<notin> fst ` set es" if "i < kMaxSystemsNum"
    using sys lim that by (simp add: map_of_eq_None_iff)
  show ?thesis
  proof (cases "t \<in> set (take kMaxSystemsNum ?ms) \<and> t \<notin> fst ` set es")
    case False
    then have "snd (sm_AddSystem t sys p m) = ?m"
      using lim free g Some by (auto simp: sm_AddSystem_def Let_def)
    with rel' False Some show ?thesis by (simp add: if_not_P)
  next
    case True
    let ?m' = "?m\<lparr>sm_systems := (sm_systems m)[i := Some s],
        sm_index_vec := (sm_index_vec m)[prio_num p := sm_index_vec m ! prio_num p @ [i]]\<rparr>"
    have m': "snd (sm_AddSystem t sys p m) = ?m'"
      using True lim free g Some by (simp add: sm_AddSystem_def Let_def)
    have id: "sm_id ?m' u = sm_id ?m u" for u by (simp add: sm_id_def)
    have inj: "sm_id ?m u \<noteq> i" if "u \<in> set (take kMaxSystemsNum ?ms)" "u \<noteq> t" for u
    proof
      assume "sm_id ?m u = i"
      then have "the (ti_identity g u) = the (ti_identity g t)" using men(2) by (simp add: sm_id_def)
      moreover have "u \<in> set ?ms" "t \<in> set ?ms" using that in_set_takeD by (fast, simp add: mention_def)
      ultimately show False using ids_ok_inj [OF men(1)] that(2) by blast
    qed
    have i: "i < length (sm_systems m)" using lim True rel by (simp add: sm_rel_def)
    have "sm_systems ?m' ! sm_id ?m' u = map_option snd (map_of (es @ [(t, p, s)]) u)"
      if u: "u \<in> set (take kMaxSystemsNum ?ms)" for u
    proof (cases "u = t")
      case True
      moreover have "map_of es t = None" using \<open>t \<in> _ \<and> _\<close> by (simp add: map_of_eq_None_iff)
      ultimately show ?thesis using i idt by (simp add: id map_add_def)
    next
      case False
      with inj [OF u False] rel' u show ?thesis unfolding id
        by (simp add: sm_rel_def map_add_def split: option.split)
    qed
    moreover have "sm_systems ?m' ! j = None" if "j < kMaxSystemsNum" "length ?ms \<le> j" for j
      using rel' that men(3) by (simp add: sm_rel_def)
    moreover have "sm_index_vec ?m' = map (\<lambda>q. map (\<lambda>e. sm_id ?m' (fst e)) (filter (\<lambda>e. fst (snd e) = q) (es @ [(t, p, s)]))) [Low, Mid, High]"
    proof -
      have "sm_index_vec m = map (\<lambda>p. map (\<lambda>e. sm_id ?m (fst e)) (filter (\<lambda>e. fst (snd e) = p) es)) [Low, Mid, High]"
        using rel' by (simp add: sm_rel_def)
      with idt show ?thesis unfolding id
        by (cases p) (simp_all add: numeral_2_eq_2)
    qed
    ultimately show ?thesis unfolding m' using rel' True Some by (simp add: sm_rel_def)
  qed
qed

lemma filter_map_key:
  assumes "\<And>e. e \<in> set es \<Longrightarrow> f e = i \<longleftrightarrow> fst e = t"
  shows "filter (\<lambda>j. j \<noteq> i) (map f (filter P es)) = map f (filter P (filter (\<lambda>e. fst e \<noteq> t) es))"
  using assms by (induction es) auto

lemma map_of_filter_key: "map_of (filter (\<lambda>e. fst e \<noteq> t) es) u = (if u = t then None else map_of es u)"
  by (induction es) auto

lemma sm_rel_Remove:
  assumes rel: "sm_rel m (ms, es)"
  shows "sm_rel (snd (sm_RemoveSystem t m)) (reg_do (SRemove t) (ms, es))"
proof -
  obtain i g where g: "ti_GetID t (sm_ids m) = (i, g)" by (cases "ti_GetID t (sm_ids m)")
  let ?m = "m\<lparr>sm_ids := g\<rparr>" and ?ms = "mention t ms" and ?es = "filter (\<lambda>e. fst e \<noteq> t) es"
  note rel' = sm_rel_GetID [OF rel g]
  have ids: "ids_ok (sm_ids m) ms" using rel by (simp add: sm_rel_def)
  note men = ids_ok_mention [OF ids g]
  have lim: "i < kMaxSystemsNum \<longleftrightarrow> t \<in> set (take kMaxSystemsNum ?ms)" by (rule ids_ok_limit [OF men(1,2)])
  have idt: "sm_id ?m t = i" using men(2) by (simp add: sm_id_def)
  have sub: "fst ` set es \<subseteq> set (take kMaxSystemsNum ?ms)" using rel' by (simp add: sm_rel_def)
  have sys: "sm_systems m ! i = map_option snd (map_of es t)" if "i < kMaxSystemsNum"
    using that idt lim rel' by (force simp: sm_rel_def)
  show ?thesis
  proof (cases "t \<in> fst ` set es")
    case False
    then have "?es = es" by (auto simp: filter_id_conv)
    moreover have "sm_systems m ! i = None" if "i < kMaxSystemsNum"
      using sys [OF that] False by (simp add: map_of_eq_None_iff)
    then have "snd (sm_RemoveSystem t m) = ?m" using g by (simp add: sm_RemoveSystem_def Let_def)
    ultimately show ?thesis using rel' by simp
  next
    case True
    then have i: "i < kMaxSystemsNum" using lim sub by blast
    let ?m' = "?m\<lparr>sm_systems := (sm_systems m)[i := None],
        sm_index_vec := map (filter (\<lambda>j. j \<noteq> i)) (sm_index_vec m)\<rparr>"
    have "sm_systems m ! i \<noteq> None" using sys [OF i] True by (simp add: map_of_eq_None_iff)
    then have m': "snd (sm_RemoveSystem t m) = ?m'" using i g by (auto simp: sm_RemoveSystem_def Let_def)
    have id: "sm_id ?m' u = sm_id ?m u" for u by (simp add: sm_id_def)
    have key: "sm_id ?m u = i \<longleftrightarrow> u = t" if "u \<in> set (take kMaxSystemsNum ?ms)" for u
    proof
      assume "sm_id ?m u = i"
      then have "the (ti_identity g u) = the (ti_identity g t)" using men(2) by (simp add: sm_id_def)
      moreover have "u \<in> set ?ms" "t \<in> set ?ms" using that in_set_takeD by (fast, simp add: mention_def)
      ultimately show "u = t" using ids_ok_inj [OF men(1)] by blast
    qed (simp add: idt)
    have "sm_systems ?m' ! sm_id ?m' u = map_option snd (map_of ?es u)"
      if u: "u \<in> set (take kMaxSystemsNum ?ms)" for u
      using key [OF u] rel' u i unfolding id by (cases "u = t") (simp_all add: sm_rel_def map_of_filter_key)
    moreover have "sm_systems ?m' ! j = None" if "j < kMaxSystemsNum" "length ?ms \<le> j" for j
      using rel' that men(3) by (simp add: sm_rel_def)
    moreover have "sm_index_vec ?m' = map (\<lambda>p. map (\<lambda>e. sm_id ?m' (fst e)) (filter (\<lambda>e. fst (snd e) = p) ?es)) [Low, Mid, High]"
    proof -
      have k: "sm_id ?m (fst e) = i \<longleftrightarrow> fst e = t" if "e \<in> set es" for e
        by (rule key) (use sub that in blast)
      have "sm_index_vec m = map (\<lambda>p. map (\<lambda>e. sm_id ?m (fst e)) (filter (\<lambda>e. fst (snd e) = p) es)) [Low, Mid, High]"
        using rel' by (simp add: sm_rel_def)
      moreover have "filter (\<lambda>j. j \<noteq> i) (map (\<lambda>e. sm_id ?m (fst e)) (filter P es))
          = map (\<lambda>e. sm_id ?m (fst e)) (filter P ?es)" for P
        by (rule filter_map_key) (rule k)
      ultimately show ?thesis unfolding id by simp
    qed
    moreover have "distinct (map fst ?es)" "fst ` set ?es \<subseteq> set (take kMaxSystemsNum ?ms)"
      using rel' by (auto simp: sm_rel_def distinct_map_filter)
    ultimately show ?thesis unfolding m' using rel' by (simp add: sm_rel_def)
  qed
qed

lemma sm_rel_Get:
  assumes rel: "sm_rel m (ms, es)"
  shows "sm_rel (snd (sm_GetSystem t m)) (reg_do (SGet t) (ms, es))"
    "fst (sm_GetSystem t m) = map_option snd (map_of es t)"
proof -
  obtain i g where g: "ti_GetID t (sm_ids m) = (i, g)" by (cases "ti_GetID t (sm_ids m)")
  let ?m = "m\<lparr>sm_ids := g\<rparr>" and ?ms = "mention t ms"
  note rel' = sm_rel_GetID [OF rel g]
  show "sm_rel (snd (sm_GetSystem t m)) (reg_do (SGet t) (ms, es))"
    using rel' g by (simp add: sm_GetSystem_def Let_def)
  have ids: "ids_ok (sm_ids m) ms" using rel by (simp add: sm_rel_def)
  note men = ids_ok_mention [OF ids g]
  have lim: "i < kMaxSystemsNum \<longleftrightarrow> t \<in> set (take kMaxSystemsNum ?ms)" by (rule ids_ok_limit [OF men(1,2)])
  have idt: "sm_id ?m t = i" using men(2) by (simp add: sm_id_def)
  have sys: "sm_systems m ! i = map_option snd (map_of es t)" if "i < kMaxSystemsNum"
    using that idt lim rel' by (force simp: sm_rel_def)
  have "map_of es t = None" if "\<not> i < kMaxSystemsNum"
    using that lim rel' by (auto simp: sm_rel_def map_of_eq_None_iff)
  with sys g show "fst (sm_GetSystem t m) = map_option snd (map_of es t)"
    by (cases "i < kMaxSystemsNum") (auto simp: sm_GetSystem_def Let_def)
qed

lemma sm_rel_do: "sm_rel m r \<Longrightarrow> sm_rel (sm_do p m) (reg_do p r)"
  by (cases p; cases r) (simp_all only: sm_do.simps sm_rel_Add sm_rel_Remove sm_rel_Get)

lemma sm_rel_run: "sm_rel m r \<Longrightarrow> sm_rel (fold sm_do ops m) (fold reg_do ops r)"
  by (induction ops arbitrary: m r) (simp_all add: sm_rel_do)

lemma sm_rel_new: "sm_rel sm_new ([], [])"
  by (simp add: sm_rel_def sm_new_def ids_ok_new)

text \<open>The loops reach exactly the registered modules.\<close>

lemma sm_order_calls:
  assumes "sm_rel m (ms, es)"
  shows "map (\<lambda>i. sm_systems m ! i) (sm_order m) = map Some (reg_calls es)"
proof -
  from assms have d: "distinct (map fst es)" and sub: "fst ` set es \<subseteq> set (take kMaxSystemsNum ms)"
    and sys: "\<forall>t \<in> set (take kMaxSystemsNum ms). sm_systems m ! sm_id m t = map_option snd (map_of es t)"
    by (simp_all add: sm_rel_def)
  have "sm_systems m ! sm_id m (fst e) = Some (snd (snd e))" if "e \<in> set es" for e
  proof -
    have "map_of es (fst e) = Some (snd e)" using d that by (simp add: map_of_eq_Some_iff)
    then show ?thesis using sys sub that by (force simp: subset_iff)
  qed
  then have "map (\<lambda>e. sm_systems m ! sm_id m (fst e)) (filter P es) = map (\<lambda>e. Some (snd (snd e))) (filter P es)" for P
    by simp
  then show ?thesis using assms
    by (simp add: sm_order_def sm_rel_def reg_calls_def comp_def del: map_eq_conv)
qed

lemma sm_call_loop_fold:
  "map (\<lambda>i. ss ! i) is = map Some xs \<Longrightarrow> sm_call_loop hook ss is w = fold hook xs w"
  by (induction "is" arbitrary: xs w) auto

fun init_calls :: "('s \<Rightarrow> 'w \<Rightarrow> bool \<times> 'w) \<Rightarrow> 's list \<Rightarrow> 'w \<Rightarrow> bool \<times> 'w" where
  "init_calls hook [] w = (True, w)"
| "init_calls hook (s # ss) w = (case hook s w of (ok, w) \<Rightarrow> if ok then init_calls hook ss w else (False, w))"

lemma sm_init_loop_calls:
  "map (\<lambda>i. ss ! i) is = map Some xs \<Longrightarrow> sm_init_loop hook ss is w = init_calls hook xs w"
  by (induction "is" arbitrary: xs w) (auto split: prod.splits)

section \<open>Properties\<close>

text \<open>C32. After any sequence of registrations, removals and look-ups, a look-up finds exactly the module
  registered under the type and not removed since; a tick calls every registered module once, those of
  high priority first, then the middle ones, then the low ones, each group in the order of registration;
  and the initialisation calls them in the same order and stops at the first that fails.  Only the first
  50 types the program ever mentioned to the manager can be registered.\<close>

theorem sm_run_is_registry:
  "(let m = fold sm_do ops sm_new; es = snd (fold reg_do ops ([], []))
    in fst (sm_GetSystem t m) = map_option snd (map_of es t)
      \<and> sm_SystemTick on_tick now tc m w = fold (\<lambda>s. on_tick s now tc) (reg_calls es) w
      \<and> sm_SystemInit on_init m w = init_calls on_init (reg_calls es) w)"
proof -
  obtain ms es where r: "fold reg_do ops ([], []) = (ms, es)" by (cases "fold reg_do ops ([], [])")
  have rel: "sm_rel (fold sm_do ops sm_new) (ms, es)"
    using sm_rel_run [OF sm_rel_new, of ops] r by (simp only:)
  note calls = sm_order_calls [OF rel]
  show ?thesis using sm_rel_Get(2) [OF rel, of t] r
    by (simp add: Let_def sm_SystemTick_def sm_SystemInit_def sm_call_loop_fold [OF calls]
        sm_init_loop_calls [OF calls])
qed
end
