(* ===== verification/ServerCore.thy ===== *)
theory ServerCore
  imports PBService SystemMgr
begin

text \<open>
  \<^verbatim>\<open>src/core/server_core.{h,cpp}\<close>: the life cycle of a server.  It is set up from its options,
  ticks, works in frames of three phases (timeouts; the program's own work; packages), adapts the number of
  packages of a frame to the time they take, and stops.

  The hooks of the program, the coroutine plug-in, the scheduler, the service mesh and the channels' receive
  loops are an environment.  It is compiled with protobuf, as \<^verbatim>\<open>UA_HAS_PROTOBUF\<close> says.
\<close>

section \<open>Options and state\<close>

record frame_time_limit =
  fr_max_proc_ms :: "32 word"
  fr_max_ctx_proc_ms :: "32 word"
  fr_min_on_proc_ms :: "32 word"

record flow_control =
  fl_max_deal_pkg_num :: "32 word"
  fl_max_num :: "32 word"
  fl_min_num :: "32 word"
  fl_inc_delta :: "32 word"
  fl_dec_delta :: "32 word"
  fl_judge_range_ms :: "32 word"

record svr_option =
  so_coroutine :: bool
  so_pb_service :: bool
  so_max_coro_num :: "32 word"
  so_frame :: frame_time_limit
  so_flow_ctrl :: flow_control
  so_max_tick_ms :: "32 word"

definition TIMEOUT_CHANNEL_INDEX :: "32 word" where
  "TIMEOUT_CHANNEL_INDEX = MAX_TRANSPORT_NUM"

text \<open>What a scheduler keeps of a request, and the function it calls for it.\<close>

datatype sched_data = SchedEvent event_info | SchedPkg bytes

text \<open>The server is the manager of its modules.\<close>

record sc_world = pb_world +
  sc_systems :: "(nat, nat) sys_mgr"
  sc_stop :: bool
  sc_default_transport :: "32 word"
  sc_req_scheduler :: bool
  sc_scheduler_stop :: bool
  sc_scheduler_set :: bool
  sc_service_mesh :: "nat option"
  sc_option :: svr_option
  sc_last_log_time :: "64 word"

type_synonym 'z scw = "'z sc_world_scheme"

record 'w sc_env = "'w pb_env" +
  se_OnInit :: "'w \<Rightarrow> (bool \<times> 'w) option"
  se_OnTick :: "64 word \<Rightarrow> 64 word \<Rightarrow> 'w \<Rightarrow> 'w option"
  se_OnProc :: "64 word \<Rightarrow> 64 word \<Rightarrow> bool \<Rightarrow> 'w \<Rightarrow> (64 word \<times> 'w) option"
  se_OnFinish :: "'w \<Rightarrow> (bool \<times> 'w) option"
  se_sys_init :: "nat \<Rightarrow> 'w \<Rightarrow> bool \<times> 'w"
  se_sys_tick :: "nat \<Rightarrow> 64 word \<Rightarrow> 64 word \<Rightarrow> 'w \<Rightarrow> 'w"
  se_sys_proc :: "nat \<Rightarrow> 64 word \<Rightarrow> 64 word \<Rightarrow> bool \<Rightarrow> 'w \<Rightarrow> 64 word \<times> 'w"
  se_sys_finish :: "nat \<Rightarrow> 'w \<Rightarrow> bool \<times> 'w"
  se_SetMaxCoroNum :: "32 word \<Rightarrow> 'w \<Rightarrow> 'w"
  se_LoopOnce :: "32 word \<Rightarrow> 'w \<Rightarrow> (32 word \<times> 'w) option"
  se_Process :: "nat \<Rightarrow> 'w \<Rightarrow> (32 word \<times> 'w) option"
  se_Loop :: "nat \<Rightarrow> 32 word \<Rightarrow> 'w \<Rightarrow> (64 word \<times> 'w) option"

type_synonym ('z, 'y) sce = "('z sc_world_scheme, 'y) sc_env_scheme"

section \<open>Starting\<close>

definition sc_CheckOption :: "svr_option \<Rightarrow> bool" where
  "sc_CheckOption option =
     (if fl_min_num (so_flow_ctrl option) > fl_max_num (so_flow_ctrl option) then False
      else if fl_max_deal_pkg_num (so_flow_ctrl option) > fl_max_num (so_flow_ctrl option)
            \<or> fl_max_deal_pkg_num (so_flow_ctrl option) < fl_min_num (so_flow_ctrl option) then False
      else if fr_min_on_proc_ms (so_frame option) > fr_max_proc_ms (so_frame option) then False
      else if fr_max_ctx_proc_ms (so_frame option) > fr_max_proc_ms (so_frame option) then False
      else True)"

definition sc_InitPBService :: "'z scw \<Rightarrow> bool \<times> 'z scw" where
  "sc_InitPBService w = (True, if so_pb_service (sc_option w) then pb_SetContextCtrl True w else w)"

definition sc_SvrInit :: "('z, 'y) sce \<Rightarrow> svr_option \<Rightarrow> 'z scw \<Rightarrow> (bool \<times> 'z scw) option" where
  "sc_SvrInit e option w =
     (if \<not> sc_CheckOption option then Some (False, w)
      else
        let w = w\<lparr>sc_option := option\<rparr>;
            (ok, g) = ig_Init (w_clock w) (w_idgen w);
            w = w\<lparr>w_idgen := g\<rparr>
        in if \<not> ok then Some (False, w)
           else
             let w = (if so_coroutine option then se_SetMaxCoroNum e (so_max_coro_num option) w else w);
                 (ok, w) = cc_Init (so_coroutine option) w
             in if \<not> ok then Some (False, w)
                else
                  let w = td_Init (so_coroutine option) w;
                      (ok, w) = sc_InitPBService w
                  in if \<not> ok then Some (False, w)
                     else do {
                       (ok, w) \<leftarrow> se_OnInit e w;
                       if \<not> ok then Some (False, w)
                       else Some (sm_SystemInit (se_sys_init e) (sc_systems w) w) })"

section \<open>Transports, mesh and scheduler\<close>

definition sc_FindTransportInfo :: "32 word \<Rightarrow> 'z scw \<Rightarrow> transport_info option option" where
  "sc_FindTransportInfo transport_type w =
     (if so_pb_service (sc_option w) then pb_FindTransport transport_type w else Some None)"

definition sc_DefaultTransportInfo :: "'z scw \<Rightarrow> transport_info option option" where
  "sc_DefaultTransportInfo w = sc_FindTransportInfo (sc_default_transport w) w"

definition sc_GetID :: "('z, 'y) sce \<Rightarrow> 'z scw \<Rightarrow> 32 word option" where
  "sc_GetID e w = do {
     info \<leftarrow> sc_DefaultTransportInfo w;
     Some (case Option.bind info tp_channel of None \<Rightarrow> 0 | Some ch \<Rightarrow> io_MyID (pe_io e) ch w) }"

definition sc_AddTransportInfo :: "32 word \<Rightarrow> transport_info \<Rightarrow> bool \<Rightarrow> 'z scw \<Rightarrow> (bool \<times> 'z scw) option" where
  "sc_AddTransportInfo transport_type info is_default w =
     (if \<not> so_pb_service (sc_option w) then Some (False, w)
      else do {
        (ok, w) \<leftarrow> pb_AddTransport transport_type info w;
        Some (if \<not> ok then (False, w)
              else (True, if is_default then w\<lparr>sc_default_transport := transport_type\<rparr> else w)) })"

definition sc_DefaultRouting :: "'z scw \<Rightarrow> nat option option" where
  "sc_DefaultRouting w = do {
     info \<leftarrow> sc_DefaultTransportInfo w;
     Some (case info of None \<Rightarrow> None | Some info \<Rightarrow> tp_routing info) }"

definition sc_GetServiceMesh :: "'z scw \<Rightarrow> nat option" where
  "sc_GetServiceMesh w = sc_service_mesh w"

definition sc_SetServiceMesh :: "nat option \<Rightarrow> 'z scw \<Rightarrow> nat option \<times> 'z scw" where
  "sc_SetServiceMesh service_mesh w = (sc_service_mesh w, w\<lparr>sc_service_mesh := service_mesh\<rparr>)"

definition sc_GetPBService :: "'z scw \<Rightarrow> bool" where
  "sc_GetPBService w = so_pb_service (sc_option w)"

definition sc_SetScheduler :: "bool \<Rightarrow> 'z scw \<Rightarrow> bool \<times> 'z scw" where
  "sc_SetScheduler new_scheduler w =
     (if sc_req_scheduler w \<or> \<not> new_scheduler then (False, w)
      else
        let w = w\<lparr>sc_req_scheduler := True\<rparr>;
            w = (if so_pb_service (sc_option w) then pb_SetReqScheduler True w else w);
            w = td_SetReqScheduler True TIMEOUT_CHANNEL_INDEX w
        in (True, w\<lparr>sc_scheduler_set := True\<rparr>))"

text \<open>
  The function given to the scheduler.  A request under the timeout index is an event, any other a package;
  data of the other kind is outside the model.
\<close>

definition sc_ProcFunc :: "('z, 'y) sce \<Rightarrow> 64 word \<Rightarrow> sched_data \<Rightarrow> 32 word \<Rightarrow> 64 word \<Rightarrow> 'z scw \<Rightarrow> (bool \<times> 'z scw) option" where
  "sc_ProcFunc e gid data len custom_data w =
     (let transport_type = ucast custom_data :: 32 word
      in if transport_type = TIMEOUT_CHANNEL_INDEX
         then (case data of SchedEvent info \<Rightarrow> td_DealEvent (pb_link e) (Some info) len w | SchedPkg _ \<Rightarrow> None)
         else if so_pb_service (sc_option w)
         then (case data of SchedPkg pkg \<Rightarrow> pb_DealReqPkg e pkg len transport_type w | SchedEvent _ \<Rightarrow> None)
         else Some (False, w))"

definition sc_AddTimer :: "64 word \<Rightarrow> nat \<Rightarrow> 64 word \<Rightarrow> 32 word \<Rightarrow> 'z scw \<Rightarrow> 64 word \<times> 'z scw" where
  "sc_AddTimer gid callback expire_time interval_time w = td_AddEvent gid callback expire_time interval_time w"

definition sc_CancelTimer :: "64 word \<Rightarrow> 'z scw \<Rightarrow> bool \<times> 'z scw" where
  "sc_CancelTimer timer_id w = td_DelEvent timer_id w"

section \<open>Ticks\<close>

definition w_statistics :: "(statistics \<Rightarrow> statistics) \<Rightarrow> ('cb, 'rc, 'z) world_scheme \<Rightarrow> ('cb, 'rc, 'z) world_scheme" where
  "w_statistics f w = w_count (ss_map_statistics f) w"

definition sc_SvrTick :: "('z, 'y) sce \<Rightarrow> 64 word \<Rightarrow> 64 word \<Rightarrow> 'z scw \<Rightarrow> 'z scw option" where
  "sc_SvrTick e now_ms tick_count w = do {
     w \<leftarrow> se_OnTick e now_ms tick_count w;
     let w = sm_SystemTick (se_sys_tick e) now_ms tick_count (sc_systems w) w;
         (end_ms, w) = pe_real_ms e w;
         w = (if end_ms > now_ms + ucast (so_max_tick_ms (sc_option w)) then w_statistics inc_tick_timeout w else w)
     in Some (w_statistics (set_max_tick_deal_time (ucast (end_ms - now_ms))) w) }"

section \<open>Frames\<close>

text \<open>The sum of a 32-bit and a 64-bit number is a 64-bit number.\<close>

definition sc_remain_ms :: "frame_time_limit \<Rightarrow> 64 word \<Rightarrow> 64 word \<Rightarrow> 64 word" where
  "sc_remain_ms fr begin_ms end_ms =
     (if end_ms + ucast (fr_min_on_proc_ms fr) > ucast (fr_max_proc_ms fr) + begin_ms
      then ucast (fr_min_on_proc_ms fr) else ucast (fr_max_proc_ms fr) + begin_ms - end_ms)"

definition sc_one_loop_num :: "flow_control \<Rightarrow> 32 word \<Rightarrow> 32 word" where
  "sc_one_loop_num fl deal_pkg_count =
     (if fl_max_deal_pkg_num fl > deal_pkg_count + fl_min_num fl
      then fl_max_deal_pkg_num fl - deal_pkg_count else fl_min_num fl)"

text \<open>Adapting the number of packages: fast down, slowly up.\<close>

definition sc_adjust :: "64 word \<Rightarrow> 64 word \<Rightarrow> flow_control \<Rightarrow> flow_control" where
  "sc_adjust remain_ms used_ms fl =
     (if used_ms > remain_ms + ucast (fl_judge_range_ms fl)
      then if fl_max_deal_pkg_num fl > fl_min_num fl + fl_dec_delta fl
           then fl\<lparr>fl_max_deal_pkg_num := fl_max_deal_pkg_num fl - fl_dec_delta fl\<rparr>
           else if fl_max_deal_pkg_num fl > fl_min_num fl then fl\<lparr>fl_max_deal_pkg_num := fl_min_num fl\<rparr> else fl
      else if used_ms + ucast (fl_judge_range_ms fl * 2) < remain_ms
      then if fl_max_deal_pkg_num fl + fl_inc_delta fl < fl_max_num fl
           then fl\<lparr>fl_max_deal_pkg_num := fl_max_deal_pkg_num fl + fl_inc_delta fl\<rparr>
           else if fl_max_deal_pkg_num fl < fl_max_num fl then fl\<lparr>fl_max_deal_pkg_num := fl_max_num fl\<rparr> else fl
      else fl)"

definition sc_AdjustParam :: "64 word \<Rightarrow> 64 word \<Rightarrow> 'z scw \<Rightarrow> 'z scw" where
  "sc_AdjustParam remain_ms used_ms w = w\<lparr>sc_option := (sc_option w)
     \<lparr>so_flow_ctrl := sc_adjust remain_ms used_ms (so_flow_ctrl (sc_option w))\<rparr>\<rparr>"

text \<open>Phase 0: the contexts and events whose time is up.\<close>

definition sc_phase0 :: "('z, 'y) sce \<Rightarrow> 64 word \<Rightarrow> 'z scw \<Rightarrow> ((32 word \<times> 32 word \<times> 64 word) \<times> 'z scw) option" where
  "sc_phase0 e now_ms w = do {
     w \<leftarrow> Some (w_statistics inc_on_proc_num w);
     (ctx_count, w) \<leftarrow> cc_ProcTimeOut (env.truncate (pb_link e)) now_ms w;
     (timeout_count, w) \<leftarrow> (if sc_stop w then Some (0, w) else td_ProcTimeOut (pb_link e) now_ms w);
     (end_ms, w) \<leftarrow> Some (pe_real_ms e w);
     w \<leftarrow> Some (if end_ms > now_ms + ucast (fr_max_ctx_proc_ms (so_frame (sc_option w)))
                then w_statistics inc_proc_timeout_0 w else w);
     Some ((ctx_count, timeout_count, end_ms), w_statistics (set_max_proc_deal_time_0 (ucast (end_ms - now_ms))) w) }"

text \<open>Phase 1: the program, its modules and the service mesh.\<close>

definition sc_phase1 :: "('z, 'y) sce \<Rightarrow> 64 word \<Rightarrow> 64 word \<Rightarrow> 64 word \<Rightarrow> 'z scw \<Rightarrow> ((32 word \<times> 64 word) \<times> 'z scw) option" where
  "sc_phase1 e now_ms end_ms remain_ms w = do {
     (n1, w) \<leftarrow> se_OnProc e now_ms remain_ms (sc_stop w) w;
     (n2, w) \<leftarrow> Some (sm_SystemProc (se_sys_proc e) now_ms remain_ms (sc_stop w) (sc_systems w) w);
     (n3, w) \<leftarrow> (case sc_service_mesh w of None \<Rightarrow> Some (0, w) | Some mesh \<Rightarrow> se_Process e mesh w);
     (end_ms1, w) \<leftarrow> Some (pe_real_ms e w);
     w \<leftarrow> Some (w_statistics (set_max_proc_deal_time_1 (ucast (end_ms1 - end_ms))) w);
     Some ((ucast n1 + ucast n2 + n3, end_ms1),
       if end_ms1 > end_ms + remain_ms then w_statistics inc_proc_timeout_1 w else w) }"

text \<open>Phase 2: the packages, those of the scheduler first.\<close>

definition sc_phase2 :: "('z, 'y) sce \<Rightarrow> 64 word \<Rightarrow> 64 word \<Rightarrow> 64 word \<Rightarrow> 'z scw \<Rightarrow> ((32 word \<times> 64 word) \<times> 'z scw) option" where
  "sc_phase2 e end_ms end_ms1 remain_ms w = do {
     (deal_pkg_count, w) \<leftarrow>
       (if sc_req_scheduler w then se_LoopOnce e (fl_max_deal_pkg_num (so_flow_ctrl (sc_option w))) w else Some (0, w));
     (deal_pkg_count, w) \<leftarrow>
       (if sc_req_scheduler w \<or> \<not> sc_stop w then do {
          info \<leftarrow> sc_DefaultTransportInfo w;
          (case Option.bind info tp_channel of
             None \<Rightarrow> Some (deal_pkg_count, w)
           | Some ch \<Rightarrow> do {
               (n, w) \<leftarrow> se_Loop e ch (sc_one_loop_num (so_flow_ctrl (sc_option w)) deal_pkg_count) w;
               Some (deal_pkg_count + ucast n, w) }) }
        else Some (deal_pkg_count, w));
     (end_ms2, w) \<leftarrow> Some (pe_real_ms e w);
     w \<leftarrow> Some (w_statistics (set_max_proc_deal_time_2 (ucast (end_ms2 - end_ms1))) w);
     Some ((deal_pkg_count, end_ms2),
       if end_ms2 > end_ms + remain_ms then w_statistics inc_proc_timeout_2 w else w) }"

definition sc_SvrProc :: "('z, 'y) sce \<Rightarrow> 64 word \<Rightarrow> 'z scw \<Rightarrow> (64 word \<times> 'z scw) option" where
  "sc_SvrProc e now_ms w = do {
     ((ctx_count, timeout_count, end_ms), w) \<leftarrow> sc_phase0 e now_ms w;
     remain_ms \<leftarrow> Some (sc_remain_ms (so_frame (sc_option w)) now_ms end_ms);
     ((proc_count, end_ms1), w) \<leftarrow> sc_phase1 e now_ms end_ms remain_ms w;
     ((deal_pkg_count, end_ms2), w) \<leftarrow> sc_phase2 e end_ms end_ms1 remain_ms w;
     w \<leftarrow> Some (sc_AdjustParam remain_ms (end_ms2 - end_ms) w);
     (end_ms, w) \<leftarrow> Some (pe_real_ms e w);
     w \<leftarrow> Some (if end_ms > now_ms + ucast (fr_max_proc_ms (so_frame (sc_option w)))
                then w_statistics inc_proc_total_timeout w else w);
     Some (ucast (ctx_count + timeout_count + proc_count + deal_pkg_count), w) }"

section \<open>Stopping\<close>

definition sc_SvrNtfQuit :: "'z scw \<Rightarrow> 'z scw" where
  "sc_SvrNtfQuit w =
     (if \<not> sc_stop w
      then let w = w\<lparr>sc_stop := True\<rparr> in if sc_req_scheduler w then w\<lparr>sc_scheduler_stop := True\<rparr> else w
      else w)"

text \<open>The time of the last message about pending contexts is a static variable.\<close>

definition sc_SvrStopReady :: "('z, 'y) sce \<Rightarrow> 'z scw \<Rightarrow> bool \<times> 'z scw" where
  "sc_SvrStopReady e w =
     (if sc_stop w then
        if cc_PendingContextNum w = 0 then (True, w)
        else
          let (now, w) = pe_real_ms e w
          in (False, if sc_last_log_time w + 200 < now then w\<lparr>sc_last_log_time := now\<rparr> else w)
      else (False, w))"

definition sc_IsStoping :: "'z scw \<Rightarrow> bool" where
  "sc_IsStoping w = sc_stop w"

definition sc_SvrFinish :: "('z, 'y) sce \<Rightarrow> 'z scw \<Rightarrow> (bool \<times> 'z scw) option" where
  "sc_SvrFinish e w = do {
     (_, w) \<leftarrow> se_OnFinish e w;
     Some (True, sm_SystemFinish (se_sys_finish e) (sc_systems w) w) }"

section \<open>Flow control\<close>

text \<open>Options the check accepts, whose sums do not wrap around.\<close>

definition fl_ok :: "flow_control \<Rightarrow> bool" where
  "fl_ok f \<longleftrightarrow> fl_min_num f \<le> fl_max_deal_pkg_num f \<and> fl_max_deal_pkg_num f \<le> fl_max_num f
     \<and> unat (fl_max_num f) + unat (fl_inc_delta f) < 2 ^ 32 \<and> unat (fl_min_num f) + unat (fl_dec_delta f) < 2 ^ 32"

definition fl_same :: "flow_control \<Rightarrow> flow_control \<Rightarrow> bool" where
  "fl_same f g \<longleftrightarrow> g = f\<lparr>fl_max_deal_pkg_num := fl_max_deal_pkg_num g\<rparr>"

definition fl_over :: "flow_control \<Rightarrow> 64 word \<times> 64 word \<Rightarrow> bool" where
  "fl_over f frame \<longleftrightarrow> snd frame > fst frame + ucast (fl_judge_range_ms f)"

definition fl_idle :: "flow_control \<Rightarrow> 64 word \<times> 64 word \<Rightarrow> bool" where
  "fl_idle f frame \<longleftrightarrow> \<not> fl_over f frame \<and> snd frame + ucast (fl_judge_range_ms f * 2) < fst frame"

lemma unat_add_fits: "unat (x :: 32 word) + unat y < 2 ^ 32 \<Longrightarrow> unat (x + y) = unat x + unat y"
  using iffD1 [OF unat_add_lem, of x y] by simp

lemma fl_same_simps:
  assumes "fl_same f g"
  shows "fl_min_num g = fl_min_num f" "fl_max_num g = fl_max_num f" "fl_inc_delta g = fl_inc_delta f"
    "fl_dec_delta g = fl_dec_delta f" "fl_over g = fl_over f" "fl_idle g = fl_idle f"
  using assms by (cases f; cases g; simp add: fl_same_def fl_over_def fl_idle_def fun_eq_iff)+

text \<open>One frame.\<close>

lemma sc_adjust_same: "fl_same f (sc_adjust r u f)"
  by (simp add: fl_same_def sc_adjust_def)

lemma sc_adjust_deal:
  assumes "fl_ok f"
  shows "unat (fl_max_deal_pkg_num (sc_adjust r u f)) =
    (if fl_over f (r, u) then max (unat (fl_min_num f)) (unat (fl_max_deal_pkg_num f) - unat (fl_dec_delta f))
     else if fl_idle f (r, u) then min (unat (fl_max_num f)) (unat (fl_max_deal_pkg_num f) + unat (fl_inc_delta f))
     else unat (fl_max_deal_pkg_num f))"
proof -
  let ?d = "fl_max_deal_pkg_num f"
  have *: "unat (fl_min_num f) \<le> unat ?d" "unat ?d \<le> unat (fl_max_num f)"
    "unat (fl_max_num f) + unat (fl_inc_delta f) < 2 ^ 32" "unat (fl_min_num f) + unat (fl_dec_delta f) < 2 ^ 32"
    using assms by (simp_all add: fl_ok_def word_le_nat_alt)
  have inc: "unat (?d + fl_inc_delta f) = unat ?d + unat (fl_inc_delta f)"
    "unat (fl_min_num f + fl_dec_delta f) = unat (fl_min_num f) + unat (fl_dec_delta f)"
    using * by (intro unat_add_fits; simp)+
  have dec: "unat (?d - fl_dec_delta f) = unat ?d - unat (fl_dec_delta f)" if "unat (fl_dec_delta f) \<le> unat ?d"
    using that by (simp add: unat_sub word_le_nat_alt)
  show ?thesis using * by (auto simp: sc_adjust_def fl_over_def fl_idle_def word_less_nat_alt inc dec)
qed

lemma sc_adjust_ok: "fl_ok f \<Longrightarrow> fl_ok (sc_adjust r u f)"
  using sc_adjust_deal [of f r u] fl_same_simps [OF sc_adjust_same [of f r u]]
  by (auto simp: fl_ok_def word_le_nat_alt)

section \<open>Properties\<close>

definition sc_frames :: "(64 word \<times> 64 word) list \<Rightarrow> flow_control \<Rightarrow> flow_control" where
  "sc_frames frames f = fold (\<lambda>(r, u). sc_adjust r u) frames f"

lemma sc_frames_simps [simp]:
  "sc_frames [] f = f" "sc_frames ((r, u) # frames) f = sc_frames frames (sc_adjust r u f)"
  by (simp_all add: sc_frames_def)

lemma fl_same_trans: "fl_same f g \<Longrightarrow> fl_same g h \<Longrightarrow> fl_same f h"
  by (cases f; cases g; cases h) (simp add: fl_same_def)

lemma sc_frames_ok: "fl_ok f \<Longrightarrow> fl_ok (sc_frames frames f) \<and> fl_same f (sc_frames frames f)"
proof (induction frames arbitrary: f)
  case Nil
  then show ?case by (simp add: fl_same_def)
next
  case (Cons fr frames)
  obtain r u where "fr = (r, u)" by fastforce
  with Cons.IH [OF sc_adjust_ok [OF Cons.prems, of r u]] fl_same_trans [OF sc_adjust_same [of f r u]]
  show ?case by simp
qed

lemma sc_frames_over:
  assumes "fl_ok f" "\<forall>frame \<in> set frames. fl_over f frame"
  shows "unat (fl_max_deal_pkg_num (sc_frames frames f)) =
    max (unat (fl_min_num f)) (unat (fl_max_deal_pkg_num f) - length frames * unat (fl_dec_delta f))"
  using assms
proof (induction frames arbitrary: f)
  case Nil
  then show ?case by (simp add: fl_ok_def word_le_nat_alt)
next
  case (Cons fr frames)
  obtain r u where fr: "fr = (r, u)" by fastforce
  note same = fl_same_simps [OF sc_adjust_same [of f r u]]
  from Cons.IH [OF sc_adjust_ok [OF Cons.prems(1)], of r u] Cons.prems fr same sc_adjust_deal [OF Cons.prems(1), of r u]
  show ?case by (auto simp: max_def)
qed

lemma sc_frames_idle:
  assumes "fl_ok f" "\<forall>frame \<in> set frames. fl_idle f frame"
  shows "unat (fl_max_deal_pkg_num (sc_frames frames f)) =
    min (unat (fl_max_num f)) (unat (fl_max_deal_pkg_num f) + length frames * unat (fl_inc_delta f))"
  using assms
proof (induction frames arbitrary: f)
  case Nil
  then show ?case by (simp add: fl_ok_def word_le_nat_alt)
next
  case (Cons fr frames)
  obtain r u where fr: "fr = (r, u)" by fastforce
  note same = fl_same_simps [OF sc_adjust_same [of f r u]]
  from Cons.prems fr have "\<not> fl_over f (r, u)" "fl_idle f (r, u)" by (simp_all add: fl_idle_def)
  with Cons.IH [OF sc_adjust_ok [OF Cons.prems(1)], of r u] Cons.prems fr same sc_adjust_deal [OF Cons.prems(1), of r u]
  show ?case by (auto simp: min_def)
qed

text \<open>C18. Flow control keeps the number of packages of a frame between the configured bounds, whatever the
  frames take, and changes no other option.  A run of overloaded frames takes the decrement off for each,
  down to the minimum; a run of idle frames adds the increment for each, up to the maximum.  The options
  passed the check, and the sums of the bounds and the steps fit 32 bits.\<close>

theorem sc_flow_control:
  assumes "sc_CheckOption option" "f = so_flow_ctrl option"
    "unat (fl_max_num f) + unat (fl_inc_delta f) < 2 ^ 32" "unat (fl_min_num f) + unat (fl_dec_delta f) < 2 ^ 32"
  shows "let g = fold (\<lambda>(remain_ms, used_ms). sc_adjust remain_ms used_ms) frames f
    in fl_min_num f \<le> fl_max_deal_pkg_num g \<and> fl_max_deal_pkg_num g \<le> fl_max_num f
      \<and> g = f\<lparr>fl_max_deal_pkg_num := fl_max_deal_pkg_num g\<rparr>
      \<and> ((\<forall>frame \<in> set frames. fl_over f frame) \<longrightarrow> unat (fl_max_deal_pkg_num g)
           = max (unat (fl_min_num f)) (unat (fl_max_deal_pkg_num f) - length frames * unat (fl_dec_delta f)))
      \<and> ((\<forall>frame \<in> set frames. fl_idle f frame) \<longrightarrow> unat (fl_max_deal_pkg_num g)
           = min (unat (fl_max_num f)) (unat (fl_max_deal_pkg_num f) + length frames * unat (fl_inc_delta f)))"
proof -
  have ok: "fl_ok f" using assms by (auto simp: sc_CheckOption_def fl_ok_def split: if_splits)
  from sc_frames_ok [OF ok, of frames] fl_same_simps [of f "sc_frames frames f"]
  have "fl_min_num f \<le> fl_max_deal_pkg_num (sc_frames frames f)" "fl_max_deal_pkg_num (sc_frames frames f) \<le> fl_max_num f"
    "sc_frames frames f = f\<lparr>fl_max_deal_pkg_num := fl_max_deal_pkg_num (sc_frames frames f)\<rparr>"
    by (auto simp: fl_ok_def fl_same_def)
  then show ?thesis using sc_frames_over [OF ok] sc_frames_idle [OF ok]
    unfolding Let_def sc_frames_def [symmetric] by blast
qed

definition demo_option :: svr_option where
  "demo_option = \<lparr>so_coroutine = False, so_pb_service = True, so_max_coro_num = 0,
     so_frame = \<lparr>fr_max_proc_ms = 50, fr_max_ctx_proc_ms = 20, fr_min_on_proc_ms = 5\<rparr>,
     so_flow_ctrl = \<lparr>fl_max_deal_pkg_num = 100, fl_max_num = 1000, fl_min_num = 10, fl_inc_delta = 5,
       fl_dec_delta = 30, fl_judge_range_ms = 2\<rparr>, so_max_tick_ms = 1000\<rparr>"

lemma sc_flow_control_witness:
  "unat (fl_max_deal_pkg_num (fold (\<lambda>(remain_ms, used_ms). sc_adjust remain_ms used_ms) [(10, 20), (10, 20)]
     (so_flow_ctrl demo_option))) = 40"
  using sc_flow_control [of demo_option "so_flow_ctrl demo_option" "[(10, 20), (10, 20)]"]
  by (simp add: demo_option_def sc_CheckOption_def fl_over_def Let_def)

text \<open>The options check does not look at the steps: with a large increment, the sum wraps around and the number
  falls below the minimum.\<close>

lemma sc_adjust_wraps:
  assumes "fl_max_deal_pkg_num f = 3000000000" "fl_min_num f = 3000000000" "fl_max_num f = 4000000000"
    "fl_inc_delta f = 2000000000" "fl_judge_range_ms f = 1"
  shows "fl_max_deal_pkg_num (sc_adjust 10 0 f) < fl_min_num f"
  using assms by (simp add: sc_adjust_def)

text \<open>The time and the packages of a frame.\<close>

lemma sc_frame_budget:
  assumes "sc_CheckOption option" "begin_ms \<le> end_ms" "unat end_ms + 2 ^ 32 \<le> 2 ^ 64"
    "unat k + unat (fl_min_num (so_flow_ctrl option)) < 2 ^ 32"
  shows "unat (fr_min_on_proc_ms (so_frame option)) \<le> unat (sc_remain_ms (so_frame option) begin_ms end_ms)"
    "unat (sc_remain_ms (so_frame option) begin_ms end_ms) \<le> unat (fr_max_proc_ms (so_frame option))"
    "fl_min_num (so_flow_ctrl option) \<le> sc_one_loop_num (so_flow_ctrl option) k"
    "unat k + unat (sc_one_loop_num (so_flow_ctrl option) k)
       \<le> max (unat (fl_max_deal_pkg_num (so_flow_ctrl option))) (unat k + unat (fl_min_num (so_flow_ctrl option)))"
proof -
  let ?fr = "so_frame option" and ?fl = "so_flow_ctrl option"
  have opt: "unat (fr_min_on_proc_ms ?fr) \<le> unat (fr_max_proc_ms ?fr)"
    using assms(1) by (auto simp: sc_CheckOption_def word_less_nat_alt split: if_splits)
  have u: "unat (ucast (x :: 32 word) :: 64 word) = unat x" for x
  proof -
    have "unat x < 2 ^ 64" using unsigned_less [of x, where 'a = nat] by simp
    then show ?thesis by (simp add: unsigned_ucast_eq take_bit_nat_eq_self)
  qed
  have lt: "unat (x :: 32 word) < 2 ^ 32" for x using unsigned_less [of x, where 'a = nat] by simp
  have le: "unat begin_ms \<le> unat end_ms" using assms(2) by (simp add: word_le_nat_alt)
  have s1: "unat (end_ms + ucast (fr_min_on_proc_ms ?fr)) = unat end_ms + unat (fr_min_on_proc_ms ?fr)"
    using iffD1 [OF unat_add_lem, of end_ms "ucast (fr_min_on_proc_ms ?fr)"] lt [of "fr_min_on_proc_ms ?fr"] assms(3)
    by (simp add: u)
  have s2: "unat (ucast (fr_max_proc_ms ?fr) + begin_ms) = unat (fr_max_proc_ms ?fr) + unat begin_ms"
    using iffD1 [OF unat_add_lem, of "ucast (fr_max_proc_ms ?fr)" begin_ms] lt [of "fr_max_proc_ms ?fr"] assms(3) le
    by (simp add: u)
  have s3: "unat (ucast (fr_max_proc_ms ?fr) + begin_ms - end_ms) = unat (fr_max_proc_ms ?fr) + unat begin_ms - unat end_ms"
    if "\<not> end_ms + ucast (fr_min_on_proc_ms ?fr) > ucast (fr_max_proc_ms ?fr) + begin_ms"
    using that s1 s2 by (subst unat_sub) (simp_all add: word_less_nat_alt word_le_nat_alt)
  show "unat (fr_min_on_proc_ms ?fr) \<le> unat (sc_remain_ms ?fr begin_ms end_ms)"
    "unat (sc_remain_ms ?fr begin_ms end_ms) \<le> unat (fr_max_proc_ms ?fr)"
    using opt s1 s2 s3 le by (auto simp: sc_remain_ms_def u word_less_nat_alt)
  have s4: "unat (k + fl_min_num ?fl) = unat k + unat (fl_min_num ?fl)" using assms(4) by (rule unat_add_fits)
  have s5: "unat (fl_max_deal_pkg_num ?fl - k) = unat (fl_max_deal_pkg_num ?fl) - unat k"
    if "fl_max_deal_pkg_num ?fl > k + fl_min_num ?fl"
    using that s4 by (subst unat_sub) (simp_all add: word_less_nat_alt word_le_nat_alt)
  show "fl_min_num ?fl \<le> sc_one_loop_num ?fl k"
    "unat k + unat (sc_one_loop_num ?fl k) \<le> max (unat (fl_max_deal_pkg_num ?fl)) (unat k + unat (fl_min_num ?fl))"
    using s4 s5 by (auto simp: sc_one_loop_num_def word_less_nat_alt word_le_nat_alt)
qed

section \<open>Stopping\<close>

text \<open>What the tasks of a timer queue keep, its loop keeps.\<close>

lemma tq_TimeOut_loop_keeps:
  assumes "tq_TimeOut_loop get put exec now count w = Some r" "\<And>q w. P w \<Longrightarrow> P (put q w)"
    "\<And>t i v w w'. P w \<Longrightarrow> exec t i v w = Some w' \<Longrightarrow> P w'" "P w"
  shows "P (snd r)"
proof -
  let ?Q = "\<lambda>get put exec (now :: 64 word) (count :: 32 word) w (r :: 32 word \<times> _). (\<forall>q w. P w \<longrightarrow> P (put q w)) \<longrightarrow>
      (\<forall>t i v w w'. P w \<longrightarrow> exec t i v w = Some w' \<longrightarrow> P w') \<longrightarrow> P w \<longrightarrow> P (snd r)"
  have "?Q get put exec now count w r"
  proof (rule tq_TimeOut_loop.raw_induct [of ?Q, OF _ assms(1)], intro impI)
    fix loop get put exec now count w r
    assume IH: "\<And>get put exec now count w r. loop get put exec now count w = Some r \<Longrightarrow> ?Q get put exec now count w r"
      and step: "(case tq_queue (get w) of [] \<Rightarrow> Some (count, w)
        | t # _ \<Rightarrow> if tm_expire t > now then Some (count, w)
            else do {
              w' \<leftarrow> exec (tm_task t) (tm_seq_id t) (tm_interval t) (put (tq_fire t (get w)) w);
              loop get put exec now (count + 1) w' }) = Some r"
      and keep: "\<forall>q w. P w \<longrightarrow> P (put q w)" "\<forall>t i v w w'. P w \<longrightarrow> exec t i v w = Some w' \<longrightarrow> P w'" and w: "P w"
    show "P (snd r)"
    proof (cases "tq_queue (get w) = [] \<or> tm_expire (hd (tq_queue (get w))) > now")
      case True
      with step w show ?thesis by (auto split: list.splits)
    next
      case False
      then obtain t ts where "tq_queue (get w) = t # ts" "\<not> tm_expire t > now" by (cases "tq_queue (get w)") auto
      with step obtain w1 where w1: "exec (tm_task t) (tm_seq_id t) (tm_interval t) (put (tq_fire t (get w)) w) = Some w1"
        "loop get put exec now (count + 1) w1 = Some r" by (auto split: Option.bind_splits)
      have "P w1" using keep w w1(1) by blast
      then show ?thesis using IH [OF w1(2)] keep by blast
    qed
  qed
  with assms show ?thesis by blast
qed

text \<open>The server is told to quit and has no scheduler.\<close>

definition sc_quiet :: "'z scw \<Rightarrow> bool" where
  "sc_quiet w \<longleftrightarrow> sc_stop w \<and> \<not> sc_req_scheduler w"

text \<open>The program's callbacks, hooks and modules do not start the server again.\<close>

definition sc_stays_quiet :: "('z, 'y) sce \<Rightarrow> bool" where
  "sc_stays_quiet e \<longleftrightarrow>
     (\<forall>p w w'. sc_quiet w \<longrightarrow> cx_Run (env.truncate (pb_link e)) p w = Some w' \<longrightarrow> sc_quiet w')
     \<and> (\<forall>now rem st w n w'. sc_quiet w \<longrightarrow> se_OnProc e now rem st w = Some (n, w') \<longrightarrow> sc_quiet w')
     \<and> (\<forall>s now rem st w. sc_quiet w \<longrightarrow> sc_quiet (snd (se_sys_proc e s now rem st w)))
     \<and> (\<forall>m w n w'. sc_quiet w \<longrightarrow> se_Process e m w = Some (n, w') \<longrightarrow> sc_quiet w')
     \<and> (\<forall>w. sc_quiet w \<longrightarrow> sc_quiet (snd (pe_real_ms e w)))"

lemma sc_quiet_simps [simp]:
  "sc_quiet (w_count f w) = sc_quiet w" "sc_quiet (w_statistics g w) = sc_quiet w"
  "sc_quiet (cc_timers_update h w) = sc_quiet w"
  by (simp_all add: sc_quiet_def w_count_def w_statistics_def)

lemma sc_quiet_Awake: "cc_Awake s ret w = Some (r, w') \<Longrightarrow> sc_quiet w \<Longrightarrow> sc_quiet w'"
  by (cases "ret = RPC_TIME_OUT") (auto simp: cc_Awake_def sc_quiet_def split: option.splits Option.bind_splits)

lemma sc_quiet_contexts:
  assumes "sc_stays_quiet e" "sc_quiet w" "cc_ProcTimeOut (env.truncate (pb_link e)) now w = Some (n, w')"
  shows "sc_quiet w'"
proof -
  have step: "sc_quiet w2" if w1: "sc_quiet w1" and w2: "cc_on_timer (env.truncate (pb_link e)) s i v w1 = Some w2" for s i v w1 w2
  proof -
    from w2 obtain r w3 where w3: "cc_Awake s RPC_TIME_OUT w1 = Some (r, w3)"
      "(case r of None \<Rightarrow> Some w3 | Some p \<Rightarrow> cx_Run (env.truncate (pb_link e)) p w3) = Some w2"
      by (auto simp: cc_on_timer_def split: Option.bind_splits)
    show ?thesis
    proof (cases r)
      case None
      with w3(2) sc_quiet_Awake [OF w3(1) w1] show ?thesis by simp
    next
      case (Some p)
      with w3(2) have "cx_Run (env.truncate (pb_link e)) p w3 = Some w2" by simp
      with sc_quiet_Awake [OF w3(1) w1] assms(1) show ?thesis unfolding sc_stays_quiet_def by blast
    qed
  qed
  have "sc_quiet (snd (n, w'))"
    by (rule tq_TimeOut_loop_keeps [OF assms(3) [unfolded cc_ProcTimeOut_def tq_TimeOut_def], where P = sc_quiet])
       (use step assms(2) in auto)
  then show ?thesis by simp
qed

lemma sc_quiet_modules:
  assumes "sc_stays_quiet e"
  shows "sc_quiet w \<Longrightarrow> sc_quiet (snd (sm_proc_loop (\<lambda>s. se_sys_proc e s now rem st) ss is n w))"
proof (induction "is" arbitrary: n w)
  case (Cons i "is")
  show ?case
  proof (cases "ss ! i")
    case None
    with Cons show ?thesis by simp
  next
    case (Some s)
    obtain k w1 where w1: "se_sys_proc e s now rem st w = (k, w1)" by fastforce
    have "sc_quiet (snd (se_sys_proc e s now rem st w))" using assms Cons.prems unfolding sc_stays_quiet_def by blast
    with Cons.IH [of w1] Some w1 show ?thesis by simp
  qed
qed simp


text \<open>A server that was told to quit and has no scheduler only works off what is pending.\<close>

definition sc_drain :: "('z, 'y) sce \<Rightarrow> 64 word \<Rightarrow> 'z scw \<Rightarrow> (64 word \<times> 'z scw) option" where
  "sc_drain e now_ms w = do {
     (ctx_count, w) \<leftarrow> cc_ProcTimeOut (env.truncate (pb_link e)) now_ms (w_statistics inc_on_proc_num w);
     (end_ms, w) \<leftarrow> Some (pe_real_ms e w);
     w \<leftarrow> Some (w_statistics (set_max_proc_deal_time_0 (ucast (end_ms - now_ms)))
            (if end_ms > now_ms + ucast (fr_max_ctx_proc_ms (so_frame (sc_option w)))
             then w_statistics inc_proc_timeout_0 w else w));
     remain_ms \<leftarrow> Some (sc_remain_ms (so_frame (sc_option w)) now_ms end_ms);
     ((proc_count, end_ms1), w) \<leftarrow> sc_phase1 e now_ms end_ms remain_ms w;
     (end_ms2, w) \<leftarrow> Some (pe_real_ms e w);
     w \<leftarrow> Some (w_statistics (set_max_proc_deal_time_2 (ucast (end_ms2 - end_ms1))) w);
     w \<leftarrow> Some (if end_ms2 > end_ms + remain_ms then w_statistics inc_proc_timeout_2 w else w);
     w \<leftarrow> Some (sc_AdjustParam remain_ms (end_ms2 - end_ms) w);
     (end_ms, w) \<leftarrow> Some (pe_real_ms e w);
     w \<leftarrow> Some (if end_ms > now_ms + ucast (fr_max_proc_ms (so_frame (sc_option w)))
                then w_statistics inc_proc_total_timeout w else w);
     Some (ucast (ctx_count + proc_count), w) }"

lemma sc_quiet_phase1:
  assumes "sc_stays_quiet e" "sc_quiet w" "sc_phase1 e now end_ms rem w = Some (r, w')"
  shows "sc_quiet w'"
proof -
  from assms(3) obtain n1 w1 where w1: "se_OnProc e now rem (sc_stop w) w = Some (n1, w1)"
    by (auto simp: sc_phase1_def split: Option.bind_splits)
  then have q1: "sc_quiet w1" using assms(1,2) unfolding sc_stays_quiet_def by blast
  obtain n2 w2 where w2: "sm_SystemProc (se_sys_proc e) now rem (sc_stop w1) (sc_systems w1) w1 = (n2, w2)" by fastforce
  have q2: "sc_quiet w2" using sc_quiet_modules [OF assms(1) q1] w2 unfolding sm_SystemProc_def by (metis snd_conv)
  obtain n3 w3 where w3: "(case sc_service_mesh w2 of None \<Rightarrow> Some (0, w2) | Some mesh \<Rightarrow> se_Process e mesh w2) = Some (n3, w3)"
    using assms(3) w1 w2 by (auto simp: sc_phase1_def split: Option.bind_splits option.splits)
  have q3: "sc_quiet w3"
  proof (cases "sc_service_mesh w2")
    case None
    with w3 q2 show ?thesis by simp
  next
    case (Some m)
    with w3 have "se_Process e m w2 = Some (n3, w3)" by simp
    with q2 assms(1) show ?thesis unfolding sc_stays_quiet_def by blast
  qed
  obtain end1 w4 where w4: "pe_real_ms e w3 = (end1, w4)" by fastforce
  have "sc_quiet w4" using assms(1) q3 w4 unfolding sc_stays_quiet_def by (metis snd_conv)
  moreover have w': "w' = (let w = w_statistics (set_max_proc_deal_time_1 (ucast (end1 - end_ms))) w4
      in if end1 > end_ms + rem then w_statistics inc_proc_timeout_1 w else w)"
  proof -
    have "sc_phase1 e now end_ms rem w = Some ((ucast n1 + ucast n2 + n3, end1),
        let w = w_statistics (set_max_proc_deal_time_1 (ucast (end1 - end_ms))) w4
        in if end1 > end_ms + rem then w_statistics inc_proc_timeout_1 w else w)"
      unfolding sc_phase1_def by (simp add: w1 w2 w3 w4)
    with assms(3) show ?thesis by simp
  qed
  ultimately show ?thesis by (simp add: Let_def)
qed

text \<open>C19. A server that was told to quit and has no scheduler works off what is pending and takes nothing new:
  a frame fires no timer event and receives no package (it equals the frame without these steps, whatever
  they would do), runs the program's own work, and may stop as soon as no context is pending.  The
  program's callbacks, hooks and modules do not start the server again.\<close>

theorem sc_quit_drains:
  assumes "sc_stays_quiet e" "\<not> sc_req_scheduler w"
  shows "sc_SvrProc e now_ms (sc_SvrNtfQuit w) = sc_drain e now_ms (sc_SvrNtfQuit w)
    \<and> (fst (sc_SvrStopReady e (sc_SvrNtfQuit w)) \<longleftrightarrow> cc_PendingContextNum w = 0)
    \<and> sc_SvrNtfQuit (sc_SvrNtfQuit w) = sc_SvrNtfQuit w"
proof -
  let ?w = "sc_SvrNtfQuit w"
  have quiet: "sc_quiet ?w" using assms(2) by (auto simp: sc_SvrNtfQuit_def sc_quiet_def Let_def)
  have "sc_SvrProc e now_ms ?w = sc_drain e now_ms ?w"
  proof (cases "cc_ProcTimeOut (env.truncate (pb_link e)) now_ms (w_statistics inc_on_proc_num ?w)")
    case None
    then show ?thesis by (simp add: sc_SvrProc_def sc_phase0_def sc_drain_def)
  next
    case (Some r)
    obtain ctx w1 where r: "r = (ctx, w1)" by fastforce
    have q1: "sc_quiet w1" using sc_quiet_contexts [OF assms(1)] quiet Some r by (metis sc_quiet_simps(2))
    obtain end_ms w2 where w2: "pe_real_ms e w1 = (end_ms, w2)" by fastforce
    have q2: "sc_quiet w2" using assms(1) q1 w2 unfolding sc_stays_quiet_def by (metis snd_conv)
    define w3 where "w3 = w_statistics (set_max_proc_deal_time_0 (ucast (end_ms - now_ms)))
       (if end_ms > now_ms + ucast (fr_max_ctx_proc_ms (so_frame (sc_option w2))) then w_statistics inc_proc_timeout_0 w2 else w2)"
    have q3: "sc_quiet w3" using q2 by (simp add: w3_def)
    have p0: "sc_phase0 e now_ms ?w = Some ((ctx, 0, end_ms), w3)"
      using Some r q1 w2 by (simp add: sc_phase0_def sc_quiet_def w3_def)
    let ?rem = "sc_remain_ms (so_frame (sc_option w3)) now_ms end_ms"
    have drain: "sc_drain e now_ms ?w = do {
        ((proc_count, end_ms1), w) \<leftarrow> sc_phase1 e now_ms end_ms ?rem w3;
        (end_ms2, w) \<leftarrow> Some (pe_real_ms e w);
        w \<leftarrow> Some (w_statistics (set_max_proc_deal_time_2 (ucast (end_ms2 - end_ms1))) w);
        w \<leftarrow> Some (if end_ms2 > end_ms + ?rem then w_statistics inc_proc_timeout_2 w else w);
        w \<leftarrow> Some (sc_AdjustParam ?rem (end_ms2 - end_ms) w);
        (end_ms, w) \<leftarrow> Some (pe_real_ms e w);
        w \<leftarrow> Some (if end_ms > now_ms + ucast (fr_max_proc_ms (so_frame (sc_option w)))
                   then w_statistics inc_proc_total_timeout w else w);
        Some (ucast (ctx + proc_count), w) }"
      using Some r w2 by (simp add: sc_drain_def w3_def)
    show ?thesis
    proof (cases "sc_phase1 e now_ms end_ms ?rem w3")
      case None
      with p0 drain show ?thesis by (simp add: sc_SvrProc_def)
    next
      case (Some r1)
      obtain n end1 w4 where r1: "r1 = ((n, end1), w4)" by (metis prod.collapse)
      have "sc_quiet w4" using sc_quiet_phase1 [OF assms(1) q3] Some r1 by blast
      then have "sc_phase2 e end_ms end1 ?rem w4 = (case pe_real_ms e w4 of (end_ms2, w) \<Rightarrow>
          let w = w_statistics (set_max_proc_deal_time_2 (ucast (end_ms2 - end1))) w
          in Some ((0, end_ms2), if end_ms2 > end_ms + ?rem then w_statistics inc_proc_timeout_2 w else w))"
        by (simp add: sc_phase2_def sc_quiet_def Let_def split: prod.split)
      with p0 drain Some r1 show ?thesis by (simp add: sc_SvrProc_def Let_def split: prod.split)
    qed
  qed
  moreover have "cc_PendingContextNum ?w = cc_PendingContextNum w"
    by (simp add: sc_SvrNtfQuit_def cc_PendingContextNum_def Let_def)
  moreover have "sc_SvrNtfQuit ?w = ?w" by (simp add: sc_SvrNtfQuit_def Let_def)
  ultimately show ?thesis using quiet by (auto simp: sc_SvrStopReady_def sc_quiet_def Let_def split: prod.split)
qed

text \<open>A server whose program does nothing, for the witness.\<close>

definition sc_demo_env :: "sc_world sc_env" where
  "sc_demo_env = \<lparr>e_callback = (\<lambda>_ _ _ w. Some w), e_recycle = (\<lambda>_ w. Some w), e_resume = (\<lambda>_ w. Some w),
     e_finish = (\<lambda>_ _ w. Some w), te_task = (\<lambda>_ w. Some (0, w)), te_OnRequest = (\<lambda>_ _ _ _ _ w. Some w),
     te_OnResponse = (\<lambda>_ w. Some w), te_watch = None, te_Spawn = (\<lambda>f w. map_option (Pair True) (f w)),
     pe_io = demo_io, pe_real_ms = (\<lambda>w. (1000, w)), pe_mmap = (\<lambda>_ _. None),
     pe_RecvInt = (\<lambda>_ _ _ w. Some (False, w)), pe_ReqInt = (\<lambda>_ _ _ w. Some (False, w)),
     pe_RspInt = (\<lambda>_ _ w. Some (False, w)), pe_SendInt = (\<lambda>_ _ w. Some (False, w)),
     pe_CallInt = (\<lambda>_ _ _ _ w. Some (False, w)), pe_ReplyInt = (\<lambda>_ _ _ _ _ w. Some w),
     pe_CallMethod = (\<lambda>_ _ _ w. Some w), pe_OnRequest = (\<lambda>_ _ _ _ _ w. Some (True, w)),
     pe_running_coro = (\<lambda>_. 1), pe_this_coro = (\<lambda>_. Some 9), pe_ByteSize = (\<lambda>_ _. 4),
     pe_Serialize = (\<lambda>_ _. Some [1, 2, 3, 4]), pe_callback = (\<lambda>_ _ _ w. Some w), pe_recycle = (\<lambda>_ w. Some w),
     pe_block = (\<lambda>_ w. Some w), se_OnInit = (\<lambda>w. Some (True, w)), se_OnTick = (\<lambda>_ _ w. Some w),
     se_OnProc = (\<lambda>_ _ _ w. Some (0, w)), se_OnFinish = (\<lambda>w. Some (True, w)), se_sys_init = (\<lambda>_ w. (True, w)),
     se_sys_tick = (\<lambda>_ _ _ w. w), se_sys_proc = (\<lambda>_ _ _ _ w. (0, w)), se_sys_finish = (\<lambda>_ w. (True, w)),
     se_SetMaxCoroNum = (\<lambda>_ w. w), se_LoopOnce = (\<lambda>_ w. Some (0, w)), se_Process = (\<lambda>_ w. Some (0, w)),
     se_Loop = (\<lambda>_ _ _. None)\<rparr>"

definition sc_demo_world :: sc_world where
  "sc_demo_world = pb_world.extend demo_world \<lparr>sc_systems = sm_new, sc_stop = False, sc_default_transport = 0,
     sc_req_scheduler = False, sc_scheduler_stop = False, sc_scheduler_set = False, sc_service_mesh = None,
     sc_option = demo_option, sc_last_log_time = 0\<rparr>"

lemma intercept_nothing: "intercept (\<lambda>f w. Some (False, w)) fs b w = Some (b, w)"
  by (induction fs) simp_all

lemma reply_nothing: "reply_loop (\<lambda>f w. Some w) fs w = Some w"
  by (induction fs) simp_all

lemma put_nothing: "pb_put_all sc_demo_env codec xs w = w"
  unfolding pb_put_all_def by (induction xs) (simp_all add: sc_demo_env_def demo_io_def)

lemma sc_demo_finish:
  assumes "pb_finish sc_demo_env cb p w = Some w'" "sc_quiet w"
  shows "sc_quiet w'"
proof (cases cb)
  case MethodFinish
  have "pb_InterceptRsp sc_demo_env p v = Some (False, v)" for v
    by (simp add: pb_InterceptRsp_def sc_demo_env_def intercept_nothing)
  moreover have "te_OnResponse sc_demo_env g v = Some v" for g v by (simp add: sc_demo_env_def)
  ultimately show ?thesis using assms MethodFinish
    by (auto simp: pb_MethodFinish_def put_nothing sc_quiet_def w_count_def split: Option.bind_splits if_splits)
next
  case (EventFinish g)
  have "te_OnResponse sc_demo_env g v = Some v" "te_watch sc_demo_env = None" for g v by (simp_all add: sc_demo_env_def)
  with assms EventFinish show ?thesis
    by (auto simp: td_EventFinish_def sc_quiet_def split: Option.bind_splits if_splits)
qed

lemma sc_demo_Run:
  assumes "sx_Run (env.truncate (pb_link sc_demo_env)) p w = Some w'" "sc_quiet w"
  shows "sc_quiet w'"
proof -
  from assms(1) obtain cb w1 where "pb_finish sc_demo_env cb p w = Some w1"
    "\<exists>f. w' = w1\<lparr>w_sctx := f\<rparr> \<or> w' = w1"
    by (auto simp: sx_Run_def link_simps split: Option.bind_splits if_splits)
  with sc_demo_finish assms(2) show ?thesis by (fastforce simp: sc_quiet_def)
qed

lemma sc_demo_reply: "pb_reply sc_demo_env cb ret sp w = Some w"
  by (cases cb) (simp add: pb_InterceptReply_def sc_demo_env_def reply_nothing split: option.split)

lemma sc_demo_call:
  assumes "cx_call (env.truncate (pb_link sc_demo_env)) cb ret w = Some w'" "sc_quiet w"
  shows "sc_quiet w'"
proof (cases cb)
  case (CbAsync cb' p)
  let ?e = "env.truncate (pb_link sc_demo_env)"
  have cb: "(case cb' of None \<Rightarrow> Some v | Some cb \<Rightarrow> e_callback ?e cb ret (Some p) v) = Some v" for v
    by (simp add: link_simps sc_demo_reply split: option.split)
  from assms(1) CbAsync obtain c where c: "w_sctx w p = Some c" by (auto split: Option.bind_splits)
  let ?w = "w\<lparr>w_sctx := (w_sctx w)(p \<mapsto> c\<lparr>sx_to_be_continue := False\<rparr>), w_curr := Some p\<rparr>"
  have "w' = ?w \<or> sx_Run ?e p ?w = Some w'"
    using assms(1) CbAsync c cb [of ?w] by (simp split: if_splits)
  moreover have "sc_quiet ?w" using assms(2) by (simp add: sc_quiet_def)
  ultimately show ?thesis using sc_demo_Run by blast
qed (use assms in \<open>auto simp: link_simps sc_demo_reply split: option.splits\<close>)

lemma sc_demo_quiet: "sc_stays_quiet sc_demo_env"
proof -
  have "sc_quiet w'" if w: "sc_quiet w" "cx_Run (env.truncate (pb_link sc_demo_env)) p w = Some w'" for p w w'
  proof -
    have resume: "e_resume (env.truncate (pb_link sc_demo_env)) co v = Some v" for co v
      by (simp add: pb_link_def env.defs sc_demo_env_def)
    from w(2) obtain c c1 :: "(pb_callback, pb_recycle) cctx" and cb w1 where c: "cx_call (env.truncate (pb_link sc_demo_env)) cb (cx_ret_code c) w = Some w1"
      "(case cx_recycle c1 of None \<Rightarrow> Some w1 | Some (RcUser r) \<Rightarrow> pb_recycled sc_demo_env r w1 | Some (RcResume co) \<Rightarrow> Some w1)
         = Some w'"
      unfolding cx_Run_def link_simps resume Option.bind_eq_Some_conv by blast
    then obtain r where w1: "w' = w1 \<or> pb_recycled sc_demo_env r w1 = Some w'"
      by (auto split: option.splits cx_recycle.splits)
    have "sc_quiet w2" if "pb_recycled sc_demo_env r w1 = Some w2" "sc_quiet w1" for w2
      using that by (cases r) (auto simp: sc_demo_env_def sc_quiet_def split: Option.bind_splits option.splits)
    with w1 sc_demo_call [OF c(1) w(1)] show ?thesis by blast
  qed
  then show ?thesis unfolding sc_stays_quiet_def by (auto simp: sc_demo_env_def)
qed

lemma sc_quit_drains_witness:
  "sc_SvrProc sc_demo_env 1000 (sc_SvrNtfQuit sc_demo_world) = sc_drain sc_demo_env 1000 (sc_SvrNtfQuit sc_demo_world)
    \<and> fst (sc_SvrStopReady sc_demo_env (sc_SvrNtfQuit sc_demo_world))"
proof -
  have "\<not> sc_req_scheduler sc_demo_world" "cc_PendingContextNum sc_demo_world = 0"
    by (simp_all add: sc_demo_world_def pb_world.defs demo_world_def cc_PendingContextNum_def)
  with sc_quit_drains [OF sc_demo_quiet this(1), of 1000] show ?thesis by simp
qed

end
