(* ===== verification/PbContext.thy ===== *)
theory PbContext
  imports PBService
begin

text \<open>
  \<^verbatim>\<open>src/pb/pb_context.{h,cpp}\<close>: the context that holds the messages of a request, and the wrapper of
  a message that lives on the arena of a context or on the heap.

  Protobuf's messages are addresses in a store that knows where each of them lives; what a message
  holds plays no part.  The arena of a context has the number of the context.  Deleting an address
  that is not a live heap message is undefined in C++ and \<^term>\<open>None\<close> here.  The flag \<open>arena\<close> is the
  macro \<^verbatim>\<open>PB_ARENA\<close>.
\<close>

section \<open>Messages in memory\<close>

datatype place = Heap | OnArena nat

record msg_store =
  mg_next :: nat
  mg_live :: "nat \<rightharpoonup> place"

definition new_message :: "place \<Rightarrow> msg_store \<Rightarrow> nat \<times> msg_store" where
  "new_message p g = (mg_next g, g\<lparr>mg_next := mg_next g + 1, mg_live := (mg_live g)(mg_next g \<mapsto> p)\<rparr>)"

text \<open>\<^verbatim>\<open>delete\<close> of a pointer that may be null.\<close>

definition delete_message :: "nat option \<Rightarrow> msg_store \<Rightarrow> msg_store option" where
  "delete_message m g =
     (case m of
        None \<Rightarrow> Some g
      | Some a \<Rightarrow> do { cassert (mg_live g a = Some Heap); Some (g\<lparr>mg_live := (mg_live g)(a := None)\<rparr>) })"

text \<open>The destructor of an arena frees every message made on it.\<close>

definition delete_arena :: "nat \<Rightarrow> msg_store \<Rightarrow> msg_store" where
  "delete_arena c g = g\<lparr>mg_live := (mg_live g) |` {a. mg_live g a \<noteq> Some (OnArena c)}\<rparr>"

section \<open>The context\<close>

record pb_context_full = sctx +
  pf_req :: "nat option"
  pf_rsp :: "nat option"

text \<open>The fields both constructors take from the codec.\<close>

definition pf_fill :: "32 word \<Rightarrow> codec_head \<Rightarrow> 'z sctx_scheme \<Rightarrow> 'z sctx_scheme" where
  "pf_fill transport_type h c = c\<lparr>sx_transport_index := transport_type,
     sx_head := (sx_head c)\<lparr>ph_gid := ch_gid h, ph_seq_id := ch_seq_id h, ph_cmd := ch_cmd h, ph_src := ch_src h,
       ph_dst := ch_dst h, ph_pkg_flag := ucast (ch_flag h), ph_timeout := ch_timeout h\<rparr>,
     sx_gid := ch_gid h, sx_pkg_flag := ucast (ch_flag h)\<rparr>"

definition pf_new_arena :: "nat \<Rightarrow> 32 word \<Rightarrow> codec_head \<Rightarrow> sctx \<Rightarrow> msg_store \<Rightarrow> pb_context_full \<times> msg_store" where
  "pf_new_arena p transport_type h c g =
     (let (req, g) = new_message (OnArena p) g;
          (rsp, g) = new_message (OnArena p) g
      in (pf_fill transport_type h (sctx.extend c \<lparr>pf_req = Some req, pf_rsp = Some rsp\<rparr>), g))"

definition pf_new_heap :: "32 word \<Rightarrow> codec_head \<Rightarrow> sctx \<Rightarrow> msg_store \<Rightarrow> pb_context_full \<times> msg_store" where
  "pf_new_heap transport_type h c g =
     (let (req, g) = new_message Heap g;
          (rsp, g) = new_message Heap g
      in (pf_fill transport_type h (sctx.extend c \<lparr>pf_req = Some req, pf_rsp = Some rsp\<rparr>), g))"

text \<open>The destructors are the compiler's: members are destroyed last to first.\<close>

definition pf_delete :: "bool \<Rightarrow> nat \<Rightarrow> pb_context_full \<Rightarrow> msg_store \<Rightarrow> msg_store option" where
  "pf_delete arena p c g =
     (if arena then Some (delete_arena p g)
      else do { g \<leftarrow> delete_message (pf_rsp c) g; delete_message (pf_req c) g })"

text \<open>A request's context as \<^verbatim>\<open>PBService::DealRequest\<close> fills it has the same fields.\<close>

lemma pf_fill_is_pb_context: "pf_fill transport_type h c = pb_context transport_type h c"
  by (simp add: pf_fill_def pb_context_def)

lemma pf_new_fields:
  "sctx.truncate (fst (pf_new_arena p transport_type h c g)) = pb_context transport_type h c"
  "sctx.truncate (fst (pf_new_heap transport_type h c g)) = pb_context transport_type h c"
  by (simp_all add: pf_new_arena_def pf_new_heap_def new_message_def pf_fill_def pb_context_def
      sctx.defs Let_def)

section \<open>The wrapper\<close>

record maybe_arena_msg =
  ma_msg :: "nat option"
  ma_use_new :: bool

text \<open>
  The constructor: \<open>ctx\<close> is its argument, \<open>cur\<close> the current server context, both pointers that may
  be null; \<open>full\<close> are the live contexts of the class \<^verbatim>\<open>PBContextFull\<close>, so \<^verbatim>\<open>dynamic_cast\<close> gives null for
  the others.
\<close>

definition cast_full :: "(nat \<rightharpoonup> pb_context_full) \<Rightarrow> nat option \<Rightarrow> nat option" where
  "cast_full full cur = (case cur of None \<Rightarrow> None | Some p \<Rightarrow> if full p = None then None else Some p)"

definition ma_new :: "(nat \<rightharpoonup> pb_context_full) \<Rightarrow> nat option \<Rightarrow> nat option \<Rightarrow> msg_store \<Rightarrow>
    maybe_arena_msg \<times> msg_store" where
  "ma_new full ctx cur g =
     (case (if ctx \<noteq> None then ctx else cast_full full cur) of
        Some p \<Rightarrow> (let (m, g) = new_message (OnArena p) g in (\<lparr>ma_msg = Some m, ma_use_new = False\<rparr>, g))
      | None \<Rightarrow> (let (m, g) = new_message Heap g in (\<lparr>ma_msg = Some m, ma_use_new = True\<rparr>, g)))"

text \<open>The move constructor: the new wrapper and what is left of the old one.\<close>

definition ma_move :: "maybe_arena_msg \<Rightarrow> maybe_arena_msg \<times> maybe_arena_msg" where
  "ma_move other = (\<lparr>ma_msg = ma_msg other, ma_use_new = ma_use_new other\<rparr>,
     other\<lparr>ma_msg := None, ma_use_new := False\<rparr>)"

definition ma_delete :: "maybe_arena_msg \<Rightarrow> msg_store \<Rightarrow> msg_store option" where
  "ma_delete w g = (if ma_use_new w then delete_message (ma_msg w) g else Some g)"

text \<open>\<^verbatim>\<open>operator T&\<close>: it must not be used on a wrapper that was moved from or whose arena is gone.\<close>

definition ma_deref :: "maybe_arena_msg \<Rightarrow> msg_store \<Rightarrow> nat option" where
  "ma_deref w g = do { m \<leftarrow> ma_msg w; cassert (mg_live g m \<noteq> None); Some m }"

section \<open>Clients\<close>

text \<open>
  What a program can do: make and destroy contexts, make a wrapper for a given or the current
  context, move a wrapper into a new one, and end the life of a wrapper.  C++ scoping allows an
  operation on live objects only; the others do nothing.
\<close>

record ctx_state =
  cs_store :: msg_store
  cs_full :: "nat \<rightharpoonup> pb_context_full"
  cs_wrap :: "nat \<rightharpoonup> maybe_arena_msg"

datatype ctx_op = NewCtx nat "32 word" codec_head "64 word" | DelCtx nat | NewMsg nat "nat option" "nat option"
  | MoveMsg nat nat | DelMsg nat

fun cs_step :: "bool \<Rightarrow> ctx_op \<Rightarrow> ctx_state \<Rightarrow> ctx_state option" where
  "cs_step arena (NewCtx p t h i) s =
     (if cs_full s p \<noteq> None then Some s
      else let (c, g) = (if arena then pf_new_arena p t h (sx_new i) (cs_store s) else pf_new_heap t h (sx_new i) (cs_store s))
           in Some (s\<lparr>cs_store := g, cs_full := (cs_full s)(p \<mapsto> c)\<rparr>))"
| "cs_step arena (DelCtx p) s =
     (case cs_full s p of
        None \<Rightarrow> Some s
      | Some c \<Rightarrow> do { g \<leftarrow> pf_delete arena p c (cs_store s);
                    Some (s\<lparr>cs_store := g, cs_full := (cs_full s)(p := None)\<rparr>) })"
| "cs_step arena (NewMsg w ctx cur) s =
     (if \<not> arena \<or> cs_wrap s w \<noteq> None \<or> (case ctx of None \<Rightarrow> False | Some p \<Rightarrow> cs_full s p = None) then Some s
      else let (m, g) = ma_new (cs_full s) ctx cur (cs_store s)
           in Some (s\<lparr>cs_store := g, cs_wrap := (cs_wrap s)(w \<mapsto> m)\<rparr>))"
| "cs_step arena (MoveMsg v w) s =
     (case cs_wrap s w of
        None \<Rightarrow> Some s
      | Some m \<Rightarrow> if cs_wrap s v \<noteq> None then Some s
          else let (new, old) = ma_move m in Some (s\<lparr>cs_wrap := (cs_wrap s)(w \<mapsto> old, v \<mapsto> new)\<rparr>))"
| "cs_step arena (DelMsg w) s =
     (case cs_wrap s w of
        None \<Rightarrow> Some s
      | Some m \<Rightarrow> do { g \<leftarrow> ma_delete m (cs_store s);
                    Some (s\<lparr>cs_store := g, cs_wrap := (cs_wrap s)(w := None)\<rparr>) })"

fun cs_run :: "bool \<Rightarrow> ctx_op list \<Rightarrow> ctx_state \<Rightarrow> ctx_state option" where
  "cs_run arena [] s = Some s"
| "cs_run arena (p # ps) s = do { s \<leftarrow> cs_step arena p s; cs_run arena ps s }"

definition cs_init :: ctx_state where
  "cs_init = \<lparr>cs_store = \<lparr>mg_next = 1, mg_live = Map.empty\<rparr>, cs_full = Map.empty, cs_wrap = Map.empty\<rparr>"

section \<open>Ownership\<close>

text \<open>Who has to delete a heap message: a wrapper that made or took it, or a context without an arena.\<close>

datatype owner = Wrapper nat | Request nat | Response nat

fun own_of :: "bool \<Rightarrow> ctx_state \<Rightarrow> owner \<Rightarrow> nat option" where
  "own_of arena s (Wrapper w) = (case cs_wrap s w of None \<Rightarrow> None | Some m \<Rightarrow> if ma_use_new m then ma_msg m else None)"
| "own_of arena s (Request p) = (case cs_full s p of None \<Rightarrow> None | Some c \<Rightarrow> if arena then None else pf_req c)"
| "own_of arena s (Response p) = (case cs_full s p of None \<Rightarrow> None | Some c \<Rightarrow> if arena then None else pf_rsp c)"

text \<open>Every heap message has exactly one owner, and addresses are not given out twice.\<close>

definition owns :: "('o \<rightharpoonup> nat) \<Rightarrow> msg_store \<Rightarrow> bool" where
  "owns f g \<longleftrightarrow> ran f = {a. mg_live g a = Some Heap} \<and> inj_on f (dom f) \<and> (\<forall>a \<in> dom (mg_live g). a < mg_next g)"

definition arenas :: "msg_store \<Rightarrow> nat set" where
  "arenas g = {p. OnArena p \<in> ran (mg_live g)}"

lemma owns_fresh: "owns f g \<Longrightarrow> mg_live g (mg_next g) = None \<and> mg_next g \<notin> ran f"
  by (auto simp: owns_def)

lemma owns_new:
  assumes "owns f g" "f x = None"
  shows "owns (f(x \<mapsto> mg_next g)) (snd (new_message Heap g))"
proof -
  have "inj_on (f(x \<mapsto> mg_next g)) (dom (f(x \<mapsto> mg_next g)))"
    using assms owns_fresh [OF assms(1)] by (auto simp: owns_def inj_on_def ran_def)
  then show ?thesis using assms owns_fresh [OF assms(1)]
    by (auto simp: owns_def new_message_def less_Suc_eq)
qed

lemma owns_new_arena: "owns f g \<Longrightarrow> owns f (snd (new_message (OnArena p) g))"
  using owns_fresh [of f g] by (auto simp: owns_def new_message_def less_Suc_eq)

lemma arenas_new: "owns f g \<Longrightarrow> arenas (snd (new_message q g)) = arenas g \<union> {p. q = OnArena p}"
  using owns_fresh [of f g] by (auto simp: arenas_def new_message_def)

lemma ran_forget: "inj_on f (dom f) \<Longrightarrow> f x = Some a \<Longrightarrow> ran (f(x := None)) = ran f - {a}"
  by (auto simp: ran_def inj_on_def dom_def) force

lemma owns_delete:
  assumes "owns f g"
  shows "\<exists>g'. delete_message (f x) g = Some g' \<and> owns (f(x := None)) g' \<and> arenas g' \<subseteq> arenas g"
proof (cases "f x")
  case None
  then show ?thesis using assms by (simp add: delete_message_def fun_upd_idem)
next
  case (Some a)
  let ?g = "g\<lparr>mg_live := (mg_live g)(a := None)\<rparr>"
  have l: "mg_live g a = Some Heap" using assms ranI [of f x a] Some by (auto simp: owns_def)
  have "ran (f(x := None)) = ran f - {a}" using assms Some by (intro ran_forget) (simp_all add: owns_def)
  then have "owns (f(x := None)) ?g" using assms by (auto simp: owns_def inj_on_def)
  moreover have "arenas ?g \<subseteq> arenas g" by (auto simp: arenas_def ran_def split: if_splits)
  ultimately show ?thesis using Some l by (auto simp: delete_message_def)
qed

lemma owns_move:
  assumes "owns f g" "f v = None"
  shows "owns (f(w := None, v := f w)) g"
proof (cases "f w")
  case None
  then have "f(w := None, v := f w) = f" using assms(2) by (auto simp: fun_eq_iff)
  then show ?thesis using assms(1) by simp
next
  case (Some a)
  then have vw: "v \<noteq> w" using assms(2) by auto
  have inj: "inj_on f (dom f)" using assms(1) by (simp add: owns_def)
  have one: "f x = Some b \<Longrightarrow> f y = Some b \<Longrightarrow> x = y" for x y b using inj_onD [OF inj, of x y] by (auto intro: domI)
  have "ran (f(w := None, v \<mapsto> a)) = insert a (ran (f(w := None)))"
    using assms(2) by (intro ran_map_upd) simp
  also have "\<dots> = ran f" using ran_forget [OF inj Some] ranI [of f w a] Some by auto
  finally have r: "ran (f(w := None, v \<mapsto> a)) = ran f" .
  have "x = y" if "(f(w := None, v \<mapsto> a)) x = Some b" "(f(w := None, v \<mapsto> a)) y = Some b" for x y b
  proof (cases "x = v \<or> y = v")
    case True
    with that vw have "b = a" by (auto simp: fun_upd_apply)
    then have "z = w" if "f z = Some b" for z using one [OF that, of w] Some by simp
    with that vw show ?thesis by (auto simp: fun_upd_apply split: if_splits)
  next
    case False
    with that have "f x = Some b" "f y = Some b" by (auto split: if_splits)
    then show ?thesis by (rule one)
  qed
  then have "inj_on (f(w := None, v \<mapsto> a)) (dom (f(w := None, v \<mapsto> a)))"
    by (intro inj_onI) (metis domD)
  then show ?thesis using assms(1) r Some by (simp add: owns_def)
qed

lemma owns_delete_arena: "owns f g \<Longrightarrow> owns f (delete_arena p g)"
  by (auto simp: owns_def delete_arena_def restrict_map_def split: if_splits)

lemma arenas_delete_arena: "arenas (delete_arena p g) \<subseteq> arenas g - {p}"
  by (auto simp: arenas_def delete_arena_def ran_def restrict_map_def split: if_splits)

definition cs_ok :: "bool \<Rightarrow> ctx_state \<Rightarrow> bool" where
  "cs_ok arena s \<longleftrightarrow> owns (own_of arena s) (cs_store s) \<and> arenas (cs_store s) \<subseteq> (if arena then dom (cs_full s) else {})"

lemma own_of_store [simp]: "own_of arena (s\<lparr>cs_store := g\<rparr>) = own_of arena s"
proof
  show "own_of arena (s\<lparr>cs_store := g\<rparr>) x = own_of arena s x" for x by (cases x) auto
qed

lemma own_of_wrap: "own_of arena (s\<lparr>cs_store := g, cs_wrap := (cs_wrap s)(w := m)\<rparr>)
    = (own_of arena s)(Wrapper w := Option.bind m (\<lambda>m. if ma_use_new m then ma_msg m else None))"
proof
  show "own_of arena (s\<lparr>cs_store := g, cs_wrap := (cs_wrap s)(w := m)\<rparr>) x
    = ((own_of arena s)(Wrapper w := Option.bind m (\<lambda>m. if ma_use_new m then ma_msg m else None))) x" for x
    by (cases x) (auto split: option.splits)
qed

lemma own_of_full: "own_of arena (s\<lparr>cs_store := g, cs_full := (cs_full s)(p := c)\<rparr>)
    = (own_of arena s)(Request p := Option.bind c (\<lambda>c. if arena then None else pf_req c),
        Response p := Option.bind c (\<lambda>c. if arena then None else pf_rsp c))"
proof
  show "own_of arena (s\<lparr>cs_store := g, cs_full := (cs_full s)(p := c)\<rparr>) x
    = ((own_of arena s)(Request p := Option.bind c (\<lambda>c. if arena then None else pf_req c),
        Response p := Option.bind c (\<lambda>c. if arena then None else pf_rsp c))) x" for x
    by (cases x) (auto split: option.splits)
qed

lemma cs_new_ctx_ok:
  assumes "cs_ok arena s" "cs_step arena (NewCtx p t h i) s = Some u"
  shows "cs_ok arena u"
proof (cases "cs_full s p")
  case None
  let ?g = "snd (new_message (if arena then OnArena p else Heap) (cs_store s))"
  let ?g' = "snd (new_message (if arena then OnArena p else Heap) ?g)"
  let ?o = "own_of arena s"
  obtain c where u: "u = s\<lparr>cs_store := ?g', cs_full := (cs_full s)(p \<mapsto> c)\<rparr>"
    and c: "pf_req c = Some (mg_next (cs_store s))" "pf_rsp c = Some (mg_next ?g)"
    using assms(2) None by (cases arena)
      (auto simp: pf_new_arena_def pf_new_heap_def new_message_def Let_def pf_fill_def sctx.defs)
  have o: "owns ?o (cs_store s)" "arenas (cs_store s) \<subseteq> (if arena then dom (cs_full s) else {})" using assms(1) by (auto simp: cs_ok_def)
  have n: "?o (Request p) = None" "?o (Response p) = None" using None by simp_all
  show ?thesis
  proof (cases arena)
    case True
    note o1 = owns_new_arena [OF o(1), of p]
    have "own_of arena u = ?o" using n True unfolding u own_of_full by (simp add: fun_upd_idem)
    then show ?thesis using True owns_new_arena [OF o1, of p] arenas_new [OF o1] arenas_new [OF o(1)] o(2)
      by (auto simp: cs_ok_def u)
  next
    case False
    note o1 = owns_new [OF o(1) n(1)]
    have "own_of arena u = ?o(Request p \<mapsto> mg_next (cs_store s), Response p \<mapsto> mg_next ?g)"
      using False c by (simp add: u own_of_full)
    then show ?thesis using False owns_new [OF o1, of "Response p"] n arenas_new [OF o1] arenas_new [OF o(1)] o(2)
      by (auto simp: cs_ok_def u)
  qed
qed (use assms in simp)

lemma cs_del_ctx_ok:
  assumes "cs_ok arena s"
  shows "\<exists>u. cs_step arena (DelCtx p) s = Some u \<and> cs_ok arena u"
proof (cases "cs_full s p")
  case (Some c)
  have o: "owns (own_of arena s) (cs_store s)" "arenas (cs_store s) \<subseteq> (if arena then dom (cs_full s) else {})" using assms by (auto simp: cs_ok_def)
  have f: "own_of arena (s\<lparr>cs_store := g, cs_full := (cs_full s)(p := None)\<rparr>)
      = (own_of arena s)(Response p := None, Request p := None)" for g
    by (simp add: own_of_full fun_upd_twist)
  show ?thesis
  proof (cases arena)
    case True
    then have "(own_of arena s)(Response p := None, Request p := None) = own_of arena s"
      using Some by (auto simp: fun_eq_iff)
    then show ?thesis using True Some f owns_delete_arena [OF o(1), of p] arenas_delete_arena [of p "cs_store s"] o(2)
      by (auto simp: cs_ok_def pf_delete_def)
  next
    case False
    obtain g where g: "delete_message (pf_rsp c) (cs_store s) = Some g"
      "owns ((own_of arena s)(Response p := None)) g" "arenas g \<subseteq> arenas (cs_store s)"
      using owns_delete [OF o(1), of "Response p"] Some False by auto
    obtain g' where g': "delete_message (pf_req c) g = Some g'"
      "owns ((own_of arena s)(Response p := None, Request p := None)) g'" "arenas g' \<subseteq> arenas g"
      using owns_delete [OF g(2), of "Request p"] Some False by auto
    with g o(2) show ?thesis using False Some f by (auto simp: cs_ok_def pf_delete_def)
  qed
qed (use assms in simp)

lemma ma_new_ok:
  assumes "owns f g" "f x = None" "ma_new full ctx cur g = (m, g')"
  shows "owns (f(x := Option.bind (Some m) (\<lambda>m. if ma_use_new m then ma_msg m else None))) g'"
    and "\<exists>p. arenas g' \<subseteq> arenas g \<union> (if p = None then {} else {the p}) \<and> (p = None \<or> p = ctx \<or> p = cast_full full cur)"
proof -
  let ?p = "if ctx \<noteq> None then ctx else cast_full full cur"
  show "owns (f(x := Option.bind (Some m) (\<lambda>m. if ma_use_new m then ma_msg m else None))) g'"
    using assms owns_new [OF assms(1,2)] owns_new_arena [OF assms(1)]
    by (cases ?p) (auto simp: ma_new_def new_message_def fun_upd_idem)
  show "\<exists>p. arenas g' \<subseteq> arenas g \<union> (if p = None then {} else {the p}) \<and> (p = None \<or> p = ctx \<or> p = cast_full full cur)"
    using assms(3) arenas_new [OF assms(1)]
    by (intro exI [of _ ?p]) (cases ctx; cases ?p; auto simp: ma_new_def new_message_def)
qed

lemma cs_new_msg_ok:
  assumes "cs_ok arena s" "cs_step arena (NewMsg w ctx cur) s = Some u"
  shows "cs_ok arena u"
proof (cases "\<not> arena \<or> cs_wrap s w \<noteq> None \<or> (case ctx of None \<Rightarrow> False | Some p \<Rightarrow> cs_full s p = None)")
  case False
  obtain m g where m: "ma_new (cs_full s) ctx cur (cs_store s) = (m, g)" by (cases "ma_new (cs_full s) ctx cur (cs_store s)") 
  with False assms(2) have u: "u = s\<lparr>cs_store := g, cs_wrap := (cs_wrap s)(w \<mapsto> m)\<rparr>" by simp
  have o: "owns (own_of arena s) (cs_store s)" "arenas (cs_store s) \<subseteq> dom (cs_full s)" "own_of arena s (Wrapper w) = None"
    using assms(1) False by (auto simp: cs_ok_def)
  have "owns (own_of arena u) g"
    using ma_new_ok(1) [OF o(1,3) m] unfolding u own_of_wrap .
  moreover have "p \<in> dom (cs_full s)" if "Some p = ctx \<or> Some p = cast_full (cs_full s) cur" for p
    using that False by (auto simp: cast_full_def split: option.splits if_splits)
  then have "arenas g \<subseteq> dom (cs_full s)"
    using ma_new_ok(2) [OF o(1,3) m] o(2) by (fastforce split: if_splits)
  ultimately show ?thesis using False by (simp add: cs_ok_def) (simp add: u)
qed (use assms in simp)

lemma cs_move_ok:
  assumes "cs_ok arena s" "cs_step arena (MoveMsg v w) s = Some u"
  shows "cs_ok arena u"
proof (cases "cs_wrap s w = None \<or> cs_wrap s v \<noteq> None")
  case False
  then obtain m where m: "cs_wrap s w = Some m" and v: "cs_wrap s v = None" by auto
  then have u: "u = s\<lparr>cs_wrap := (cs_wrap s)(w \<mapsto> snd (ma_move m), v \<mapsto> fst (ma_move m))\<rparr>"
    using assms(2) by (simp add: split_beta)
  have "own_of arena u x = ((own_of arena s)(Wrapper w := None, Wrapper v := own_of arena s (Wrapper w))) x" for x
    using m v by (cases x) (auto simp: u ma_move_def)
  then have "own_of arena u = (own_of arena s)(Wrapper w := None, Wrapper v := own_of arena s (Wrapper w))" by blast
  moreover have "owns \<dots> (cs_store s)"
    using assms(1) v by (intro owns_move) (simp_all add: cs_ok_def)
  moreover have "cs_store u = cs_store s" "cs_full u = cs_full s" by (simp_all add: u)
  ultimately show ?thesis using assms(1) by (simp only: cs_ok_def)
qed (use assms in \<open>auto split: option.splits\<close>)

lemma cs_del_msg_ok:
  assumes "cs_ok arena s"
  shows "\<exists>u. cs_step arena (DelMsg w) s = Some u \<and> cs_ok arena u"
proof (cases "cs_wrap s w")
  case (Some m)
  have o: "owns (own_of arena s) (cs_store s)" using assms by (simp add: cs_ok_def)
  have d: "ma_delete m (cs_store s) = delete_message (own_of arena s (Wrapper w)) (cs_store s)"
    using Some by (simp add: ma_delete_def delete_message_def)
  from owns_delete [OF o, of "Wrapper w"] obtain g where
    "ma_delete m (cs_store s) = Some g" "owns ((own_of arena s)(Wrapper w := None)) g" "arenas g \<subseteq> arenas (cs_store s)"
    unfolding d by blast
  then show ?thesis using assms Some own_of_wrap [where w = w and m = None] by (auto simp: cs_ok_def)
qed (use assms in simp)

lemma cs_step_ok: "cs_ok arena s \<Longrightarrow> \<exists>u. cs_step arena p s = Some u \<and> cs_ok arena u"
proof (cases p)
  case (NewCtx q t h i)
  assume "cs_ok arena s"
  moreover have "\<exists>u. cs_step arena p s = Some u" using NewCtx by (simp add: split_beta)
  ultimately show ?thesis using NewCtx cs_new_ctx_ok by blast
next
  case (NewMsg w ctx cur)
  assume "cs_ok arena s"
  moreover have "\<exists>u. cs_step arena p s = Some u" using NewMsg by (simp add: split_beta)
  ultimately show ?thesis using NewMsg cs_new_msg_ok by blast
next
  case (MoveMsg v w)
  assume "cs_ok arena s"
  moreover have "\<exists>u. cs_step arena p s = Some u" using MoveMsg by (simp add: split_beta split: option.split)
  ultimately show ?thesis using MoveMsg cs_move_ok by blast
qed (use cs_del_ctx_ok cs_del_msg_ok in blast)+

lemma cs_run_ok: "cs_ok arena s \<Longrightarrow> \<exists>u. cs_run arena ps s = Some u \<and> cs_ok arena u"
proof (induction ps arbitrary: s)
  case (Cons p ps)
  from cs_step_ok [OF Cons.prems, of p] Cons.IH show ?case by fastforce
qed simp

lemma cs_init_ok: "cs_ok arena cs_init"
proof -
  have "own_of arena cs_init = Map.empty"
    by (intro ext) (rename_tac x, case_tac x, simp_all add: cs_init_def)
  then show ?thesis by (simp add: cs_ok_def owns_def arenas_def) (simp add: cs_init_def)
qed

text \<open>When the last context and the last wrapper are gone no message is left.\<close>

lemma cs_no_leak:
  assumes "cs_ok arena s" "cs_full s = Map.empty" "cs_wrap s = Map.empty"
  shows "mg_live (cs_store s) = Map.empty"
proof -
  have "own_of arena s x = None" for x using assms(2,3) by (cases x) simp_all
  then have "ran (own_of arena s) = {}" by (simp add: ran_def)
  then have "mg_live (cs_store s) a \<noteq> Some q" for a q
    using assms by (cases q) (auto simp: cs_ok_def owns_def arenas_def ran_def split: if_splits)
  then show ?thesis by (auto simp: fun_eq_iff) (metis option.exhaust)
qed

text \<open>A wrapper on an arena outlives its context as a dangling pointer, and one that was moved from is null.\<close>

lemma ma_deref_dangling:
  "ma_msg w = Some m \<Longrightarrow> mg_live g m = Some (OnArena p) \<Longrightarrow> ma_deref w (delete_arena p g) = None"
  by (simp add: ma_deref_def delete_arena_def cassert_def)

lemma ma_deref_moved: "ma_deref (snd (ma_move w)) g = None"
  by (simp add: ma_deref_def ma_move_def)

text \<open>The contexts \<^verbatim>\<open>PBService\<close> makes are no \<^verbatim>\<open>PBContextFull\<close>, so a message for the current context of
  a request is made on the heap even where arenas are compiled in.\<close>

lemma ma_new_plain_context:
  assumes "full p = None"
  shows "ma_new full None (Some p) g
    = (\<lparr>ma_msg = Some (mg_next g), ma_use_new = True\<rparr>, snd (new_message Heap g))"
  using assms by (simp add: ma_new_def cast_full_def new_message_def)

section \<open>Properties\<close>

text \<open>C28. Whatever contexts a program makes and destroys and however it makes, moves and drops
  wrappers, with arenas or without, no message is deleted twice and none that belongs to an arena:
  the heap messages that are alive are exactly those a wrapper or a context still has to delete,
  each by one owner, and every other message lies on the arena of a live context.\<close>

theorem cs_messages_owned:
  "\<exists>t. cs_run arena ps cs_init = Some t
    \<and> {a. mg_live (cs_store t) a = Some Heap} = ran (own_of arena t)
    \<and> inj_on (own_of arena t) (dom (own_of arena t))
    \<and> {p. OnArena p \<in> ran (mg_live (cs_store t))} \<subseteq> dom (cs_full t)"
  using cs_run_ok [OF cs_init_ok, of arena ps] by (auto simp: cs_ok_def owns_def arenas_def split: if_splits)

end
