(* ===== verification/UnfixedRingBuf.thy ===== *)
theory UnfixedRingBuf
  imports Prelude "HOL-Library.Word" "HOL-Library.Monad_Syntax"
begin

text \<open>
  \<^verbatim>\<open>src/containers/unfixed_ring_buf.h\<close> over the two data layers of
  \<^verbatim>\<open>src/containers/inner/ring_buf_data.h\<close> (\<^verbatim>\<open>UnfixedRingBufData\<close>): the ring
  buffer of byte strings of any length.  The buffer is a list of bytes; each entry is a header (a flag byte
  and the length, least significant byte first, aligned to its own size) followed by its bytes.  An entry
  never wraps around: what is left at the end of the buffer is an entry with the flag of a padding, or less
  than a header.  A failed assertion and an access outside the buffer are \<^term>\<open>None\<close>.
\<close>

section \<open>Bytes\<close>

fun le_bytes :: "nat \<Rightarrow> nat \<Rightarrow> 8 word list" where
  "le_bytes 0 n = []"
| "le_bytes (Suc w) n = of_nat n # le_bytes w (n div 256)"

fun le_nat :: "8 word list \<Rightarrow> nat" where
  "le_nat [] = 0"
| "le_nat (b # bs) = unat b + 256 * le_nat bs"

lemma length_le_bytes [simp]: "length (le_bytes w n) = w"
  by (induction w arbitrary: n) simp_all

lemma le_nat_bytes: "n < 256 ^ w \<Longrightarrow> le_nat (le_bytes w n) = n"
proof (induction w arbitrary: n)
  case (Suc w)
  then have "n div 256 < 256 ^ w" by (simp add: less_mult_imp_div_less mult.commute)
  with Suc.IH have "le_nat (le_bytes w (n div 256)) = n div 256" .
  then show ?case by (simp add: unat_of_nat)
qed simp

definition rd :: "'a list \<Rightarrow> nat \<Rightarrow> nat \<Rightarrow> 'a list" where
  "rd buf p k = take k (drop p buf)"

definition wr :: "nat \<Rightarrow> 'a list \<Rightarrow> 'a list \<Rightarrow> 'a list" where
  "wr p bs buf = take p buf @ bs @ drop (p + length bs) buf"

lemma length_wr [simp]: "p + length bs \<le> length buf \<Longrightarrow> length (wr p bs buf) = length buf"
  by (simp add: wr_def)

lemma rd_wr_same: "p + length bs \<le> length buf \<Longrightarrow> rd (wr p bs buf) p (length bs) = bs"
  by (simp add: rd_def wr_def)

lemma rd_wr_other:
  assumes "p + length bs \<le> length buf" "q + k \<le> p \<or> p + length bs \<le> q"
  shows "rd (wr p bs buf) q k = rd buf q k"
proof (rule nth_equalityI)
  have nth: "wr p bs buf ! i = buf ! i" if "i < p \<or> p + length bs \<le> i" "i < length buf" for i
    using that assms(1) by (auto simp: wr_def nth_append)
  show "length (rd (wr p bs buf) q k) = length (rd buf q k)" using assms(1) by (simp add: rd_def)
  fix i assume "i < length (rd (wr p bs buf) q k)"
  then have "i < k" "q + i < length buf" using assms(1) by (auto simp: rd_def less_diff_conv)
  then show "rd (wr p bs buf) q k ! i = rd buf q k ! i"
    using assms nth [of "q + i"] by (auto simp: rd_def)
qed

lemma wr_append: "p + length bs + length cs \<le> length buf \<Longrightarrow> wr (p + length bs) cs (wr p bs buf) = wr p (bs @ cs) buf"
  by (simp add: wr_def ac_simps)

section \<open>State\<close>

text \<open>
  \<open>uf_width\<close> is \<^verbatim>\<open>sizeof(IntType)\<close> and \<open>uf_size\<close> is \<^verbatim>\<open>get_size()\<close>: the
  template argument of the compile-time layer, or the \<^verbatim>\<open>m_size\<close> of the shared-memory header.
\<close>

record uring =
  uf_width :: nat
  uf_start :: nat
  uf_end :: nat
  uf_used :: nat
  uf_num :: nat
  uf_size :: nat
  uf_buf :: "8 word list"

definition uf_new :: "nat \<Rightarrow> nat \<Rightarrow> uring" where
  "uf_new width sz = \<lparr>uf_width = width, uf_start = 0, uf_end = 0, uf_used = 0, uf_num = 0, uf_size = sz,
     uf_buf = replicate sz 0\<rparr>"

text \<open>\<^verbatim>\<open>sizeof(ItemHeader)\<close>: the flag is padded to the alignment of the length.\<close>

definition uf_H :: "uring \<Rightarrow> nat" where
  "uf_H r = 2 * uf_width r"

text \<open>The shared-memory layer: a block is the header of five \<^verbatim>\<open>size_t\<close> and the buffer.\<close>

definition uf_head_size :: nat where
  "uf_head_size = 40"

definition uf_need_total_mem_size :: "nat \<Rightarrow> nat" where
  "uf_need_total_mem_size mem_size = uf_head_size + mem_size"

definition uf_init :: "uring option \<Rightarrow> nat \<Rightarrow> bool \<Rightarrow> bool \<times> uring option" where
  "uf_init mem mem_size check =
     (case mem of
        None \<Rightarrow> (False, None)
      | Some r \<Rightarrow>
          if mem_size < uf_head_size then (False, mem)
          else if check then (uf_size r = mem_size - uf_head_size \<and> uf_used r \<le> uf_size r, mem)
          else (True, Some (r\<lparr>uf_start := 0, uf_end := 0, uf_used := 0, uf_num := 0,
                              uf_size := mem_size - uf_head_size\<rparr>)))"

section \<open>Operations\<close>

definition uf_clear :: "uring \<Rightarrow> uring" where
  "uf_clear r = r\<lparr>uf_start := 0, uf_end := 0, uf_used := 0, uf_num := 0\<rparr>"

definition uf_empty :: "uring \<Rightarrow> bool" where
  "uf_empty r \<longleftrightarrow> uf_used r = 0 \<and> uf_size r > 0"

definition uf_full :: "uring \<Rightarrow> bool" where
  "uf_full r \<longleftrightarrow> uf_used r \<ge> uf_size r"

definition uf_bytes :: "uring \<Rightarrow> nat" where
  "uf_bytes r = uf_used r"

definition uf_capacity :: "uring \<Rightarrow> nat" where
  "uf_capacity r = uf_size r"

definition uf_get_num :: "uring \<Rightarrow> nat" where
  "uf_get_num r = uf_num r"

text \<open>Reading and writing a header; both stay inside the buffer.\<close>

definition uf_head :: "uring \<Rightarrow> nat \<Rightarrow> (8 word \<times> nat) option" where
  "uf_head r p = do {
     _ \<leftarrow> cassert (p + uf_H r \<le> uf_size r);
     Some (uf_buf r ! p, le_nat (rd (uf_buf r) (p + uf_width r) (uf_width r))) }"

definition uf_put_head :: "nat \<Rightarrow> 8 word \<Rightarrow> nat \<Rightarrow> uring \<Rightarrow> uring option" where
  "uf_put_head p flag len r = do {
     _ \<leftarrow> cassert (p + uf_H r \<le> uf_size r);
     Some (r\<lparr>uf_buf := wr p [flag] (wr (p + uf_width r) (le_bytes (uf_width r) len) (uf_buf r))\<rparr>) }"

definition uf_need_skip_bytes :: "uring \<Rightarrow> nat \<Rightarrow> nat option" where
  "uf_need_skip_bytes r cur_pos = do {
     _ \<leftarrow> cassert (cur_pos \<le> uf_size r);
     Some (if cur_pos + uf_H r > uf_size r then uf_size r - cur_pos else 0) }"

definition uf_pop_padding :: "uring \<Rightarrow> uring option" where
  "uf_pop_padding r = do {
     _ \<leftarrow> cassert (uf_used r \<ge> uf_H r);
     (flag, len) \<leftarrow> uf_head r (uf_start r);
     Some (if flag = 1
           then r\<lparr>uf_start := (uf_start r + uf_H r + len) mod uf_size r, uf_used := uf_used r - (uf_H r + len)\<rparr>
           else r) }"

definition uf_push_padding :: "uring \<Rightarrow> uring option" where
  "uf_push_padding r = do {
     _ \<leftarrow> cassert (uf_start r \<le> uf_end r);
     r' \<leftarrow> uf_put_head (uf_end r) 1 (uf_size r - uf_end r - uf_H r) r;
     Some (r'\<lparr>uf_used := uf_used r + (uf_size r - uf_end r), uf_end := 0\<rparr>) }"

text \<open>Taking the oldest entry out; the list is what the callback is given.\<close>

definition uf_pop :: "uring \<Rightarrow> (8 word list list \<times> uring) option" where
  "uf_pop r =
     (if uf_empty r then Some ([], r)
      else do {
        _ \<leftarrow> cassert (uf_used r \<ge> uf_H r);
        (flag, len) \<leftarrow> uf_head r (uf_start r);
        _ \<leftarrow> cassert (flag = 0 \<and> uf_start r + uf_H r + len \<le> uf_size r);
        data \<leftarrow> Some (rd (uf_buf r) (uf_start r + uf_H r) len);
        _ \<leftarrow> cassert (uf_used r \<ge> uf_H r + len \<and> uf_num r > 0);
        r \<leftarrow> Some (r\<lparr>uf_start := (uf_start r + uf_H r + len) mod uf_size r,
                     uf_used := uf_used r - (uf_H r + len), uf_num := uf_num r - 1\<rparr>);
        skip \<leftarrow> uf_need_skip_bytes r (uf_start r);
        r \<leftarrow> (if skip > 0 then do {
                _ \<leftarrow> cassert (uf_used r \<ge> skip);
                Some (r\<lparr>uf_start := (uf_start r + skip) mod uf_size r, uf_used := uf_used r - skip\<rparr>) }
              else if \<not> uf_empty r then uf_pop_padding r else Some r);
        Some ([data], if uf_empty r then r\<lparr>uf_start := 0, uf_end := 0\<rparr> else r) })"

text \<open>Copying the parts of an entry after its header.\<close>

fun uf_copy :: "nat \<Rightarrow> 8 word list list \<Rightarrow> uring \<Rightarrow> uring option" where
  "uf_copy begin [] r = Some r"
| "uf_copy begin (v # iov) r = do {
     _ \<leftarrow> cassert (begin + length v \<le> uf_size r);
     uf_copy (begin + length v) iov (r\<lparr>uf_buf := wr begin v (uf_buf r)\<rparr>) }"

definition uf_write_item_no_wrap :: "8 word list list \<Rightarrow> nat \<Rightarrow> nat \<Rightarrow> uring \<Rightarrow> uring option" where
  "uf_write_item_no_wrap iov total_len need_len r = do {
     r' \<leftarrow> uf_put_head (uf_end r) 0 total_len r;
     r' \<leftarrow> uf_copy (uf_end r + uf_H r) iov r';
     Some (r'\<lparr>uf_end := uf_end r + need_len, uf_used := uf_used r + need_len, uf_num := uf_num r + 1\<rparr>) }"

definition uf_write_item :: "8 word list list \<Rightarrow> nat \<Rightarrow> nat \<Rightarrow> uring \<Rightarrow> uring option" where
  "uf_write_item iov total_len need_len r = do {
     r' \<leftarrow> uf_put_head (uf_end r) 0 total_len r;
     r' \<leftarrow> uf_copy (uf_end r + uf_H r) iov r';
     r' \<leftarrow> Some (r'\<lparr>uf_end := (uf_end r + need_len) mod uf_size r, uf_used := uf_used r + need_len,
                    uf_num := uf_num r + 1\<rparr>);
     skip \<leftarrow> uf_need_skip_bytes r' (uf_end r');
     Some (r'\<lparr>uf_end := (uf_end r' + skip) mod uf_size r', uf_used := uf_used r' + skip\<rparr>) }"

text \<open>\<^verbatim>\<open>while (cond) pop(cb)\<close>, with what the callback is given.\<close>

partial_function (option) uf_pop_while ::
  "(uring \<Rightarrow> bool) \<Rightarrow> uring \<Rightarrow> (8 word list list \<times> uring) option" where
  "uf_pop_while cond r =
     (if cond r then do {
        (l, r) \<leftarrow> uf_pop r;
        (ls, r) \<leftarrow> uf_pop_while cond r;
        Some (l @ ls, r) }
      else Some ([], r))"

declare uf_pop_while.simps [code]

partial_function (option) uf_push_impl ::
  "8 word list list \<Rightarrow> nat \<Rightarrow> nat \<Rightarrow> bool \<Rightarrow> uring \<Rightarrow> (bool \<times> 8 word list list \<times> uring) option" where
  "uf_push_impl iov total_len need_len over_write r =
     (if uf_full r \<and> \<not> over_write then Some (False, [], r)
      else do {
        (l0, r) \<leftarrow> (if uf_full r then uf_pop r else Some ([], r));
        if uf_end r \<ge> uf_start r then
          if uf_end r + need_len \<le> uf_size r then do {
            r \<leftarrow> uf_write_item iov total_len need_len r;
            Some (True, l0, r) }
          else if \<not> over_write \<and> uf_start r < need_len then Some (False, l0, r)
          else do {
            r \<leftarrow> uf_push_padding r;
            (l1, r) \<leftarrow> (if over_write then uf_pop_while (\<lambda>r. \<not> uf_empty r \<and> uf_start r < need_len) r else Some ([], r));
            (ok, l2, r) \<leftarrow> uf_push_impl iov total_len need_len over_write r;
            Some (ok, l0 @ l1 @ l2, r) }
        else if uf_end r + need_len \<le> uf_start r then do {
          r \<leftarrow> uf_write_item_no_wrap iov total_len need_len r;
          Some (True, l0, r) }
        else if \<not> over_write then Some (False, l0, r)
        else if uf_end r + need_len \<le> uf_size r then do {
          (l1, r) \<leftarrow> uf_pop_while (\<lambda>r. uf_end r < uf_start r \<and> uf_end r + need_len > uf_start r) r;
          (ok, l2, r) \<leftarrow> uf_push_impl iov total_len need_len over_write r;
          Some (ok, l0 @ l1 @ l2, r) }
        else do {
          (l1, r) \<leftarrow> uf_pop r;
          (l2, r) \<leftarrow> uf_pop_while (\<lambda>r. uf_end r < uf_start r) r;
          r \<leftarrow> uf_push_padding r;
          _ \<leftarrow> cassert (uf_full r);
          (ok, l3, r) \<leftarrow> uf_push_impl iov total_len need_len over_write r;
          Some (ok, l0 @ l1 @ l2 @ l3, r) } })"

declare uf_push_impl.simps [code]

definition uf_push_iov :: "8 word list list \<Rightarrow> bool \<Rightarrow> uring \<Rightarrow> (bool \<times> 8 word list list \<times> uring) option" where
  "uf_push_iov iov over_write r =
     (let total_len = sum_list (map length iov); need_len = total_len + uf_H r
      in if need_len > uf_size r then Some (False, [], r)
         else uf_push_impl iov total_len need_len over_write r)"

definition uf_push :: "8 word list \<Rightarrow> bool \<Rightarrow> uring \<Rightarrow> (bool \<times> 8 word list list \<times> uring) option" where
  "uf_push data over_write r = uf_push_iov [data] over_write r"

text \<open>The header of the entry at \<open>index\<close>; \<^verbatim>\<open>get_size()\<close> stands for none.\<close>

fun uf_find_loop :: "uring \<Rightarrow> nat \<Rightarrow> nat \<Rightarrow> nat option" where
  "uf_find_loop r 0 item_start = Some item_start"
| "uf_find_loop r (Suc n) item_start = do {
     (flag, len) \<leftarrow> uf_head r item_start;
     item_start \<leftarrow> Some ((item_start + uf_H r + len) mod uf_size r);
     skip \<leftarrow> uf_need_skip_bytes r item_start;
     item_start \<leftarrow>
       (if skip > 0 then Some ((item_start + skip) mod uf_size r)
        else if item_start \<noteq> uf_end r then do {
          (flag, len) \<leftarrow> uf_head r item_start;
          Some (if flag = 1 then (item_start + uf_H r + len) mod uf_size r else item_start) }
        else Some item_start);
     if item_start = uf_end r then Some (uf_size r) else uf_find_loop r n item_start }"

definition uf_find_start :: "uring \<Rightarrow> nat \<Rightarrow> nat option" where
  "uf_find_start r index =
     (if uf_empty r \<or> index \<ge> uf_num r then Some (uf_size r)
      else if index = 0 then Some (uf_start r)
      else uf_find_loop r index (uf_start r))"

definition uf_front :: "uring \<Rightarrow> nat \<Rightarrow> 8 word list option option" where
  "uf_front r index = do {
     item_start \<leftarrow> uf_find_start r index;
     if item_start = uf_size r then Some None
     else do {
       (flag, len) \<leftarrow> uf_head r item_start;
       _ \<leftarrow> cassert (item_start + uf_H r + len \<le> uf_size r);
       Some (Some (rd (uf_buf r) (item_start + uf_H r) len)) } }"

section \<open>The entries of a buffer\<close>

definition uf_wf :: "uring \<Rightarrow> bool" where
  "uf_wf r \<longleftrightarrow> 0 < uf_width r \<and> 0 < uf_size r \<and> uf_size r < 256 ^ uf_width r \<and> length (uf_buf r) = uf_size r"

text \<open>From \<open>a\<close> to \<open>b\<close> lie the entries \<open>xs\<close>.\<close>

fun uf_seg :: "uring \<Rightarrow> nat \<Rightarrow> 8 word list list \<Rightarrow> nat \<Rightarrow> bool" where
  "uf_seg r a [] b \<longleftrightarrow> a = b"
| "uf_seg r a (x # xs) b \<longleftrightarrow> uf_head r a = Some (0, length x) \<and> a + uf_H r + length x \<le> uf_size r
     \<and> rd (uf_buf r) (a + uf_H r) (length x) = x \<and> uf_seg r (a + uf_H r + length x) xs b"

text \<open>Behind the last entry before the end of the buffer: less than a header, or a padding.\<close>

definition uf_tail :: "uring \<Rightarrow> nat \<Rightarrow> bool" where
  "uf_tail r e \<longleftrightarrow> e \<le> uf_size r \<and> (e + uf_H r \<le> uf_size r \<longrightarrow> uf_head r e = Some (1, uf_size r - e - uf_H r))"

text \<open>The entries from \<open>s\<close> on, in one piece or in two.\<close>

definition uf_lin :: "uring \<Rightarrow> nat \<Rightarrow> 8 word list list \<Rightarrow> bool" where
  "uf_lin r s xs \<longleftrightarrow> xs \<noteq> [] \<and> uf_seg r s xs (uf_end r) \<and> uf_end r + uf_H r \<le> uf_size r"

definition uf_wrap :: "uring \<Rightarrow> nat \<Rightarrow> 8 word list list \<Rightarrow> bool" where
  "uf_wrap r s xs \<longleftrightarrow> (\<exists>ys zs e. xs = ys @ zs \<and> ys \<noteq> [] \<and> uf_seg r s ys e \<and> uf_tail r e
     \<and> uf_seg r 0 zs (uf_end r) \<and> uf_end r \<le> s)"

definition uf_inv :: "uring \<Rightarrow> 8 word list list \<Rightarrow> bool" where
  "uf_inv r xs \<longleftrightarrow> uf_wf r \<and> uf_num r = length xs
     \<and> (if xs = [] then uf_start r = 0 \<and> uf_end r = 0 \<and> uf_used r = 0
        else uf_lin r (uf_start r) xs \<and> uf_used r = uf_end r - uf_start r
          \<or> uf_wrap r (uf_start r) xs \<and> uf_used r = uf_size r - uf_start r + uf_end r)"

lemma uf_H_pos: "uf_wf r \<Longrightarrow> 0 < uf_H r"
  by (simp add: uf_wf_def uf_H_def)

lemma uf_seg_bounds: "uf_seg r a xs b \<Longrightarrow> a + length xs * uf_H r \<le> b \<and> (xs \<noteq> [] \<longrightarrow> b \<le> uf_size r \<and> a + uf_H r \<le> uf_size r)"
proof (induction xs arbitrary: a)
  case (Cons x xs)
  then have "uf_seg r (a + uf_H r + length x) xs b" "a + uf_H r + length x \<le> uf_size r" by simp_all
  with Cons.IH [of "a + uf_H r + length x"] show ?case by (cases xs) auto
qed simp

lemma uf_seg_append: "uf_seg r a (xs @ ys) b \<longleftrightarrow> (\<exists>m. uf_seg r a xs m \<and> uf_seg r m ys b)"
  by (induction xs arbitrary: a) auto

lemma uf_seg_nonempty: "uf_wf r \<Longrightarrow> uf_seg r a xs b \<Longrightarrow> xs \<noteq> [] \<Longrightarrow> a + uf_H r \<le> b"
  using uf_seg_bounds [of r a xs b] by (cases xs) auto

lemma uf_seg_same: "uf_wf r \<Longrightarrow> uf_seg r a xs a \<Longrightarrow> xs = []"
  using uf_seg_nonempty [of r a xs a] uf_H_pos [of r] by force

text \<open>The part of the buffer an entry depends on.\<close>

definition uf_agree :: "uring \<Rightarrow> uring \<Rightarrow> nat \<Rightarrow> nat \<Rightarrow> bool" where
  "uf_agree r r' a b \<longleftrightarrow> uf_width r' = uf_width r \<and> uf_size r' = uf_size r
     \<and> (\<forall>q k. a \<le> q \<and> q + k \<le> b \<longrightarrow> rd (uf_buf r') q k = rd (uf_buf r) q k)"

lemma uf_agree_H: "uf_agree r r' a b \<Longrightarrow> uf_H r' = uf_H r"
  by (simp add: uf_agree_def uf_H_def)

lemma uf_head_agree:
  assumes "uf_wf r" "uf_wf r'" "uf_agree r r' a b" "a \<le> p" "p + uf_H r \<le> b"
  shows "uf_head r' p = uf_head r p"
proof (cases "p + uf_H r \<le> uf_size r")
  case True
  have "rd (uf_buf r') p 1 = rd (uf_buf r) p 1" "rd (uf_buf r') (p + uf_width r) (uf_width r) = rd (uf_buf r) (p + uf_width r) (uf_width r)"
    using assms(3-5) uf_H_pos [OF assms(1)] by (simp_all add: uf_agree_def uf_H_def)
  moreover have "p < length (uf_buf r)" "p < length (uf_buf r')"
    using True assms(1,2,3) uf_H_pos [OF assms(1)] by (simp_all add: uf_wf_def uf_agree_def)
  ultimately have "uf_buf r' ! p = uf_buf r ! p" by (simp add: rd_def take_Suc_conv_app_nth)
  with \<open>rd (uf_buf r') (p + _) _ = _\<close> assms(3) uf_agree_H [OF assms(3)] show ?thesis
    by (simp add: uf_head_def uf_agree_def)
next
  case False
  with assms(3) uf_agree_H [OF assms(3)] show ?thesis by (simp add: uf_head_def uf_agree_def cassert_def)
qed

lemma uf_seg_agree:
  assumes "uf_wf r" "uf_wf r'" "uf_agree r r' a b" "uf_seg r a xs b"
  shows "uf_seg r' a xs b"
  using assms(3,4)
proof (induction xs arbitrary: a)
  case (Cons x xs)
  let ?a = "a + uf_H r + length x"
  have H: "uf_H r' = uf_H r" "uf_size r' = uf_size r" using Cons.prems(1) by (simp_all add: uf_agree_def uf_H_def)
  have b: "?a \<le> b" using uf_seg_bounds [of r ?a xs b] Cons.prems(2) by simp
  have "uf_head r' a = uf_head r a" by (rule uf_head_agree [OF assms(1,2) Cons.prems(1)]) (use b in auto)
  moreover have "rd (uf_buf r') (a + uf_H r) (length x) = rd (uf_buf r) (a + uf_H r) (length x)"
    using Cons.prems(1) b by (simp add: uf_agree_def)
  moreover have "uf_agree r r' ?a b" using Cons.prems(1) by (simp add: uf_agree_def)
  ultimately show ?case using Cons.IH [of ?a] Cons.prems(2) H by simp
qed simp

text \<open>Changing the indices leaves the entries.\<close>

lemma uf_seg_cong: "uf_width r' = uf_width r \<Longrightarrow> uf_size r' = uf_size r \<Longrightarrow> uf_buf r' = uf_buf r \<Longrightarrow> uf_seg r' a xs b = uf_seg r a xs b"
  by (induction xs arbitrary: a) (simp_all add: uf_head_def uf_H_def)

lemma uf_cong:
  assumes "uf_width r' = uf_width r" "uf_size r' = uf_size r" "uf_buf r' = uf_buf r"
  shows "uf_H r' = uf_H r" "uf_wf r' = uf_wf r" "uf_head r' = uf_head r" "uf_seg r' = uf_seg r" "uf_tail r' = uf_tail r"
    "uf_end r' = uf_end r \<Longrightarrow> uf_lin r' = uf_lin r" "uf_end r' = uf_end r \<Longrightarrow> uf_wrap r' = uf_wrap r"
  using assms uf_seg_cong [OF assms]
  by (auto simp: fun_eq_iff uf_H_def uf_wf_def uf_head_def uf_tail_def uf_lin_def uf_wrap_def)

text \<open>One entry further.\<close>

lemma uf_lin_next:
  assumes "uf_wf r" "uf_lin r s (x # xs)"
  shows "uf_head r s = Some (0, length x)" "rd (uf_buf r) (s + uf_H r) (length x) = x"
    "s + uf_H r + length x \<le> uf_end r" "uf_end r + uf_H r \<le> uf_size r"
    "if xs = [] then s + uf_H r + length x = uf_end r
     else uf_lin r (s + uf_H r + length x) xs \<and> s + uf_H r + length x < uf_end r
       \<and> (\<exists>n. uf_head r (s + uf_H r + length x) = Some (0, n))"
proof -
  let ?p = "s + uf_H r + length x"
  from assms(2) have seg: "uf_head r s = Some (0, length x)" "rd (uf_buf r) (s + uf_H r) (length x) = x"
    "uf_seg r ?p xs (uf_end r)" "uf_end r + uf_H r \<le> uf_size r" by (auto simp: uf_lin_def)
  show "uf_head r s = Some (0, length x)" "rd (uf_buf r) (s + uf_H r) (length x) = x"
    "uf_end r + uf_H r \<le> uf_size r" "?p \<le> uf_end r" using seg uf_seg_bounds [OF seg(3)] by simp_all
  show "if xs = [] then ?p = uf_end r
     else uf_lin r ?p xs \<and> ?p < uf_end r \<and> (\<exists>n. uf_head r ?p = Some (0, n))"
    using seg(3,4) uf_seg_nonempty [OF assms(1) seg(3)] uf_H_pos [OF assms(1)] by (cases xs) (auto simp: uf_lin_def)
qed

lemma uf_wrap_next:
  assumes "uf_wf r" "uf_wrap r s (x # xs)"
  shows "uf_head r s = Some (0, length x)" "rd (uf_buf r) (s + uf_H r) (length x) = x"
    "s + uf_H r + length x \<le> uf_size r" "uf_end r \<le> s"
    "uf_wrap r (s + uf_H r + length x) xs \<and> s + uf_H r + length x + uf_H r \<le> uf_size r
       \<and> (\<exists>n. uf_head r (s + uf_H r + length x) = Some (0, n))
     \<or> uf_tail r (s + uf_H r + length x) \<and> (if xs = [] then uf_end r = 0 else uf_lin r 0 xs)"
proof -
  let ?p = "s + uf_H r + length x"
  from assms(2) obtain ys zs e where y: "x # xs = ys @ zs" "ys \<noteq> []" "uf_seg r s ys e" "uf_tail r e"
    "uf_seg r 0 zs (uf_end r)" "uf_end r \<le> s" unfolding uf_wrap_def by blast
  then obtain ys' where ys: "ys = x # ys'" "xs = ys' @ zs" by (cases ys) auto
  with y(3) have seg: "uf_head r s = Some (0, length x)" "?p \<le> uf_size r" "rd (uf_buf r) (s + uf_H r) (length x) = x"
    "uf_seg r ?p ys' e" by simp_all
  then show "uf_head r s = Some (0, length x)" "rd (uf_buf r) (s + uf_H r) (length x) = x" "?p \<le> uf_size r"
    "uf_end r \<le> s" using y(6) by simp_all
  have s: "s + uf_H r \<le> uf_size r" using seg(2) by simp
  show "uf_wrap r ?p xs \<and> ?p + uf_H r \<le> uf_size r \<and> (\<exists>n. uf_head r ?p = Some (0, n))
     \<or> uf_tail r ?p \<and> (if xs = [] then uf_end r = 0 else uf_lin r 0 xs)"
  proof (cases ys')
    case Nil
    with seg(4) y(4-6) ys s show ?thesis by (auto simp: uf_lin_def)
  next
    case (Cons x' ys'')
    then have "uf_wrap r ?p xs" unfolding uf_wrap_def
      using ys(2) seg(4) y(4-6) by (intro exI [of _ ys'] exI [of _ zs] exI [of _ e]) auto
    with Cons seg(4) show ?thesis by auto
  qed
qed

section \<open>Taking an entry out\<close>

lemma uf_invD:
  assumes "uf_inv r xs" "xs \<noteq> []"
  shows "uf_wf r" "uf_num r = length xs" "0 < uf_num r"
    "uf_lin r (uf_start r) xs \<and> uf_used r = uf_end r - uf_start r
      \<or> uf_wrap r (uf_start r) xs \<and> uf_used r = uf_size r - uf_start r + uf_end r"
  using assms by (auto simp: uf_inv_def)

text \<open>The part of \<^verbatim>\<open>pop\<close> after the entry is taken off.\<close>

definition uf_pop_rest :: "uring \<Rightarrow> uring option" where
  "uf_pop_rest r = do {
     skip \<leftarrow> uf_need_skip_bytes r (uf_start r);
     r \<leftarrow> (if skip > 0 then do {
             _ \<leftarrow> cassert (uf_used r \<ge> skip);
             Some (r\<lparr>uf_start := (uf_start r + skip) mod uf_size r, uf_used := uf_used r - skip\<rparr>) }
           else if \<not> uf_empty r then uf_pop_padding r else Some r);
     Some (if uf_empty r then r\<lparr>uf_start := 0, uf_end := 0\<rparr> else r) }"

lemma uf_pop_unfold:
  assumes "uf_used r \<ge> uf_H r + length x" "0 < uf_H r" "uf_head r (uf_start r) = Some (0, length x)"
    "rd (uf_buf r) (uf_start r + uf_H r) (length x) = x" "uf_start r + uf_H r + length x \<le> uf_size r" "0 < uf_num r"
  shows "uf_pop r = map_option (Pair [x]) (uf_pop_rest (r\<lparr>uf_start := (uf_start r + uf_H r + length x) mod uf_size r,
      uf_used := uf_used r - (uf_H r + length x), uf_num := uf_num r - 1\<rparr>))"
  using assms by (auto simp: uf_pop_def uf_pop_rest_def uf_empty_def map_conv_bind_option intro!: Option.bind_cong)

lemma uf_pop_rest_stay:
  assumes "uf_start r + uf_H r \<le> uf_size r" "uf_H r \<le> uf_used r" "0 < uf_used r"
    "uf_head r (uf_start r) = Some (0, n)"
  shows "uf_pop_rest r = Some r"
  using assms by (simp add: uf_pop_rest_def uf_need_skip_bytes_def uf_empty_def uf_pop_padding_def)

lemma uf_pop_rest_last:
  assumes "uf_start r + uf_H r \<le> uf_size r" "uf_used r = 0" "0 < uf_size r"
  shows "uf_pop_rest r = Some (r\<lparr>uf_start := 0, uf_end := 0\<rparr>)"
  using assms by (simp add: uf_pop_rest_def uf_need_skip_bytes_def uf_empty_def)

text \<open>At the end of the buffer, popping goes on at its beginning.\<close>

lemma uf_pop_rest_tail:
  assumes "uf_wf r" "uf_tail r p" "uf_start r = p mod uf_size r" "uf_used r = uf_size r - p + uf_end r" "uf_H r \<le> uf_size r"
    "if xs = [] then uf_end r = 0 else uf_lin r 0 xs"
  shows "uf_pop_rest r = Some (r\<lparr>uf_start := 0, uf_used := uf_end r\<rparr>)"
proof -
  have p: "p \<le> uf_size r" "0 < uf_size r" using assms(1,2) by (simp_all add: uf_tail_def uf_wf_def)
  have zs: "uf_end r > 0 \<Longrightarrow> uf_H r \<le> uf_end r \<and> (\<exists>n. uf_head r 0 = Some (0, n))"
    using assms(6) uf_seg_nonempty [OF assms(1), of 0 xs "uf_end r"] by (cases xs) (auto simp: uf_lin_def)
  consider "p = uf_size r" | "p < uf_size r" "uf_size r < p + uf_H r" | "p < uf_size r" "p + uf_H r \<le> uf_size r"
    using p by linarith
  then show ?thesis
  proof cases
    case 1
    with assms(3,4) p have "r\<lparr>uf_start := 0, uf_used := uf_end r\<rparr> = r" "uf_start r = 0" "uf_used r = uf_end r" by simp_all
    with assms(5) zs p uf_pop_rest_last [of r] uf_pop_rest_stay [of r] show ?thesis by (cases "uf_end r = 0") auto
  next
    case 2
    with assms(3,4) p show ?thesis
      by (simp add: uf_pop_rest_def uf_need_skip_bytes_def uf_empty_def cassert_def)
  next
    case 3
    with assms(2) have "uf_head r p = Some (1, uf_size r - p - uf_H r)" by (simp add: uf_tail_def)
    with 3 assms(3,4) p show ?thesis
      by (simp add: uf_pop_rest_def uf_need_skip_bytes_def uf_empty_def uf_pop_padding_def cassert_def)
  qed
qed

lemma uf_pop_step:
  assumes "uf_inv r (x # xs)"
  shows "\<exists>r'. uf_pop r = Some ([x], r') \<and> uf_inv r' xs \<and> uf_width r' = uf_width r \<and> uf_size r' = uf_size r
    \<and> uf_end r' = (if xs = [] then 0 else uf_end r) \<and> uf_used r' < uf_used r
    \<and> (uf_wrap r (uf_start r) (x # xs) \<longrightarrow> uf_wrap r' (uf_start r') xs \<or> uf_start r' = 0)"
proof -
  let ?s = "uf_start r" and ?H = "uf_H r" and ?p = "uf_start r + uf_H r + length x"
  note inv = uf_invD [OF assms, simplified]
  note wf = inv(1) and H = uf_H_pos [OF inv(1)]
  let ?r = "r\<lparr>uf_start := ?p mod uf_size r, uf_used := uf_used r - (?H + length x), uf_num := uf_num r - 1\<rparr>"
  have cong: "uf_H ?r = ?H" "uf_wf ?r" "uf_head ?r = uf_head r" "uf_tail ?r = uf_tail r" "uf_lin ?r = uf_lin r"
    "uf_wrap ?r = uf_wrap r" using wf uf_cong [of ?r r] by simp_all
  from inv(4) show ?thesis
  proof
    assume l: "uf_lin r ?s (x # xs) \<and> uf_used r = uf_end r - ?s"
    note nxt = uf_lin_next [OF wf conjunct1 [OF l]]
    have p: "?p mod uf_size r = ?p" using nxt(3,4) H by simp
    have used: "uf_used ?r = uf_end r - ?p" using l by simp
    have pop: "uf_pop r = map_option (Pair [x]) (uf_pop_rest ?r)"
      by (rule uf_pop_unfold) (use nxt l H inv(3) in auto)
    show ?thesis
    proof (cases "xs = []")
      case True
      have "uf_pop_rest ?r = Some (?r\<lparr>uf_start := 0, uf_end := 0\<rparr>)"
        by (rule uf_pop_rest_last) (use True nxt used cong p wf in \<open>auto simp: uf_wf_def\<close>)
      with pop have "uf_pop r = Some ([x], ?r\<lparr>uf_start := 0, uf_end := 0\<rparr>)" by simp
      with True wf used nxt inv(2) l H show ?thesis using uf_cong [of "?r\<lparr>uf_start := 0, uf_end := 0\<rparr>" r]
        by (simp add: uf_inv_def)
    next
      case False
      with nxt(5) obtain n where n: "uf_lin r ?p xs" "?p < uf_end r" "uf_head r ?p = Some (0, n)" by auto
      have "?p + ?H \<le> uf_end r" using uf_seg_nonempty [OF wf _ False] n(1) by (simp add: uf_lin_def)
      then have "uf_pop_rest ?r = Some ?r"
        by (intro uf_pop_rest_stay [of _ n]) (use nxt n used cong p in auto)
      with pop have "uf_pop r = Some ([x], ?r)" by simp
      moreover have "uf_inv ?r xs" using False cong n(1) used p inv(2) by (simp add: uf_inv_def)
      moreover have "\<not> uf_wrap r ?s (x # xs)" using nxt(3) H by (auto simp: uf_wrap_def)
      ultimately show ?thesis using False n(2) l H by simp
    qed
  next
    assume l: "uf_wrap r ?s (x # xs) \<and> uf_used r = uf_size r - ?s + uf_end r"
    note nxt = uf_wrap_next [OF wf conjunct1 [OF l]]
    have used: "uf_used ?r = uf_size r - ?p + uf_end r" using l nxt(3) by simp
    have pop: "uf_pop r = map_option (Pair [x]) (uf_pop_rest ?r)"
      by (rule uf_pop_unfold) (use nxt l H inv(3) in auto)
    have less: "uf_size r - ?p + uf_end r < uf_used r" using l nxt(3) H by simp
    from nxt(5) show ?thesis
    proof
      assume a: "uf_wrap r ?p xs \<and> ?p + ?H \<le> uf_size r \<and> (\<exists>n. uf_head r ?p = Some (0, n))"
      then have p: "?p mod uf_size r = ?p" using H by simp
      from a obtain n where n: "uf_head r ?p = Some (0, n)" by blast
      have "uf_pop_rest ?r = Some ?r"
        by (rule uf_pop_rest_stay [of _ n]) (use a n used cong p H in auto)
      with pop have "uf_pop r = Some ([x], ?r)" by simp
      moreover have ne: "xs \<noteq> []" using a by (auto simp: uf_wrap_def)
      moreover have "uf_inv ?r xs" using ne cong a used p inv(2) by (simp add: uf_inv_def)
      ultimately show ?thesis using a p cong less used by simp
    next
      assume a: "uf_tail r ?p \<and> (if xs = [] then uf_end r = 0 else uf_lin r 0 xs)"
      have "uf_pop_rest ?r = Some (?r\<lparr>uf_start := 0, uf_used := uf_end r\<rparr>)"
        using uf_pop_rest_tail [of ?r ?p xs] a used cong nxt(3) by simp
      with pop have "uf_pop r = Some ([x], ?r\<lparr>uf_start := 0, uf_used := uf_end r\<rparr>)" by simp
      moreover have "uf_inv (?r\<lparr>uf_start := 0, uf_used := uf_end r\<rparr>) xs"
        using a inv(2) wf uf_cong [of "?r\<lparr>uf_start := 0, uf_used := uf_end r\<rparr>" r] by (simp add: uf_inv_def)
      ultimately show ?thesis using a l nxt(3) H by (auto split: if_splits)
    qed
  qed
qed

lemma uf_pop_empty: "uf_inv r [] \<Longrightarrow> uf_pop r = Some ([], r)"
  by (simp add: uf_inv_def uf_pop_def uf_empty_def uf_wf_def)

lemma uf_empty_iff: "uf_inv r xs \<Longrightarrow> uf_empty r \<longleftrightarrow> xs = []"
proof -
  assume i: "uf_inv r xs"
  have "0 < uf_used r" if ne: "xs \<noteq> []"
  proof -
    note inv = uf_invD [OF i ne]
    note H = uf_H_pos [OF inv(1)]
    from inv(4) show ?thesis
    proof
      assume "uf_lin r (uf_start r) xs \<and> uf_used r = uf_end r - uf_start r"
      then show ?thesis using uf_seg_nonempty [OF inv(1) _ ne] H by (fastforce simp: uf_lin_def)
    next
      assume w: "uf_wrap r (uf_start r) xs \<and> uf_used r = uf_size r - uf_start r + uf_end r"
      then obtain ys e where "uf_seg r (uf_start r) ys e" "ys \<noteq> []" by (auto simp: uf_wrap_def)
      with uf_seg_bounds [of r "uf_start r" ys e] w H show ?thesis by auto
    qed
  qed
  with i show ?thesis by (cases "xs = []") (auto simp: uf_inv_def uf_empty_def uf_wf_def)
qed

section \<open>Writing an entry\<close>

definition uf_frame :: "uring \<Rightarrow> 8 word list \<Rightarrow> nat \<Rightarrow> nat \<Rightarrow> bool" where
  "uf_frame r buf a b \<longleftrightarrow> length buf = uf_size r
     \<and> (\<forall>q k. q + k \<le> a \<or> b \<le> q \<longrightarrow> rd buf q k = rd (uf_buf r) q k)"

lemma uf_frame_agree:
  assumes "uf_frame r buf a b" "d \<le> a \<or> b \<le> c"
  shows "uf_agree r (r\<lparr>uf_buf := buf\<rparr>) c d"
  using assms by (auto simp: uf_frame_def uf_agree_def)

lemma uf_frame_wf: "uf_wf r \<Longrightarrow> uf_frame r buf a b \<Longrightarrow> uf_wf (r\<lparr>uf_buf := buf\<rparr>)"
  by (simp add: uf_wf_def uf_frame_def)

lemma uf_H_update [simp]:
  "uf_H (r\<lparr>uf_buf := b\<rparr>) = uf_H r" "uf_H (r\<lparr>uf_start := n\<rparr>) = uf_H r" "uf_H (r\<lparr>uf_end := n\<rparr>) = uf_H r"
  "uf_H (r\<lparr>uf_used := n\<rparr>) = uf_H r" "uf_H (r\<lparr>uf_num := n\<rparr>) = uf_H r"
  by (simp_all add: uf_H_def)

lemma uf_put_head_result:
  assumes "uf_wf r" "p + uf_H r \<le> uf_size r" "len < uf_size r"
  shows "\<exists>buf. uf_put_head p flag len r = Some (r\<lparr>uf_buf := buf\<rparr>) \<and> uf_frame r buf p (p + uf_H r)
    \<and> uf_head (r\<lparr>uf_buf := buf\<rparr>) p = Some (flag, len)"
proof -
  let ?w = "uf_width r" and ?b = "uf_buf r"
  let ?b1 = "wr (p + ?w) (le_bytes ?w len) ?b"
  let ?b2 = "wr p [flag] ?b1"
  have w: "0 < ?w" "len < 256 ^ ?w" "length ?b = uf_size r" "p + 2 * ?w \<le> length ?b"
    using assms by (simp_all add: uf_wf_def uf_H_def)
  have l1: "length ?b1 = length ?b" using w by simp
  have l2: "length ?b2 = length ?b" using w l1 by simp
  have "rd ?b2 q k = rd ?b q k" if "q + k \<le> p \<or> p + uf_H r \<le> q" for q k
  proof -
    have "rd ?b2 q k = rd ?b1 q k" using that w l1 by (intro rd_wr_other) (auto simp: uf_H_def)
    also have "\<dots> = rd ?b q k" using that w by (intro rd_wr_other) (auto simp: uf_H_def)
    finally show ?thesis .
  qed
  then have frame: "uf_frame r ?b2 p (p + uf_H r)" using l2 w(3) unfolding uf_frame_def by simp
  have "rd ?b2 (p + ?w) ?w = rd ?b1 (p + ?w) ?w" using w l1 by (intro rd_wr_other) auto
  also have "\<dots> = le_bytes ?w len" using rd_wr_same [of "p + ?w" "le_bytes ?w len" ?b] w by simp
  finally have "le_nat (rd ?b2 (p + ?w) ?w) = len" using le_nat_bytes w(2) by simp
  moreover have "?b2 ! p = flag" using w l1 by (simp add: wr_def nth_append)
  ultimately have "uf_head (r\<lparr>uf_buf := ?b2\<rparr>) p = Some (flag, len)" using assms(2) by (simp add: uf_head_def uf_H_def)
  with frame assms(2) show ?thesis unfolding uf_put_head_def by (intro exI [of _ ?b2]) simp
qed

lemma uf_copy_result:
  "length (uf_buf r) = uf_size r \<Longrightarrow> p + length (concat iov) \<le> uf_size r \<Longrightarrow>
    uf_copy p iov r = Some (r\<lparr>uf_buf := wr p (concat iov) (uf_buf r)\<rparr>)"
proof (induction iov arbitrary: p r)
  case Nil
  then show ?case by (simp add: wr_def)
next
  case (Cons v iov)
  then show ?case by (simp add: wr_append)
qed

lemma uf_store_result:
  assumes "uf_wf r" "p + (uf_H r + length (concat iov)) \<le> uf_size r"
  shows "\<exists>buf. do { r' \<leftarrow> uf_put_head p 0 (length (concat iov)) r; uf_copy (p + uf_H r) iov r' } = Some (r\<lparr>uf_buf := buf\<rparr>)
    \<and> uf_frame r buf p (p + (uf_H r + length (concat iov)))
    \<and> uf_seg (r\<lparr>uf_buf := buf\<rparr>) p [concat iov] (p + (uf_H r + length (concat iov)))"
proof -
  let ?d = "concat iov"
  have len: "length ?d < uf_size r" using assms uf_H_pos [OF assms(1)] by simp
  obtain b where b: "uf_put_head p 0 (length ?d) r = Some (r\<lparr>uf_buf := b\<rparr>)" "uf_frame r b p (p + uf_H r)"
    "uf_head (r\<lparr>uf_buf := b\<rparr>) p = Some (0, length ?d)"
    using uf_put_head_result [OF assms(1) _ len, of p 0] assms(2) by auto
  let ?r = "r\<lparr>uf_buf := b\<rparr>"
  have wf: "uf_wf ?r" and lb: "length b = uf_size r" using uf_frame_wf [OF assms(1) b(2)] b(2) by (simp_all add: uf_frame_def)
  let ?b = "wr (p + uf_H r) ?d b"
  have c: "uf_copy (p + uf_H r) iov ?r = Some (r\<lparr>uf_buf := ?b\<rparr>)"
    using uf_copy_result [of ?r "p + uf_H r" iov] lb assms(2) by simp
  have fits: "p + uf_H r + length ?d \<le> length b" using lb assms(2) by simp
  have "rd ?b q k = rd (uf_buf r) q k" if "q + k \<le> p \<or> p + (uf_H r + length ?d) \<le> q" for q k
  proof -
    have "rd ?b q k = rd b q k" using that by (intro rd_wr_other [OF fits]) auto
    also have "\<dots> = rd (uf_buf r) q k" using b(2) that by (auto simp: uf_frame_def)
    finally show ?thesis .
  qed
  then have frame: "uf_frame r ?b p (p + (uf_H r + length ?d))" using lb fits unfolding uf_frame_def by simp
  have "uf_agree ?r (?r\<lparr>uf_buf := ?b\<rparr>) p (p + uf_H r)"
    using rd_wr_other [OF fits] by (auto simp: uf_agree_def)
  from uf_head_agree [OF wf _ this] uf_frame_wf [OF assms(1) frame] b(3)
  have "uf_head (r\<lparr>uf_buf := ?b\<rparr>) p = Some (0, length ?d)" by (simp add: uf_H_def)
  moreover have "rd ?b (p + uf_H r) (length ?d) = ?d" by (rule rd_wr_same [OF fits])
  ultimately have "uf_seg (r\<lparr>uf_buf := ?b\<rparr>) p [?d] (p + (uf_H r + length ?d))"
    using assms(2) by simp
  with frame b(1) c show ?thesis by (intro exI [of _ ?b]) simp
qed

text \<open>Where the buffer is in one piece (or empty), an entry that fits behind the last is put there.\<close>

lemma uf_write_item_step:
  assumes inv: "uf_inv r xs" and one: "xs = [] \<or> uf_lin r (uf_start r) xs"
    and need: "need = length (concat iov) + uf_H r" "uf_end r + need \<le> uf_size r"
  shows "\<exists>r'. uf_write_item iov (length (concat iov)) need r = Some r' \<and> uf_inv r' (xs @ [concat iov])
    \<and> uf_width r' = uf_width r \<and> uf_size r' = uf_size r"
proof -
  let ?d = "concat iov" and ?s = "uf_start r" and ?e = "uf_end r" and ?N = "uf_size r" and ?H = "uf_H r"
  have wf: "uf_wf r" and num: "uf_num r = length xs" using inv by (simp_all add: uf_inv_def)
  have H: "0 < ?H" "?H \<le> ?N" and N: "0 < ?N" using uf_H_pos [OF wf] need wf by (simp_all add: uf_wf_def)
  have "uf_used r = ?e - ?s \<and> uf_seg r ?s xs ?e"
  proof (cases "xs = []")
    case True
    with inv show ?thesis by (simp add: uf_inv_def)
  next
    case False
    with one have l: "uf_seg r ?s xs ?e" by (simp add: uf_lin_def)
    then show ?thesis using uf_invD(4) [OF inv False] uf_seg_nonempty [OF wf l False] H by (auto simp: uf_wrap_def)
  qed
  then have used: "uf_used r = ?e - ?s" and seg: "uf_seg r ?s xs ?e" by simp_all
  have le: "?s \<le> ?e" using uf_seg_bounds [OF seg] by simp
  obtain b where b: "do { r' \<leftarrow> uf_put_head ?e 0 (length ?d) r; uf_copy (?e + ?H) iov r' } = Some (r\<lparr>uf_buf := b\<rparr>)"
    "uf_frame r b ?e (?e + need)" "uf_seg (r\<lparr>uf_buf := b\<rparr>) ?e [?d] (?e + need)"
    using uf_store_result [OF wf, of ?e iov] need by (auto simp: add.commute)
  let ?r = "r\<lparr>uf_buf := b\<rparr>"
  have wf': "uf_wf ?r" by (rule uf_frame_wf [OF wf b(2)])
  have "uf_seg ?r ?s xs ?e" by (rule uf_seg_agree [OF wf wf' uf_frame_agree [OF b(2)] seg]) simp
  then have seg': "uf_seg ?r ?s (xs @ [?d]) (?e + need)" using b(3) by (auto simp: uf_seg_append)
  let ?r1 = "?r\<lparr>uf_end := (?e + need) mod ?N, uf_used := uf_used r + need, uf_num := uf_num r + 1\<rparr>"
  have eq: "uf_write_item iov (length ?d) need r = do {
      skip \<leftarrow> uf_need_skip_bytes ?r1 (uf_end ?r1);
      Some (?r1\<lparr>uf_end := (uf_end ?r1 + skip) mod ?N, uf_used := uf_used ?r1 + skip\<rparr>) }"
    using b(1) by (auto simp: uf_write_item_def split: Option.bind_splits)
  have H': "uf_H ?r1 = ?H" by (simp add: uf_H_def)
  show ?thesis
  proof (cases "?e + need + ?H \<le> ?N")
    case True
    then have m: "(?e + need) mod ?N = ?e + need" using H by simp
    let ?r2 = "?r\<lparr>uf_end := ?e + need, uf_used := uf_used r + need, uf_num := uf_num r + 1\<rparr>"
    have "uf_write_item iov (length ?d) need r = Some ?r2"
      unfolding eq using True m H' H by (simp add: uf_need_skip_bytes_def)
    moreover have "uf_inv ?r2 (xs @ [?d])"
      using wf' seg' True used le num uf_cong [of ?r2 ?r] uf_H_def by (auto simp: uf_inv_def uf_lin_def)
    ultimately show ?thesis by simp
  next
    case False
    let ?r2 = "?r\<lparr>uf_end := 0, uf_used := ?N - ?s, uf_num := uf_num r + 1\<rparr>"
    have "uf_write_item iov (length ?d) need r = Some ?r2"
    proof (cases "?e + need = ?N")
      case True
      then show ?thesis unfolding eq using H H' used le by (simp add: uf_need_skip_bytes_def)
    next
      case False
      then have "?e + need < ?N" using need by simp
      with \<open>\<not> ?e + need + ?H \<le> ?N\<close> show ?thesis unfolding eq using H' used le by (simp add: uf_need_skip_bytes_def)
    qed
    moreover have "uf_tail ?r (?e + need)" using False need(2) by (simp add: uf_tail_def uf_H_def)
    then have "uf_wrap ?r2 ?s (xs @ [?d])"
      unfolding uf_wrap_def using seg' uf_cong [of ?r2 ?r] by (intro exI [of _ "xs @ [?d]"] exI [of _ "[]"] exI [of _ "?e + need"]) simp
    then have "uf_inv ?r2 (xs @ [?d])" using wf' num uf_cong [of ?r2 ?r] by (simp add: uf_inv_def)
    ultimately show ?thesis by simp
  qed
qed

text \<open>Where the buffer is in two pieces, an entry that fits between them is put behind the second.\<close>

lemma uf_write_no_wrap_step:
  assumes inv: "uf_inv r xs" and wrap: "uf_wrap r (uf_start r) xs"
    and need: "need = length (concat iov) + uf_H r" "uf_end r + need \<le> uf_start r"
  shows "\<exists>r'. uf_write_item_no_wrap iov (length (concat iov)) need r = Some r' \<and> uf_inv r' (xs @ [concat iov])
    \<and> uf_width r' = uf_width r \<and> uf_size r' = uf_size r"
proof -
  let ?d = "concat iov" and ?s = "uf_start r" and ?e = "uf_end r" and ?N = "uf_size r" and ?H = "uf_H r"
  from wrap obtain ys zs e where y: "xs = ys @ zs" "ys \<noteq> []" "uf_seg r ?s ys e" "uf_tail r e" "uf_seg r 0 zs ?e" "?e \<le> ?s"
    unfolding uf_wrap_def by blast
  have wf: "uf_wf r" and num: "uf_num r = length xs" using inv by (simp_all add: uf_inv_def)
  have se: "?s + ?H \<le> e" "e \<le> ?N" using uf_seg_nonempty [OF wf y(3,2)] uf_seg_bounds [OF y(3)] y(2) by simp_all
  have used: "uf_used r = ?N - ?s + ?e"
    using inv y uf_invD [OF inv] uf_seg_nonempty [OF wf, of ?s xs ?e] uf_H_pos [OF wf] by (auto simp: uf_lin_def)
  obtain b where b: "do { r' \<leftarrow> uf_put_head ?e 0 (length ?d) r; uf_copy (?e + ?H) iov r' } = Some (r\<lparr>uf_buf := b\<rparr>)"
    "uf_frame r b ?e (?e + need)" "uf_seg (r\<lparr>uf_buf := b\<rparr>) ?e [?d] (?e + need)"
    using uf_store_result [OF wf, of ?e iov] need se by (auto simp: add.commute)
  let ?r = "r\<lparr>uf_buf := b\<rparr>"
  have wf': "uf_wf ?r" by (rule uf_frame_wf [OF wf b(2)])
  have "uf_seg ?r ?s ys e" by (rule uf_seg_agree [OF wf wf' uf_frame_agree [OF b(2)] y(3)]) (use need in simp)
  moreover have "uf_seg ?r 0 zs ?e" by (rule uf_seg_agree [OF wf wf' uf_frame_agree [OF b(2)] y(5)]) simp
  then have "uf_seg ?r 0 (zs @ [?d]) (?e + need)" using b(3) by (auto simp: uf_seg_append)
  moreover have "uf_head ?r e = uf_head r e"
    by (rule uf_head_agree [OF wf wf' uf_frame_agree [OF b(2), of "e + ?H" e]]) (use need se in auto)
  then have "uf_tail ?r e" using y(4) by (simp add: uf_tail_def uf_H_def)
  moreover let ?r2 = "?r\<lparr>uf_end := ?e + need, uf_used := uf_used r + need, uf_num := uf_num r + 1\<rparr>"
  have c: "uf_wf ?r2 = uf_wf ?r" "uf_seg ?r2 = uf_seg ?r" "uf_tail ?r2 = uf_tail ?r" using uf_cong [of ?r2 ?r] by simp_all
  ultimately have "uf_wrap ?r2 ?s (xs @ [?d])"
    unfolding uf_wrap_def c using y(1,2) need(2)
    by (intro exI [of _ ys] exI [of _ "zs @ [?d]"] exI [of _ e]) simp
  then have "uf_inv ?r2 (xs @ [?d])" using wf' num used c by (simp add: uf_inv_def)
  moreover have "uf_write_item_no_wrap iov (length ?d) need r = Some ?r2"
    using b(1) by (auto simp: uf_write_item_no_wrap_def split: Option.bind_splits)
  ultimately show ?thesis by simp
qed

text \<open>A padding splits the buffer.\<close>

lemma uf_push_padding_step:
  assumes inv: "uf_inv r xs" and lin: "uf_lin r (uf_start r) xs"
  shows "\<exists>r'. uf_push_padding r = Some r' \<and> uf_inv r' xs \<and> uf_wrap r' (uf_start r') xs \<and> uf_width r' = uf_width r
    \<and> uf_size r' = uf_size r \<and> uf_start r' = uf_start r \<and> uf_end r' = 0"
proof -
  let ?s = "uf_start r" and ?e = "uf_end r" and ?N = "uf_size r" and ?H = "uf_H r"
  have wf: "uf_wf r" and num: "uf_num r = length xs" using inv by (simp_all add: uf_inv_def)
  from lin have ne: "xs \<noteq> []" and seg: "uf_seg r ?s xs ?e" and fit: "?e + ?H \<le> ?N" by (simp_all add: uf_lin_def)
  have le: "?s + ?H \<le> ?e" by (rule uf_seg_nonempty [OF wf seg ne])
  have H: "0 < ?H" by (rule uf_H_pos [OF wf])
  have used: "uf_used r = ?e - ?s" using uf_invD(4) [OF inv ne] le H by (auto simp: uf_wrap_def)
  obtain b where b: "uf_put_head ?e 1 (?N - ?e - ?H) r = Some (r\<lparr>uf_buf := b\<rparr>)" "uf_frame r b ?e (?e + ?H)"
    "uf_head (r\<lparr>uf_buf := b\<rparr>) ?e = Some (1, ?N - ?e - ?H)"
    using uf_put_head_result [OF wf fit, of "?N - ?e - ?H" 1] fit H le by auto
  let ?r = "r\<lparr>uf_buf := b\<rparr>"
  have wf': "uf_wf ?r" by (rule uf_frame_wf [OF wf b(2)])
  have seg': "uf_seg ?r ?s xs ?e" by (rule uf_seg_agree [OF wf wf' uf_frame_agree [OF b(2)] seg]) simp
  let ?r2 = "?r\<lparr>uf_used := uf_used r + (?N - ?e), uf_end := 0\<rparr>"
  have c: "uf_wf ?r2 = uf_wf ?r" "uf_seg ?r2 = uf_seg ?r" "uf_tail ?r2 = uf_tail ?r" using uf_cong [of ?r2 ?r] by simp_all
  have "uf_tail ?r ?e" using b(3) fit by (simp add: uf_tail_def uf_H_def)
  then have "uf_wrap ?r2 ?s xs"
    unfolding uf_wrap_def c using ne seg' by (intro exI [of _ xs] exI [of _ "[]"] exI [of _ ?e]) simp
  moreover have "uf_push_padding r = Some ?r2" using b(1) le by (simp add: uf_push_padding_def)
  ultimately show ?thesis using wf' num used c ne le fit by (auto simp: uf_inv_def)
qed

section \<open>Pushing\<close>

text \<open>A loop of \<^verbatim>\<open>pop\<close> takes the entries off one after the other until its condition fails.\<close>

lemma uf_pop_while_result:
  assumes "P r xs" "\<And>r xs. P r xs \<Longrightarrow> uf_inv r xs" "\<And>r. P r [] \<Longrightarrow> \<not> cond r"
    "\<And>r r' x xs. P r (x # xs) \<Longrightarrow> cond r \<Longrightarrow> uf_pop r = Some ([x], r') \<Longrightarrow> uf_inv r' xs \<Longrightarrow> uf_width r' = uf_width r \<Longrightarrow>
      uf_size r' = uf_size r \<Longrightarrow> uf_end r' = (if xs = [] then 0 else uf_end r) \<Longrightarrow> uf_used r' < uf_used r \<Longrightarrow>
      (uf_wrap r (uf_start r) (x # xs) \<longrightarrow> uf_wrap r' (uf_start r') xs \<or> uf_start r' = 0) \<Longrightarrow> P r' xs"
  shows "\<exists>k r'. uf_pop_while cond r = Some (take k xs, r') \<and> P r' (drop k xs) \<and> \<not> cond r'"
  using assms(1)
proof (induction xs arbitrary: r)
  case Nil
  with assms(3) show ?case by (simp add: uf_pop_while.simps [of cond r])
next
  case (Cons x xs)
  show ?case
  proof (cases "cond r")
    case True
    from uf_pop_step [OF assms(2) [OF Cons.prems]] obtain r1 where r1: "uf_pop r = Some ([x], r1)" "P r1 xs"
      using assms(4) [OF Cons.prems True] by blast
    from Cons.IH [OF r1(2)] obtain k r' where "uf_pop_while cond r1 = Some (take k xs, r')" "P r' (drop k xs)" "\<not> cond r'"
      by blast
    with True r1(1) show ?thesis
      by (intro exI [of _ "Suc k"] exI [of _ r']) (simp add: uf_pop_while.simps [of cond r])
  next
    case False
    with Cons.prems show ?thesis
      by (intro exI [of _ 0] exI [of _ r]) (simp add: uf_pop_while.simps [of cond r])
  qed
qed

text \<open>What a push that overwrites does: it takes off some of the oldest entries and appends its own.\<close>

definition uf_pushed :: "8 word list list \<Rightarrow> nat \<Rightarrow> bool \<Rightarrow> uring \<Rightarrow> 8 word list list \<Rightarrow> bool" where
  "uf_pushed iov need ow r xs \<longleftrightarrow>
     (\<exists>k r'. uf_push_impl iov (length (concat iov)) need ow r = Some (True, take k xs, r')
       \<and> uf_inv r' (drop k xs @ [concat iov]) \<and> uf_width r' = uf_width r \<and> uf_size r' = uf_size r \<and> (ow \<or> k = 0))"

lemma uf_pushedI:
  assumes "uf_pushed iov need True r' (drop j xs)" "uf_width r' = uf_width r" "uf_size r' = uf_size r"
    "uf_push_impl iov (length (concat iov)) need True r =
      do { (ok, l, r) \<leftarrow> uf_push_impl iov (length (concat iov)) need True r'; Some (ok, take j xs @ l, r) }"
  shows "uf_pushed iov need True r xs"
proof -
  from assms(1) obtain k r'' where "uf_push_impl iov (length (concat iov)) need True r' = Some (True, take k (drop j xs), r'')"
    "uf_inv r'' (drop k (drop j xs) @ [concat iov])" "uf_width r'' = uf_width r'" "uf_size r'' = uf_size r'"
    by (auto simp: uf_pushed_def)
  with assms(2-4) show ?thesis
    unfolding uf_pushed_def by (intro exI [of _ "j + k"] exI [of _ r'']) (simp add: take_add add.commute)
qed

lemma uf_inv_lin:
  assumes "uf_inv r xs" "uf_used r < uf_size r" "uf_start r \<le> uf_end r" "xs \<noteq> []"
  shows "uf_lin r (uf_start r) xs"
  using uf_invD(4) [OF assms(1,4)] assms(2,3) by (auto simp: uf_wrap_def)

lemma uf_inv_wrap:
  assumes "uf_inv r xs" "uf_end r < uf_start r"
  shows "xs \<noteq> []" "uf_wrap r (uf_start r) xs"
proof -
  show ne: "xs \<noteq> []" using assms by (auto simp: uf_inv_def)
  show "uf_wrap r (uf_start r) xs"
    using uf_invD(4) [OF assms(1) ne] assms(2) uf_seg_bounds [of r "uf_start r" xs "uf_end r"] by (auto simp: uf_lin_def)
qed

lemma uf_inv_end0:
  assumes "uf_inv r xs" "uf_end r = 0" "xs \<noteq> []"
  shows "uf_wrap r (uf_start r) xs" "uf_used r = uf_size r - uf_start r"
proof -
  note inv = uf_invD [OF assms(1,3)]
  have "\<not> uf_lin r (uf_start r) xs"
    using uf_seg_nonempty [OF inv(1) _ assms(3)] uf_H_pos [OF inv(1)] assms(2) by (force simp: uf_lin_def)
  with inv(4) assms(2) show "uf_wrap r (uf_start r) xs" "uf_used r = uf_size r - uf_start r" by simp_all
qed

lemma uf_used_le: "uf_inv r xs \<Longrightarrow> uf_used r \<le> uf_size r"
proof (cases "xs = []")
  case True
  then show "uf_inv r xs \<Longrightarrow> ?thesis" by (simp add: uf_inv_def)
next
  case False
  assume i: "uf_inv r xs"
  note inv = uf_invD [OF i False]
  from inv(4) show ?thesis
  proof
    assume "uf_wrap r (uf_start r) xs \<and> uf_used r = uf_size r - uf_start r + uf_end r"
    then obtain ys e where y: "uf_seg r (uf_start r) ys e" "ys \<noteq> []" "uf_end r \<le> uf_start r"
      "uf_used r = uf_size r - uf_start r + uf_end r" by (auto simp: uf_wrap_def)
    then show ?thesis using uf_seg_bounds [OF y(1)] by simp
  qed (use uf_H_pos [OF inv(1)] in \<open>auto simp: uf_lin_def\<close>)
qed

text \<open>The two cases in which the entry fits at once.\<close>

lemma uf_push_fits:
  assumes inv: "uf_inv r xs" "uf_used r < uf_size r" "uf_start r \<le> uf_end r"
    and need: "need = length (concat iov) + uf_H r" "uf_end r + need \<le> uf_size r"
  shows "uf_pushed iov need ow r xs"
proof -
  have "xs = [] \<or> uf_lin r (uf_start r) xs" using uf_inv_lin [OF inv] by blast
  from uf_write_item_step [OF inv(1) this need] obtain r' where
    "uf_write_item iov (length (concat iov)) need r = Some r'" "uf_inv r' (xs @ [concat iov])"
    "uf_width r' = uf_width r" "uf_size r' = uf_size r" by blast
  with inv(2,3) need(2) show ?thesis
    unfolding uf_pushed_def by (intro exI [of _ 0] exI [of _ r']) (simp add: uf_push_impl.simps uf_full_def)
qed

lemma uf_push_between:
  assumes inv: "uf_inv r xs" "uf_used r < uf_size r" "uf_end r < uf_start r"
    and need: "need = length (concat iov) + uf_H r" "uf_end r + need \<le> uf_start r"
  shows "uf_pushed iov need ow r xs"
proof -
  from uf_write_no_wrap_step [OF inv(1) uf_inv_wrap(2) [OF inv(1,3)] need] obtain r' where
    "uf_write_item_no_wrap iov (length (concat iov)) need r = Some r'" "uf_inv r' (xs @ [concat iov])"
    "uf_width r' = uf_width r" "uf_size r' = uf_size r" by blast
  with inv(2,3) need(2) show ?thesis
    unfolding uf_pushed_def by (intro exI [of _ 0] exI [of _ r']) (simp add: uf_push_impl.simps uf_full_def)
qed

text \<open>The cases in which older entries have to go.\<close>

lemma uf_push_wrap_fits:
  assumes inv: "uf_inv r xs" "uf_used r < uf_size r" "uf_end r < uf_start r"
    and need: "need = length (concat iov) + uf_H r" "uf_end r + need \<le> uf_size r"
  shows "uf_pushed iov need True r xs"
proof (cases "uf_end r + need \<le> uf_start r")
  case True
  then show ?thesis by (rule uf_push_between [OF inv need(1)])
next
  case False
  define P where "P r' ys \<longleftrightarrow> uf_inv r' ys \<and> uf_width r' = uf_width r \<and> uf_size r' = uf_size r \<and> uf_used r' < uf_size r
    \<and> (ys = [] \<or> uf_end r' = uf_end r)" for r' ys
  let ?cond = "\<lambda>r. uf_end r < uf_start r \<and> uf_start r < uf_end r + need"
  have "\<exists>k r'. uf_pop_while ?cond r = Some (take k xs, r') \<and> P r' (drop k xs) \<and> \<not> ?cond r'"
    by (rule uf_pop_while_result) (use inv in \<open>auto simp: P_def uf_inv_def [of _ "[]"]\<close>)
  then obtain k r' where k: "uf_pop_while ?cond r = Some (take k xs, r')" "P r' (drop k xs)" "\<not> ?cond r'" by blast
  have i': "uf_inv r' (drop k xs)" "uf_used r' < uf_size r'" and s': "uf_width r' = uf_width r" "uf_size r' = uf_size r"
    using k(2) by (simp_all add: P_def)
  have need': "need = length (concat iov) + uf_H r'" using need(1) s' by (simp add: uf_H_def)
  have fit: "uf_end r' + need \<le> uf_size r'" using k(2) need(2) by (auto simp: P_def uf_inv_def)
  have "uf_pushed iov need True r' (drop k xs)"
  proof (cases "uf_start r' \<le> uf_end r'")
    case True
    show ?thesis by (rule uf_push_fits [OF i' True need' fit])
  next
    case False
    with k(3) show ?thesis by (intro uf_push_between [OF i' _ need']) auto
  qed
  then show ?thesis
    by (rule uf_pushedI [OF _ s']) (use inv False need(2) k(1) in \<open>simp add: uf_push_impl.simps [of _ _ _ _ r] uf_full_def\<close>)
qed

lemma uf_push_after_pop:
  assumes "uf_full r" "uf_pop r = Some (l0, r')" "\<not> uf_full r'"
  shows "uf_push_impl iov len need True r =
    do { (ok, l, r) \<leftarrow> uf_push_impl iov len need True r'; Some (ok, l0 @ l, r) }"
  using assms unfolding uf_push_impl.simps [of iov len need True r] uf_push_impl.simps [of iov len need True r']
  by (simp split: Option.bind_split prod.split)

lemma uf_push_full:
  assumes "uf_inv r (x # xs)" "uf_used r = uf_size r"
    and "\<And>r'. uf_inv r' xs \<Longrightarrow> uf_width r' = uf_width r \<Longrightarrow> uf_size r' = uf_size r \<Longrightarrow> uf_used r' < uf_size r' \<Longrightarrow>
      (uf_end r = 0 \<longrightarrow> uf_end r' = 0) \<Longrightarrow> uf_pushed iov need True r' xs"
  shows "uf_pushed iov need True r (x # xs)"
proof -
  from uf_pop_step [OF assms(1)] obtain r' where r': "uf_pop r = Some ([x], r')" "uf_inv r' xs" "uf_width r' = uf_width r"
    "uf_size r' = uf_size r" "uf_end r' = (if xs = [] then 0 else uf_end r)" "uf_used r' < uf_used r" by blast
  have "uf_pushed iov need True r' xs" by (rule assms(3)) (use r' assms(2) in auto)
  then have "uf_pushed iov need True r' (drop 1 (x # xs))" by simp
  then show ?thesis
    by (rule uf_pushedI [OF _ r'(3,4)])
      (use r' assms(2) uf_push_after_pop [OF _ r'(1)] in \<open>simp add: uf_full_def\<close>)
qed

text \<open>With the last entry right before the beginning of the buffer.\<close>

lemma uf_push_end0:
  assumes inv: "uf_inv r xs" "uf_end r = 0" and need: "need = length (concat iov) + uf_H r" "need \<le> uf_size r"
  shows "uf_pushed iov need True r xs"
proof -
  have *: "uf_pushed iov need True r' ys" if i: "uf_inv r' ys" "uf_end r' = 0" "uf_used r' < uf_size r'"
    and s: "uf_width r' = uf_width r" "uf_size r' = uf_size r" for r' ys
  proof -
    have need': "need = length (concat iov) + uf_H r'" "uf_end r' + need \<le> uf_size r'" using need s i(2) by (simp_all add: uf_H_def)
    show ?thesis
    proof (cases "ys = []")
      case True
      with i(1) have "uf_start r' \<le> uf_end r'" by (simp add: uf_inv_def)
      then show ?thesis by (rule uf_push_fits [OF i(1,3) _ need'])
    next
      case False
      then have "uf_end r' < uf_start r'" using uf_inv_end0(2) [OF i(1,2)] i(2,3) by (cases "uf_start r' = 0") simp_all
      then show ?thesis by (rule uf_push_wrap_fits [OF i(1,3) _ need'])
    qed
  qed
  show ?thesis
  proof (cases "uf_used r < uf_size r")
    case True
    then show ?thesis by (intro * inv) simp_all
  next
    case False
    then have full: "uf_used r = uf_size r" using uf_used_le [OF inv(1)] by simp
    moreover have "0 < uf_size r" using inv(1) by (simp add: uf_inv_def uf_wf_def)
    ultimately obtain x ys where xs: "xs = x # ys" using inv(1) by (cases xs) (auto simp: uf_inv_def)
    show ?thesis unfolding xs
      by (rule uf_push_full) (use inv(1) xs full * inv(2) in auto)
  qed
qed

lemma uf_push_padded:
  assumes inv: "uf_inv r xs" "uf_used r < uf_size r" "uf_start r \<le> uf_end r"
    and need: "need = length (concat iov) + uf_H r" "need \<le> uf_size r" "uf_size r < uf_end r + need"
  shows "uf_pushed iov need True r xs"
proof -
  have ne: "xs \<noteq> []" using inv(1) need by (auto simp: uf_inv_def)
  note lin = uf_inv_lin [OF inv ne]
  from uf_push_padding_step [OF inv(1) lin] obtain r1 where r1: "uf_push_padding r = Some r1" "uf_inv r1 xs"
    "uf_width r1 = uf_width r" "uf_size r1 = uf_size r" "uf_start r1 = uf_start r" "uf_end r1 = 0" by blast
  let ?cond = "\<lambda>r. \<not> uf_empty r \<and> uf_start r < need"
  define P where "P r' ys \<longleftrightarrow> uf_inv r' ys \<and> uf_width r' = uf_width r \<and> uf_size r' = uf_size r \<and> uf_end r' = 0" for r' ys
  have "\<exists>k r'. uf_pop_while ?cond r1 = Some (take k xs, r') \<and> P r' (drop k xs) \<and> \<not> ?cond r'"
    by (rule uf_pop_while_result) (use r1 uf_empty_iff in \<open>auto simp: P_def\<close>)
  then obtain k r' where k: "uf_pop_while ?cond r1 = Some (take k xs, r')" "P r' (drop k xs)" by blast
  then have "uf_pushed iov need True r' (drop k xs)"
    using uf_push_end0 [of r' "drop k xs" need iov] need by (simp add: P_def uf_H_def)
  then show ?thesis
    by (rule uf_pushedI)
      (use k inv need r1(1) in \<open>simp_all add: P_def uf_push_impl.simps [of _ _ _ _ r] uf_full_def\<close>)
qed

lemma uf_push_wrap_padded:
  assumes inv: "uf_inv r xs" "uf_used r < uf_size r" "uf_end r < uf_start r"
    and need: "need = length (concat iov) + uf_H r" "need \<le> uf_size r" "uf_size r < uf_end r + need"
  shows "uf_pushed iov need True r xs"
proof -
  let ?cond = "\<lambda>r. uf_end r < uf_start r"
  define P where "P r' ys \<longleftrightarrow> uf_inv r' ys \<and> uf_width r' = uf_width r \<and> uf_size r' = uf_size r \<and> uf_used r' < uf_size r
    \<and> uf_end r' = uf_end r \<and> ys \<noteq> [] \<and> (uf_wrap r' (uf_start r') ys \<or> uf_start r' = 0)" for r' ys
  have "uf_start r \<le> uf_size r"
    using uf_inv_wrap(2) [OF inv(1,3)] uf_seg_bounds [of r "uf_start r"] by (fastforce simp: uf_wrap_def)
  then have no: "\<not> uf_end r + need \<le> uf_start r" using need by simp
  have e: "0 < uf_end r" using need by (cases "uf_end r = 0") simp_all
  have ne: "zs \<noteq> []" if "uf_wrap r' s (z # zs)" "uf_end r' = uf_end r" for r' s z zs
    using that e by (auto simp: uf_wrap_def Cons_eq_append_conv)
  have "\<exists>k r'. uf_pop_while ?cond r = Some (take k xs, r') \<and> P r' (drop k xs) \<and> \<not> ?cond r'"
  proof (rule uf_pop_while_result)
    show "P r xs" using inv uf_inv_wrap [OF inv(1,3)] by (simp add: P_def)
  next
    fix r1 r2 x zs
    assume a: "P r1 (x # zs)" "uf_end r1 < uf_start r1" "uf_inv r2 zs" "uf_width r2 = uf_width r1" "uf_size r2 = uf_size r1"
      "uf_end r2 = (if zs = [] then 0 else uf_end r1)" "uf_used r2 < uf_used r1"
      "uf_wrap r1 (uf_start r1) (x # zs) \<longrightarrow> uf_wrap r2 (uf_start r2) zs \<or> uf_start r2 = 0"
    then have "uf_wrap r1 (uf_start r1) (x # zs)" by (auto simp: P_def)
    with a ne [of r1 "uf_start r1" x zs] show "P r2 zs" by (simp add: P_def)
  qed (auto simp: P_def)
  then obtain k r' where k: "uf_pop_while ?cond r = Some (take k xs, r')" "P r' (drop k xs)" "uf_start r' \<le> uf_end r'" by force
  have s': "uf_width r' = uf_width r" "uf_size r' = uf_size r" and i': "uf_inv r' (drop k xs)" "uf_used r' < uf_size r'"
    "drop k xs \<noteq> []" using k(2) by (simp_all add: P_def)
  note lin = uf_inv_lin [OF i'(1,2) k(3) i'(3)]
  have "uf_start r' = 0"
    using k(2) uf_invD(4) [OF i'(1,3)] uf_seg_nonempty [OF uf_invD(1) [OF i'(1,3)] _ i'(3)] uf_H_pos [OF uf_invD(1) [OF i'(1,3)]] lin
    by (fastforce simp: P_def uf_wrap_def uf_lin_def)
  from uf_push_padding_step [OF i'(1) lin] obtain r2 where r2: "uf_push_padding r' = Some r2" "uf_inv r2 (drop k xs)"
    "uf_width r2 = uf_width r'" "uf_size r2 = uf_size r'" "uf_start r2 = uf_start r'" "uf_end r2 = 0" by blast
  have full: "uf_full r2" using uf_inv_end0(2) [OF r2(2,6) i'(3)] r2(5) \<open>uf_start r' = 0\<close> by (simp add: uf_full_def)
  have w: "uf_width r2 = uf_width r" "uf_size r2 = uf_size r" using r2(3,4) s' by simp_all
  have pushed: "uf_pushed iov need True r2 (drop k xs)"
    by (rule uf_push_end0 [OF r2(2,6)]) (use need s' r2 in \<open>simp_all add: uf_H_def\<close>)
  have "uf_pop_while ?cond r = do { (l, r) \<leftarrow> uf_pop r; (ls, r) \<leftarrow> uf_pop_while ?cond r; Some (l @ ls, r) }"
    using inv(3) by (simp add: uf_pop_while.simps [of ?cond r])
  with k(1) have "do { (l, r) \<leftarrow> uf_pop r; (ls, r) \<leftarrow> uf_pop_while ?cond r; Some (l @ ls, r) } = Some (take k xs, r')" by simp
  then obtain l ls ra where l: "uf_pop r = Some (l, ra)" "uf_pop_while ?cond ra = Some (ls, r')" "l @ ls = take k xs"
    by (auto split: Option.bind_splits)
  have l': "l @ ls @ m = take k xs @ m" for m using l(3) by (metis append_assoc)
  have "uf_push_impl iov (length (concat iov)) need True r = do {
      (l1, r) \<leftarrow> uf_pop r; (l2, r) \<leftarrow> uf_pop_while ?cond r; r \<leftarrow> uf_push_padding r; _ \<leftarrow> cassert (uf_full r);
      (ok, l3, r) \<leftarrow> uf_push_impl iov (length (concat iov)) need True r; Some (ok, l1 @ l2 @ l3, r) }"
    using inv need(3) no by (subst uf_push_impl.simps) (simp add: uf_full_def)
  also have "\<dots> = do { (ok, m, r) \<leftarrow> uf_push_impl iov (length (concat iov)) need True r2; Some (ok, take k xs @ m, r) }"
    by (simp only: l r2(1) full Option.bind_lunit prod.case cassert_simps l')
  finally show ?thesis by (rule uf_pushedI [OF pushed w])
qed

lemma uf_push_over_writes:
  assumes inv: "uf_inv r xs" and need: "need = length (concat iov) + uf_H r" "need \<le> uf_size r"
  shows "uf_pushed iov need True r xs"
proof -
  have *: "uf_pushed iov need True r' ys" if i: "uf_inv r' ys" "uf_used r' < uf_size r'"
    and s: "uf_width r' = uf_width r" "uf_size r' = uf_size r" for r' ys
  proof -
    have need': "need = length (concat iov) + uf_H r'" "need \<le> uf_size r'" using need s by (simp_all add: uf_H_def)
    show ?thesis
      using uf_push_fits [OF i _ need'(1)] uf_push_padded [OF i _ need'] uf_push_wrap_fits [OF i _ need'(1)]
        uf_push_wrap_padded [OF i _ need'] by (meson not_le)
  qed
  show ?thesis
  proof (cases "uf_used r < uf_size r")
    case True
    then show ?thesis by (intro * inv) simp_all
  next
    case False
    then have full: "uf_used r = uf_size r" using uf_used_le [OF inv] by simp
    moreover have "0 < uf_size r" using inv by (simp add: uf_inv_def uf_wf_def)
    ultimately obtain x ys where xs: "xs = x # ys" using inv by (cases xs) (auto simp: uf_inv_def)
    show ?thesis unfolding xs by (rule uf_push_full) (use inv xs full * in auto)
  qed
qed

text \<open>A push that does not overwrite appends its entry or leaves the buffer as it is.\<close>

lemma uf_push_keeps:
  assumes inv: "uf_inv r xs" and need: "need = length (concat iov) + uf_H r" "need \<le> uf_size r"
  shows "uf_push_impl iov (length (concat iov)) need False r = Some (False, [], r) \<or> uf_pushed iov need False r xs"
proof -
  have wf: "uf_wf r" using inv by (simp add: uf_inv_def)
  consider "uf_full r" | "uf_used r < uf_size r" "uf_start r \<le> uf_end r" "uf_end r + need \<le> uf_size r"
    | "uf_used r < uf_size r" "uf_start r \<le> uf_end r" "\<not> uf_end r + need \<le> uf_size r" "uf_start r < need"
    | "uf_used r < uf_size r" "uf_start r \<le> uf_end r" "\<not> uf_end r + need \<le> uf_size r" "need \<le> uf_start r"
    | "uf_used r < uf_size r" "uf_end r < uf_start r" "uf_end r + need \<le> uf_start r"
    | "uf_used r < uf_size r" "uf_end r < uf_start r" "\<not> uf_end r + need \<le> uf_start r"
    unfolding uf_full_def by linarith
  then show ?thesis
  proof cases
    case 2
    then show ?thesis using uf_push_fits [OF inv _ _ need(1)] by blast
  next
    case 4
    have ne: "xs \<noteq> []" using inv 4 need by (auto simp: uf_inv_def)
    from uf_push_padding_step [OF inv uf_inv_lin [OF inv 4(1,2) ne]] obtain r1 where r1: "uf_push_padding r = Some r1"
      "uf_inv r1 xs" "uf_width r1 = uf_width r" "uf_size r1 = uf_size r" "uf_start r1 = uf_start r" "uf_end r1 = 0" by blast
    have s: "0 < uf_start r1" using 4 need uf_H_pos [OF wf] r1(5) by simp
    have "uf_used r1 < uf_size r1" using uf_inv_end0(2) [OF r1(2,6) ne] s r1(2) by (simp add: uf_inv_def uf_wf_def)
    then have "uf_pushed iov need False r1 xs"
      by (rule uf_push_between [OF r1(2)]) (use s r1 need 4 in \<open>simp_all add: uf_H_def\<close>)
    moreover have "uf_push_impl iov (length (concat iov)) need False r = uf_push_impl iov (length (concat iov)) need False r1"
      using 4 r1(1) by (subst uf_push_impl.simps) (auto simp: uf_full_def)
    ultimately show ?thesis using r1(3,4) by (simp add: uf_pushed_def)
  next
    case 5
    then show ?thesis using uf_push_between [OF inv _ _ need(1)] by blast
  qed (simp_all add: uf_push_impl.simps uf_full_def)
qed

lemma uf_push_iov_spec:
  assumes "uf_inv r xs"
  shows "if uf_size r < length (concat iov) + uf_H r then uf_push_iov iov ow r = Some (False, [], r)
    else uf_push_iov iov ow r = Some (False, [], r) \<and> \<not> ow
      \<or> (\<exists>k r'. uf_push_iov iov ow r = Some (True, take k xs, r') \<and> uf_inv r' (drop k xs @ [concat iov])
           \<and> uf_width r' = uf_width r \<and> uf_size r' = uf_size r \<and> (ow \<or> k = 0))"
proof (cases "uf_size r < length (concat iov) + uf_H r")
  case True
  then show ?thesis by (simp add: uf_push_iov_def Let_def flip: length_concat)
next
  case False
  then have "uf_push_iov iov ow r = uf_push_impl iov (length (concat iov)) (length (concat iov) + uf_H r) ow r"
    by (simp add: uf_push_iov_def Let_def flip: length_concat)
  with uf_push_over_writes [OF assms refl, of iov] uf_push_keeps [OF assms refl, of iov] False show ?thesis
    unfolding uf_pushed_def by (cases ow) (simp_all add: not_less)
qed

section \<open>Looking at an entry\<close>

lemma uf_find_loop_result:
  assumes "uf_wf r" "uf_H r \<le> uf_size r"
  shows "uf_lin r s ys \<or> uf_wrap r s ys \<Longrightarrow> n < length ys \<Longrightarrow>
    \<exists>p. uf_find_loop r n s = Some p \<and> uf_head r p = Some (0, length (ys ! n)) \<and> p + uf_H r + length (ys ! n) \<le> uf_size r
      \<and> rd (uf_buf r) (p + uf_H r) (length (ys ! n)) = ys ! n"
proof (induction n arbitrary: s ys)
  case 0
  then obtain y ys' where ys: "ys = y # ys'" by (cases ys) auto
  with 0 uf_lin_next [OF assms(1), of s y ys'] uf_wrap_next [OF assms(1), of s y ys'] show ?case by auto
next
  case (Suc n)
  then obtain y ys' where ys: "ys = y # ys'" "n < length ys'" by (cases ys) auto
  then have ne: "ys' \<noteq> []" by auto
  let ?p = "s + uf_H r + length y"
  note H = uf_H_pos [OF assms(1)]
  have hd: "uf_head r s = Some (0, length y)"
    using Suc.prems ys uf_lin_next [OF assms(1), of s y ys'] uf_wrap_next [OF assms(1), of s y ys'] by auto
  consider m where "uf_lin r ?p ys' \<or> uf_wrap r ?p ys'" "?p + uf_H r \<le> uf_size r" "?p \<noteq> uf_end r" "uf_head r ?p = Some (0, m)"
    | m where "uf_lin r 0 ys'" "uf_tail r ?p" "?p \<noteq> uf_end r" "0 < uf_end r" "uf_head r 0 = Some (0, m)"
  proof (cases "uf_lin r s ys")
    case True
    with uf_lin_next [OF assms(1), of s y ys'] ys ne that(1) show ?thesis by auto
  next
    case False
    with Suc.prems ys have "uf_wrap r s (y # ys')" by simp
    note nxt = uf_wrap_next [OF assms(1) this]
    have "?p \<noteq> uf_end r" using nxt(4) H by simp
    moreover have "0 < uf_end r \<and> (\<exists>m. uf_head r 0 = Some (0, m))" if "uf_lin r 0 ys'"
      using that uf_seg_nonempty [OF assms(1), of 0 ys' "uf_end r"] H ne by (cases ys') (auto simp: uf_lin_def)
    ultimately show ?thesis using nxt(5) ne that by auto
  qed
  then show ?case
  proof cases
    case 1
    then have "uf_find_loop r (Suc n) s = uf_find_loop r n ?p"
      using hd H by (simp add: uf_need_skip_bytes_def)
    with Suc.IH [OF 1(1) ys(2)] ys(1) show ?thesis by simp
  next
    case 2
    have "uf_find_loop r (Suc n) s = uf_find_loop r n 0"
    proof (cases "?p + uf_H r \<le> uf_size r")
      case True
      with 2 have "uf_head r ?p = Some (1, uf_size r - ?p - uf_H r)" by (simp add: uf_tail_def)
      with True 2 H hd show ?thesis by (simp add: uf_need_skip_bytes_def)
    next
      case False
      with 2 H assms(2) hd show ?thesis
        by (cases "?p = uf_size r") (auto simp: uf_need_skip_bytes_def uf_tail_def)
    qed
    with Suc.IH [of 0 ys'] 2(1) ys show ?thesis by simp
  qed
qed

lemma uf_front_result:
  assumes "uf_inv r xs"
  shows "uf_front r i = Some (if i < length xs then Some (xs ! i) else None)"
proof (cases "i < length xs")
  case True
  then have ne: "xs \<noteq> []" by auto
  note inv = uf_invD [OF assms ne]
  have l: "uf_lin r (uf_start r) xs \<or> uf_wrap r (uf_start r) xs" using inv(4) by blast
  have "uf_H r \<le> uf_size r"
    using l uf_lin_next [OF inv(1)] uf_wrap_next [OF inv(1)] ne by (cases xs) fastforce+
  from uf_find_loop_result [OF inv(1) this l True] obtain p where p: "uf_find_loop r i (uf_start r) = Some p"
    "uf_head r p = Some (0, length (xs ! i))" "p + uf_H r + length (xs ! i) \<le> uf_size r"
    "rd (uf_buf r) (p + uf_H r) (length (xs ! i)) = xs ! i" by blast
  then have "p \<noteq> uf_size r" using uf_H_pos [OF inv(1)] by simp
  with p True ne inv(2) uf_empty_iff [OF assms] show ?thesis
    by (cases i) (simp_all add: uf_front_def uf_find_start_def)
next
  case False
  with assms show ?thesis by (simp add: uf_front_def uf_find_start_def uf_inv_def)
qed

section \<open>Runs\<close>

text \<open>
  A run keeps, beside the buffer, the entries accepted and the entries handed out since the buffer was last
  cleared.
\<close>

datatype ufop = UPush "8 word list list" bool | UPop | UClear

fun uf_step :: "ufop \<Rightarrow> 8 word list list \<times> 8 word list list \<times> uring \<Rightarrow> (8 word list list \<times> 8 word list list \<times> uring) option" where
  "uf_step (UPush iov over_write) (acc, out, r) = do {
     (ok, l, r) \<leftarrow> uf_push_iov iov over_write r;
     Some (if ok then acc @ [concat iov] else acc, out @ l, r) }"
| "uf_step UPop (acc, out, r) = do {
     (l, r) \<leftarrow> uf_pop r;
     Some (acc, out @ l, r) }"
| "uf_step UClear (acc, out, r) = Some ([], [], uf_clear r)"

fun uf_run :: "ufop list \<Rightarrow> 8 word list list \<times> 8 word list list \<times> uring \<Rightarrow> (8 word list list \<times> 8 word list list \<times> uring) option" where
  "uf_run [] s = Some s"
| "uf_run (u # us) s = uf_step u s \<bind> uf_run us"

definition uf_queue :: "nat \<Rightarrow> nat \<Rightarrow> 8 word list list \<times> 8 word list list \<times> uring \<Rightarrow> bool" where
  "uf_queue w n s \<longleftrightarrow> (case s of (acc, out, r) \<Rightarrow>
     \<exists>xs. acc = out @ xs \<and> uf_inv r xs \<and> uf_width r = w \<and> uf_size r = n)"

lemma uf_inv_clear: "uf_inv r xs \<Longrightarrow> uf_inv (uf_clear r) []"
  by (simp add: uf_inv_def uf_clear_def uf_wf_def)

lemma uf_inv_new: "0 < w \<Longrightarrow> 0 < n \<Longrightarrow> n < 256 ^ w \<Longrightarrow> uf_inv (uf_new w n) []"
  by (simp add: uf_inv_def uf_new_def uf_wf_def)

lemma uf_step_queue:
  assumes "uf_queue w n s"
  shows "\<exists>s'. uf_step u s = Some s' \<and> uf_queue w n s'"
proof -
  obtain acc out r where s: "s = (acc, out, r)" by (cases s)
  with assms obtain xs where q: "acc = out @ xs" "uf_inv r xs" "uf_width r = w" "uf_size r = n" by (auto simp: uf_queue_def)
  show ?thesis
  proof (cases u)
    case (UPush iov ow)
    consider "uf_push_iov iov ow r = Some (False, [], r)"
      | k r' where "uf_push_iov iov ow r = Some (True, take k xs, r')" "uf_inv r' (drop k xs @ [concat iov])"
          "uf_width r' = uf_width r" "uf_size r' = uf_size r"
      using uf_push_iov_spec [OF q(2), of iov ow] by (auto split: if_splits)
    then show ?thesis
    proof cases
      case 1
      with s q UPush show ?thesis by (simp add: uf_queue_def)
    next
      case 2
      with s q UPush show ?thesis by (simp add: uf_queue_def exI [of _ "drop k xs @ [concat iov]"])
    qed
  next
    case UPop
    show ?thesis
    proof (cases xs)
      case Nil
      with s q UPop uf_pop_empty show ?thesis by (simp add: uf_queue_def)
    next
      case (Cons x ys)
      with uf_pop_step q(2) obtain r' where "uf_pop r = Some ([x], r')" "uf_inv r' ys" "uf_width r' = uf_width r" "uf_size r' = uf_size r"
        by blast
      with s q UPop Cons show ?thesis by (simp add: uf_queue_def)
    qed
  next
    case UClear
    with s q uf_inv_clear [OF q(2)] show ?thesis by (simp add: uf_queue_def uf_clear_def)
  qed
qed

lemma uf_run_queue: "uf_queue w n s \<Longrightarrow> \<exists>s'. uf_run us s = Some s' \<and> uf_queue w n s'"
proof (induction us arbitrary: s)
  case (Cons u us)
  from uf_step_queue [OF Cons.prems, of u] Cons.IH show ?case by fastforce
qed simp

text \<open>C5. From an empty buffer of any capacity that fits its integer type, every sequence of pushes (of one
  or many parts, overwriting or not), pops and clears runs without a failed assertion and without an access
  outside the buffer, every call returns, and since the last clear the entries handed out followed by those
  still in the buffer are the accepted entries, byte for byte and in order, however the entries are split by
  the end of the buffer; \<^verbatim>\<open>get_num\<close> counts the latter, \<^verbatim>\<open>front\<close> finds each of
  them by its index and nothing else; an overwriting push is accepted exactly if the entry and its header
  fit into an empty buffer, and takes the oldest entries off; one that does not overwrite and is refused
  changes nothing.\<close>

theorem uf_run_is_queue:
  assumes "0 < w" "0 < n" "n < 256 ^ w"
  shows "\<exists>acc out r xs. uf_run us ([], [], uf_new w n) = Some (acc, out, r) \<and> acc = out @ xs \<and> uf_get_num r = length xs
    \<and> (\<forall>i. uf_front r i = Some (if i < length xs then Some (xs ! i) else None))
    \<and> (\<forall>iov. if length (concat iov) + 2 * w \<le> n
         then \<exists>k r'. uf_push_iov iov True r = Some (True, take k xs, r') \<and> uf_get_num r' = length xs - k + 1
         else uf_push_iov iov True r = Some (False, [], r))
    \<and> (\<forall>iov l r'. uf_push_iov iov False r = Some (False, l, r') \<longrightarrow> l = [] \<and> r' = r)"
proof -
  have "uf_queue w n ([], [], uf_new w n)"
    using uf_inv_new [OF assms] by (simp add: uf_queue_def uf_new_def)
  then obtain s where s: "uf_run us ([], [], uf_new w n) = Some s" "uf_queue w n s" using uf_run_queue by blast
  obtain acc out r where "s = (acc, out, r)" by (cases s)
  with s obtain xs where q: "uf_run us ([], [], uf_new w n) = Some (acc, out, r)" "acc = out @ xs" "uf_inv r xs"
    "uf_width r = w" "uf_size r = n" by (auto simp: uf_queue_def)
  have over: "if length (concat iov) + 2 * w \<le> n
      then \<exists>k r'. uf_push_iov iov True r = Some (True, take k xs, r') \<and> uf_get_num r' = length xs - k + 1
      else uf_push_iov iov True r = Some (False, [], r)" for iov
  proof (cases "length (concat iov) + 2 * w \<le> n")
    case True
    with uf_push_iov_spec [OF q(3), of iov True] q(4,5) obtain k r' where
      "uf_push_iov iov True r = Some (True, take k xs, r')" "uf_inv r' (drop k xs @ [concat iov])"
      by (auto simp: uf_H_def split: if_splits)
    with True show ?thesis by (auto simp: uf_get_num_def uf_inv_def intro!: exI [of _ k])
  next
    case False
    with uf_push_iov_spec [OF q(3), of iov True] q(4,5) show ?thesis by (simp add: uf_H_def)
  qed
  have keep: "uf_push_iov iov False r = Some (False, l, r') \<longrightarrow> l = [] \<and> r' = r" for iov l r'
    using uf_push_iov_spec [OF q(3), of iov False] by (auto split: if_splits)
  have "uf_get_num r = length xs" using q(3) by (simp add: uf_get_num_def uf_inv_def)
  with q(1,2) uf_front_result [OF q(3)] over keep show ?thesis by blast
qed

theorem uf_run_is_queue_witness:
  "\<exists>acc out r xs. uf_run [UPush [[1, 2], [3]] False, UPush [[4, 5, 6]] True, UPop, UPush [[7, 8, 9, 10, 11, 12, 13]] True]
      ([], [], uf_new 1 12) = Some (acc, out, r) \<and> acc = out @ xs \<and> uf_get_num r = length xs
    \<and> (\<forall>i. uf_front r i = Some (if i < length xs then Some (xs ! i) else None))
    \<and> (\<forall>iov. if length (concat iov) + 2 * 1 \<le> 12
         then \<exists>k r'. uf_push_iov iov True r = Some (True, take k xs, r') \<and> uf_get_num r' = length xs - k + 1
         else uf_push_iov iov True r = Some (False, [], r))
    \<and> (\<forall>iov l r'. uf_push_iov iov False r = Some (False, l, r') \<longrightarrow> l = [] \<and> r' = r)"
  by (rule uf_run_is_queue) simp_all

end
