(* ===== verification/HashMemPool.thy ===== *)
theory HashMemPool
  imports FixedMemPool Interfaces
begin

text \<open>
  \<^verbatim>\<open>src/containers/hash_mem_pool.h\<close>: the hash map whose nodes are allocated in a
  \<^verbatim>\<open>FixedMemPool\<close>.  The block is the header, the buckets and the pool; a node is an
  entry with the index of the next node of its bucket, and a bucket is the index of its first node, 0 for
  none.  An iterator is the index of its node, 0 for \<^verbatim>\<open>end()\<close>.  \<open>h\<close> is
  \<^verbatim>\<open>HASH\<close>, \<open>base\<close> the address of the pool, \<open>z\<close> a node of zero bytes.
\<close>

section \<open>State\<close>

record ('k, 'v) hnode = "('k, 'v) kv" +
  hn_next :: nat

record ('k, 'v) hash_pool =
  hp_bucket_num :: nat
  hp_max_node :: nat
  hp_buckets :: "nat list"
  hp_pool :: "('k, 'v) hnode pool"

definition hp_cell :: "('k, 'v) hash_pool \<Rightarrow> nat \<Rightarrow> ('k, 'v) hnode" where
  "hp_cell s i = fp_cells (hp_pool s) ! (i - 1)"

definition hp_nx :: "('k, 'v) hash_pool \<Rightarrow> nat \<Rightarrow> nat" where
  "hp_nx s i = hn_next (hp_cell s i)"

definition hp_set_cell :: "nat \<Rightarrow> ('k, 'v) hnode \<Rightarrow> ('k, 'v) hash_pool \<Rightarrow> ('k, 'v) hash_pool" where
  "hp_set_cell i c s = s\<lparr>hp_pool := (hp_pool s)\<lparr>fp_cells := (fp_cells (hp_pool s))[i - 1 := c]\<rparr>\<rparr>"

text \<open>\<open>sn\<close> is \<^verbatim>\<open>sizeof(HashNode)\<close>, \<open>si\<close> that of its base class, the element type of the pool.\<close>

definition hp_calc_mem_size :: "nat \<Rightarrow> nat \<Rightarrow> nat \<Rightarrow> nat \<Rightarrow> nat" where
  "hp_calc_mem_size al sn max_node bucket_num = (16 + 8 * bucket_num + fp_calc_need_size al max_node sn) mod 2 ^ 64"

definition hp_init :: "nat \<Rightarrow> nat \<Rightarrow> nat \<Rightarrow> ('k, 'v) hash_pool option \<Rightarrow> nat \<Rightarrow> nat \<Rightarrow> nat \<Rightarrow> bool
    \<Rightarrow> bool \<times> ('k, 'v) hash_pool option" where
  "hp_init al si sn mem max_node bucket_num mem_size check =
     (case mem of
        None \<Rightarrow> (False, None)
      | Some s \<Rightarrow>
          if hp_calc_mem_size al sn max_node bucket_num < mem_size then (False, mem)
          else if check \<and> (hp_bucket_num s \<noteq> bucket_num \<or> hp_max_node s \<noteq> max_node) then (False, mem)
          else
            let s = (if check then s
                     else s\<lparr>hp_buckets := replicate bucket_num 0, hp_bucket_num := bucket_num, hp_max_node := max_node\<rparr>);
                pool_size = fp_calc_need_size al max_node sn
            in case fp_init al si (Some (hp_pool s)) pool_size max_node sn check of
                 (ok, None) \<Rightarrow> (ok, Some s)
               | (ok, Some p) \<Rightarrow> (ok, Some (s\<lparr>hp_pool := p\<rparr>)))"

definition hp_clear :: "nat \<Rightarrow> nat \<Rightarrow> nat \<Rightarrow> ('k, 'v) hash_pool \<Rightarrow> ('k, 'v) hash_pool option" where
  "hp_clear al si sn s =
     snd (hp_init al si sn (Some s) (hp_max_node s mod 2 ^ 32) (hp_bucket_num s mod 2 ^ 32)
       (hp_calc_mem_size al sn (hp_max_node s mod 2 ^ 32) (hp_bucket_num s mod 2 ^ 32) mod 2 ^ 32) False)"

section \<open>Operations\<close>

definition hp_size :: "('k, 'v) hash_pool \<Rightarrow> nat" where
  "hp_size s = fp_size (hp_pool s)"

definition hp_capacity :: "('k, 'v) hash_pool \<Rightarrow> nat" where
  "hp_capacity s = fp_max_num (hp_pool s)"

definition hp_empty :: "('k, 'v) hash_pool \<Rightarrow> bool" where
  "hp_empty s = fp_empty (hp_pool s)"

definition hp_full :: "('k, 'v) hash_pool \<Rightarrow> bool" where
  "hp_full s = fp_full (hp_pool s)"

definition hp_value_offset :: "('k, 'v) hash_pool \<Rightarrow> nat" where
  "hp_value_offset s = 16 + 8 * hp_bucket_num s + fp_value_offset (hp_pool s)"

definition hp_mem_size :: "('k, 'v) hash_pool \<Rightarrow> nat" where
  "hp_mem_size s = 16 + 8 * hp_bucket_num s + fp_mem_size (hp_pool s)"

text \<open>No bucket is a division by zero.\<close>

definition hp_bucket_index :: "('k \<Rightarrow> nat) \<Rightarrow> 'k \<Rightarrow> ('k, 'v) hash_pool \<Rightarrow> nat option" where
  "hp_bucket_index h key s = do { cassert (hp_bucket_num s > 0); Some (h key mod hp_bucket_num s) }"

partial_function (option) hp_find_loop :: "nat \<Rightarrow> 'k \<Rightarrow> ('k, 'v) hash_pool \<Rightarrow> nat \<Rightarrow> nat option" where
  "hp_find_loop base key s ref =
     (if ref = 0 then Some 0
      else do {
        _ \<leftarrow> fp_int_2_ptr base (hp_pool s) ref;
        if kv_first (hp_cell s ref) = key then Some ref else hp_find_loop base key s (hp_nx s ref) })"

declare hp_find_loop.simps [code]

definition hp_find_ref :: "('k \<Rightarrow> nat) \<Rightarrow> nat \<Rightarrow> 'k \<Rightarrow> ('k, 'v) hash_pool \<Rightarrow> nat option" where
  "hp_find_ref h base key s = do {
     index \<leftarrow> hp_bucket_index h key s;
     hp_find_loop base key s (hp_buckets s ! index) }"

text \<open>\<^verbatim>\<open>find\<close> wraps the index in an iterator.\<close>

definition hp_find :: "('k \<Rightarrow> nat) \<Rightarrow> nat \<Rightarrow> 'k \<Rightarrow> ('k, 'v) hash_pool \<Rightarrow> nat option" where
  "hp_find h base key s = hp_find_ref h base key s"

definition hp_insert :: "('k \<Rightarrow> nat) \<Rightarrow> ('k, 'v) hnode \<Rightarrow> nat \<Rightarrow> 'k \<Rightarrow> ('k, 'v) hash_pool
    \<Rightarrow> ((nat \<times> bool) \<times> ('k, 'v) hash_pool) option" where
  "hp_insert h z base key s =
     (if hp_full s then Some ((0, False), s)
      else do {
        node_ref \<leftarrow> hp_find_ref h base key s;
        if node_ref \<noteq> 0 then Some ((node_ref, False), s)
        else do {
          (node, p) \<leftarrow> fp_alloc z base True (hp_pool s);
          s \<leftarrow> Some (s\<lparr>hp_pool := p\<rparr>);
          (case node of
             None \<Rightarrow> Some ((0, False), s)
           | Some a \<Rightarrow> do {
               i \<leftarrow> Some (fp_ptr_2_int base p a);
               index \<leftarrow> hp_bucket_index h key s;
               s \<leftarrow> Some (hp_set_cell i ((hp_cell s i)\<lparr>kv_first := key, hn_next := hp_buckets s ! index\<rparr>) s);
               s \<leftarrow> Some (s\<lparr>hp_buckets := (hp_buckets s)[index := i]\<rparr>);
               Some ((hp_buckets s ! index, True), s) }) } })"

definition hp_insert_value :: "('k \<Rightarrow> nat) \<Rightarrow> ('k, 'v) hnode \<Rightarrow> nat \<Rightarrow> 'k \<Rightarrow> 'v \<Rightarrow> ('k, 'v) hash_pool
    \<Rightarrow> ((nat \<times> bool) \<times> ('k, 'v) hash_pool) option" where
  "hp_insert_value h z base key v s = do {
     ((i, inserted), s) \<leftarrow> hp_insert h z base key s;
     if inserted then do {
       _ \<leftarrow> fp_int_2_ptr base (hp_pool s) i;
       Some ((i, inserted), hp_set_cell i ((hp_cell s i)\<lparr>kv_second := v\<rparr>) s) }
     else Some ((i, inserted), s) }"

definition hp_get_or_insert :: "('k \<Rightarrow> nat) \<Rightarrow> ('k, 'v) hnode \<Rightarrow> nat \<Rightarrow> 'k \<Rightarrow> ('k, 'v) hash_pool
    \<Rightarrow> (nat \<times> ('k, 'v) hash_pool) option" where
  "hp_get_or_insert h z base key s = do {
     ref \<leftarrow> hp_find_ref h base key s;
     if ref \<noteq> 0 then Some (ref, s)
     else do { ((i, _), s) \<leftarrow> hp_insert h z base key s; Some (i, s) } }"

text \<open>\<^verbatim>\<open>pre\<close> points at a bucket or at the link of a node.\<close>

datatype hp_ptr = HBucket nat | HNext nat

fun hp_store :: "hp_ptr \<Rightarrow> nat \<Rightarrow> ('k, 'v) hash_pool \<Rightarrow> ('k, 'v) hash_pool" where
  "hp_store (HBucket b) v s = s\<lparr>hp_buckets := (hp_buckets s)[b := v]\<rparr>"
| "hp_store (HNext i) v s = hp_set_cell i ((hp_cell s i)\<lparr>hn_next := v\<rparr>) s"

partial_function (option) hp_erase_loop :: "nat \<Rightarrow> 'k \<Rightarrow> hp_ptr \<Rightarrow> nat \<Rightarrow> ('k, 'v) hash_pool
    \<Rightarrow> (bool \<times> ('k, 'v) hash_pool) option" where
  "hp_erase_loop base key pre ref s =
     (if ref = 0 then Some (False, s)
      else do {
        a \<leftarrow> fp_int_2_ptr base (hp_pool s) ref;
        if kv_first (hp_cell s ref) = key then do {
          s \<leftarrow> Some (hp_store pre (hp_nx s ref) s);
          (_, p) \<leftarrow> fp_free base a (hp_pool s);
          Some (True, s\<lparr>hp_pool := p\<rparr>) }
        else hp_erase_loop base key (HNext ref) (hp_nx s ref) s })"

declare hp_erase_loop.simps [code]

definition hp_erase :: "('k \<Rightarrow> nat) \<Rightarrow> nat \<Rightarrow> 'k \<Rightarrow> ('k, 'v) hash_pool \<Rightarrow> (bool \<times> ('k, 'v) hash_pool) option" where
  "hp_erase h base key s = do {
     index \<leftarrow> hp_bucket_index h key s;
     hp_erase_loop base key (HBucket index) (hp_buckets s ! index) s }"

text \<open>\<^verbatim>\<open>erase(it)\<close>, the iterator and the references.\<close>

definition hp_erase_iter :: "('k \<Rightarrow> nat) \<Rightarrow> nat \<Rightarrow> nat \<Rightarrow> ('k, 'v) hash_pool \<Rightarrow> (bool \<times> ('k, 'v) hash_pool) option" where
  "hp_erase_iter h base i s = do {
     _ \<leftarrow> fp_int_2_ptr base (hp_pool s) i;
     hp_erase h base (kv_first (hp_cell s i)) s }"

definition hp_begin :: "('k, 'v) hash_pool \<Rightarrow> nat" where
  "hp_begin s = fp_begin (hp_pool s)"

definition hp_iter_next :: "('k, 'v) hash_pool \<Rightarrow> nat \<Rightarrow> nat option" where
  "hp_iter_next s i = fp_iter_next (hp_pool s) i"

definition hp_iter_prev :: "('k, 'v) hash_pool \<Rightarrow> nat \<Rightarrow> nat option" where
  "hp_iter_prev s i = fp_iter_prev (hp_pool s) i"

definition hp_ref :: "nat \<Rightarrow> nat \<Rightarrow> ('k, 'v) hash_pool \<Rightarrow> nat" where
  "hp_ref base a s = fp_ptr_2_int base (hp_pool s) a"

definition hp_deref :: "nat \<Rightarrow> nat \<Rightarrow> ('k, 'v) hash_pool \<Rightarrow> nat option" where
  "hp_deref base pos s = fp_int_2_ptr base (hp_pool s) pos"

section \<open>Invariant\<close>

text \<open>The chains of the buckets hold exactly the nodes in use, every node in the bucket of its key.\<close>

definition hp_key :: "('k, 'v) hash_pool \<Rightarrow> nat \<Rightarrow> 'k" where
  "hp_key s i = kv_first (hp_cell s i)"

definition hp_used :: "('k, 'v) hash_pool \<Rightarrow> nat set" where
  "hp_used s = set (fp_order (hp_pool s))"

definition hp_rep :: "('k \<Rightarrow> nat) \<Rightarrow> ('k, 'v) hash_pool \<Rightarrow> nat list list \<Rightarrow> bool" where
  "hp_rep h s cs \<longleftrightarrow> fp_ok (hp_pool s) \<and> hp_bucket_num s = length cs \<and> length (hp_buckets s) = length cs \<and> 0 < length cs
     \<and> (\<forall>b < length cs. chain (hp_nx s) (hp_buckets s ! b) (cs ! b))
     \<and> distinct (concat cs) \<and> set (concat cs) = hp_used s
     \<and> (\<forall>b < length cs. \<forall>i \<in> set (cs ! b). h (hp_key s i) mod length cs = b) \<and> inj_on (hp_key s) (hp_used s)"

definition hp_ok :: "('k \<Rightarrow> nat) \<Rightarrow> ('k, 'v) hash_pool \<Rightarrow> bool" where
  "hp_ok h s \<longleftrightarrow> (\<exists>cs. hp_rep h s cs)"

definition hp_entry :: "('k, 'v) hash_pool \<Rightarrow> nat \<Rightarrow> ('k, 'v) kv" where
  "hp_entry s i = \<lparr>kv_first = kv_first (hp_cell s i), kv_second = kv_second (hp_cell s i)\<rparr>"

definition hp_lookup :: "('k, 'v) hash_pool \<Rightarrow> 'k \<Rightarrow> (nat \<times> ('k, 'v) kv) option" where
  "hp_lookup s k = (case List.find (\<lambda>i. hp_key s i = k) (fp_order (hp_pool s)) of
     None \<Rightarrow> None | Some i \<Rightarrow> Some (i, hp_entry s i))"

lemma hp_used_bounds:
  assumes "fp_ok (hp_pool s)" "i \<in> hp_used s"
  shows "0 < i" "i \<le> fp_max_num (hp_pool s)" "i - 1 < length (fp_cells (hp_pool s))"
proof -
  note r = fp_ok_rep [OF assms(1)]
  show b: "0 < i" "i \<le> fp_max_num (hp_pool s)" using fp_rep_slot [OF r, of i] assms(2) by (simp_all add: hp_used_def)
  show "i - 1 < length (fp_cells (hp_pool s))" using b r by (auto simp: fp_rep_def)
qed

lemma hp_lookup_some:
  assumes "inj_on (hp_key s) (hp_used s)"
  shows "hp_lookup s k = Some (i, v) \<longleftrightarrow> i \<in> hp_used s \<and> hp_key s i = k \<and> v = hp_entry s i"
proof (cases "List.find (\<lambda>i. hp_key s i = k) (fp_order (hp_pool s))")
  case None
  then have "\<forall>i \<in> hp_used s. hp_key s i \<noteq> k" by (auto simp: find_None_iff hp_used_def)
  with None show ?thesis by (auto simp: hp_lookup_def)
next
  case (Some j)
  then have "j \<in> hp_used s" "hp_key s j = k" by (auto simp: find_Some_iff hp_used_def)
  with Some assms show ?thesis by (auto simp: hp_lookup_def inj_on_def)
qed

lemma hp_lookup_none:
  assumes "inj_on (hp_key s) (hp_used s)"
  shows "hp_lookup s k = None \<longleftrightarrow> (\<forall>i \<in> hp_used s. hp_key s i \<noteq> k)"
  using hp_lookup_some [OF assms, of k] by (cases "hp_lookup s k") force+

lemma hp_lookup_eqI:
  assumes "inj_on (hp_key s) (hp_used s)"
    and "\<And>k i v. m k = Some (i, v) \<longleftrightarrow> i \<in> hp_used s \<and> hp_key s i = k \<and> v = hp_entry s i"
  shows "hp_lookup s = m"
proof
  fix k
  show "hp_lookup s k = m k"
    using hp_lookup_some [OF assms(1), of k] assms(2) [of k] by (cases "m k"; cases "hp_lookup s k") auto
qed

text \<open>Writing the content of nodes leaves the pool.\<close>

lemma fp_cells_update [simp]:
  "fp_order (p\<lparr>fp_cells := cs\<rparr>) = fp_order p" "fp_frees (p\<lparr>fp_cells := cs\<rparr>) = fp_frees p"
  "fp_addr base (p\<lparr>fp_cells := cs\<rparr>) = fp_addr base p" "fp_ptr_2_int base (p\<lparr>fp_cells := cs\<rparr>) = fp_ptr_2_int base p"
  "fp_allocated base (p\<lparr>fp_cells := cs\<rparr>) = fp_allocated base p" "fp_int_2_ptr base (p\<lparr>fp_cells := cs\<rparr>) = fp_int_2_ptr base p"
  "fp_full (p\<lparr>fp_cells := cs\<rparr>) = fp_full p" "fp_size (p\<lparr>fp_cells := cs\<rparr>) = fp_size p"
  by (simp_all add: fp_order_def fp_frees_def fp_addr_def fp_ptr_2_int_def fp_allocated_def fp_int_2_ptr_def fp_full_def
      fp_size_def fun_eq_iff image_def Let_def)

lemma fp_ok_cells [simp]: "length cs = length (fp_cells p) \<Longrightarrow> fp_ok (p\<lparr>fp_cells := cs\<rparr>) = fp_ok p"
  by (simp add: fp_ok_def fp_rep_def)

lemma hp_set_cell_simps [simp]:
  "hp_buckets (hp_set_cell i c s) = hp_buckets s" "hp_bucket_num (hp_set_cell i c s) = hp_bucket_num s"
  "hp_max_node (hp_set_cell i c s) = hp_max_node s" "hp_used (hp_set_cell i c s) = hp_used s"
  "fp_ok (hp_pool (hp_set_cell i c s)) = fp_ok (hp_pool s)"
  "fp_max_num (hp_pool (hp_set_cell i c s)) = fp_max_num (hp_pool s)"
  "fp_order (hp_pool (hp_set_cell i c s)) = fp_order (hp_pool s)"
  "fp_int_2_ptr base (hp_pool (hp_set_cell i c s)) = fp_int_2_ptr base (hp_pool s)"
  by (simp_all add: hp_set_cell_def hp_used_def)

lemma hp_cell_set:
  "0 < i \<Longrightarrow> 0 < j \<Longrightarrow> i - 1 < length (fp_cells (hp_pool s)) \<Longrightarrow>
    hp_cell (hp_set_cell i c s) j = (if i = j then c else hp_cell s j)"
  by (auto simp: hp_cell_def hp_set_cell_def nth_list_update)

section \<open>Looking up\<close>

lemma hp_find_loop_chain:
  "chain (hp_nx s) i xs \<Longrightarrow> \<forall>x \<in> set xs. 0 < x \<and> x \<le> fp_max_num (hp_pool s) \<Longrightarrow>
    hp_find_loop base key s i = Some (found (List.find (\<lambda>i. hp_key s i = key) xs))"
proof (induction xs arbitrary: i)
  case Nil
  then show ?case by (simp add: hp_find_loop.simps)
next
  case (Cons x xs)
  then show ?case by (simp add: hp_find_loop.simps [of base key s x] fp_int_2_ptr_def hp_key_def)
qed

lemma hp_chain_bounds:
  assumes "hp_rep h s cs" "b < length cs" "x \<in> set (cs ! b)"
  shows "x \<in> hp_used s" "0 < x" "x \<le> fp_max_num (hp_pool s)"
proof -
  show u: "x \<in> hp_used s" using assms in_concat_nth [of x cs] by (auto simp: hp_rep_def)
  show "0 < x" "x \<le> fp_max_num (hp_pool s)" using hp_used_bounds [OF _ u] assms(1) by (simp_all add: hp_rep_def)
qed

lemma hp_bucket_find:
  assumes r: "hp_rep h s cs"
  shows "found (List.find (\<lambda>i. hp_key s i = k) (cs ! (h k mod length cs))) = (case hp_lookup s k of None \<Rightarrow> 0 | Some (i, _) \<Rightarrow> i)"
proof -
  let ?b = "h k mod length cs" and ?P = "\<lambda>i. hp_key s i = k"
  have b: "?b < length cs" and inj: "inj_on (hp_key s) (hp_used s)" using r by (simp_all add: hp_rep_def)
  note sub = hp_chain_bounds [OF r b]
  show ?thesis
  proof (cases "hp_lookup s k")
    case None
    then have "\<forall>i \<in> set (cs ! ?b). \<not> ?P i" using hp_lookup_none [OF inj] sub(1) by blast
    then have "List.find ?P (cs ! ?b) = None" by (auto simp: find_None_iff)
    with None show ?thesis by simp
  next
    case (Some e)
    then obtain i where i: "hp_lookup s k = Some (i, hp_entry s i)" "i \<in> hp_used s" "hp_key s i = k"
      using hp_lookup_some [OF inj, of k "fst e" "snd e"] by (cases e) auto
    then obtain c where c: "c < length cs" "i \<in> set (cs ! c)" using r in_concat_nth [of i cs] by (auto simp: hp_rep_def)
    then have "c = ?b" using r i(3) by (auto simp: hp_rep_def)
    with c i(3) have "\<not> (\<forall>x \<in> set (cs ! ?b). \<not> ?P x)" by blast
    then have "found (List.find ?P (cs ! ?b)) \<noteq> 0"
      using found_find_0 [of "cs ! ?b" ?P] sub(2) by blast
    from found_find_nonzero [OF this] inj i sub(1) have "found (List.find ?P (cs ! ?b)) = i"
      by (auto simp: inj_on_def)
    with i(1) show ?thesis by simp
  qed
qed

lemma hp_find_ref_spec:
  assumes r: "hp_rep h s cs"
  shows "hp_find_ref h base k s = Some (case hp_lookup s k of None \<Rightarrow> 0 | Some (i, _) \<Rightarrow> i)"
proof -
  let ?b = "h k mod length cs"
  have b: "?b < length cs" "hp_bucket_num s = length cs" "0 < length cs" using r by (simp_all add: hp_rep_def)
  then have "chain (hp_nx s) (hp_buckets s ! ?b) (cs ! ?b)" using r by (simp add: hp_rep_def)
  from hp_find_loop_chain [OF this, of base k] hp_chain_bounds [OF r b(1)]
  have "hp_find_loop base k s (hp_buckets s ! ?b) = Some (found (List.find (\<lambda>i. hp_key s i = k) (cs ! ?b)))" by blast
  then show ?thesis using b by (simp add: hp_find_ref_def hp_bucket_index_def hp_bucket_find [OF r])
qed

lemma hp_lookup_card:
  assumes r: "hp_rep h s cs"
  shows "finite (dom (hp_lookup s))" "card (dom (hp_lookup s)) = hp_size s" "hp_size s \<le> hp_capacity s"
proof -
  have inj: "inj_on (hp_key s) (hp_used s)" and ok: "fp_ok (hp_pool s)" using r by (simp_all add: hp_rep_def)
  have d: "dom (hp_lookup s) = hp_key s ` hp_used s"
    using hp_lookup_some [OF inj] by (auto simp: dom_def image_iff)
  show "finite (dom (hp_lookup s))" unfolding d by (simp add: hp_used_def)
  show "card (dom (hp_lookup s)) = hp_size s" unfolding d
    using inj fp_ok_used [OF ok] by (simp add: card_image hp_size_def fp_size_def hp_used_def)
  show "hp_size s \<le> hp_capacity s" using fp_ok_used(2) [OF ok] by (simp add: hp_size_def fp_size_def hp_capacity_def)
qed

section \<open>Inserting and erasing\<close>

text \<open>Replacing the chain of one bucket.\<close>

lemma hp_rep_bucket:
  assumes r: "hp_rep h s cs" and b: "b < length cs"
    and t: "fp_ok (hp_pool t)" "hp_bucket_num t = hp_bucket_num s" "length (hp_buckets t) = length (hp_buckets s)"
      "\<And>c. c \<noteq> b \<Longrightarrow> hp_buckets t ! c = hp_buckets s ! c"
      "\<And>x. x \<in> hp_used s - set (cs ! b) \<Longrightarrow> hp_nx t x = hp_nx s x \<and> hp_key t x = hp_key s x"
    and ys: "chain (hp_nx t) (hp_buckets t ! b) ys" "distinct ys" "set ys \<inter> (hp_used s - set (cs ! b)) = {}"
      "hp_used t = (hp_used s - set (cs ! b)) \<union> set ys" "\<And>i. i \<in> set ys \<Longrightarrow> h (hp_key t i) mod length cs = b"
      "inj_on (hp_key t) (hp_used t)"
  shows "hp_rep h t (cs[b := ys])"
proof -
  have d: "distinct (concat cs)" and u: "set (concat cs) = hp_used s" using r by (simp_all add: hp_rep_def)
  have other: "x \<in> hp_used s - set (cs ! b)" if "c < length cs" "c \<noteq> b" "x \<in> set (cs ! c)" for c x
    using that u in_concat_nth [of x cs] concat_distinct_nth [OF d, of x c b] b by auto
  have rest: "set (concat (take b cs) @ concat (drop (Suc b) cs)) = hp_used s - set (cs ! b)"
    "distinct (concat (take b cs) @ concat (drop (Suc b) cs))"
    using d u concat_split [OF b] by auto
  have "distinct (concat (cs[b := ys]))" "set (concat (cs[b := ys])) = hp_used t"
    unfolding concat_upd [OF b] using rest ys(2,3,4) by (auto simp: disjoint_iff)
  moreover have "chain (hp_nx t) (hp_buckets t ! c) (cs[b := ys] ! c)" if c: "c < length cs" for c
  proof (cases "c = b")
    case False
    have "chain (hp_nx s) (hp_buckets s ! c) (cs ! c)" using r c by (simp add: hp_rep_def)
    moreover have "chain (hp_nx t) (hp_buckets s ! c) (cs ! c) = chain (hp_nx s) (hp_buckets s ! c) (cs ! c)"
      by (rule chain_cong) (use other [OF c False] t(5) in blast)
    ultimately show ?thesis using False t(4) by simp
  qed (use ys(1) b in simp)
  moreover have "h (hp_key t i) mod length cs = c" if c: "c < length cs" "i \<in> set (cs[b := ys] ! c)" for c i
  proof (cases "c = b")
    case False
    then have i: "i \<in> set (cs ! c)" using c by simp
    then have "hp_key t i = hp_key s i" using other [OF c(1) False] t(5) by blast
    then show ?thesis using r c(1) i by (simp add: hp_rep_def)
  qed (use ys(5) b c in simp)
  ultimately show ?thesis using r t(1-3) ys(6) by (simp add: hp_rep_def)
qed

lemma hp_lookup_insert:
  assumes inj: "inj_on (hp_key s) (hp_used s)" "inj_on (hp_key t) (hp_used t)"
    and used: "hp_used t = insert i (hp_used s)" "i \<notin> hp_used s" and new: "hp_key t i = k" "hp_entry t i = v"
      "\<And>x. x \<in> hp_used s \<Longrightarrow> hp_key t x = hp_key s x \<and> hp_key s x \<noteq> k \<and> hp_entry t x = hp_entry s x"
  shows "hp_lookup t = (hp_lookup s)(k \<mapsto> (i, v))"
proof (rule hp_lookup_eqI [OF inj(2)])
  fix k' j w
  show "((hp_lookup s)(k \<mapsto> (i, v))) k' = Some (j, w) \<longleftrightarrow> j \<in> hp_used t \<and> hp_key t j = k' \<and> w = hp_entry t j"
    using hp_lookup_some [OF inj(1), of k' j w] used new by (cases "k' = k") auto
qed

lemma hp_insert_new:
  assumes r: "hp_rep h s cs" and new: "hp_lookup s k = None" and nf: "\<not> hp_full s"
  shows "\<exists>i t. hp_insert h z base k s = Some ((i, True), t) \<and> hp_ok h t \<and> hp_capacity t = hp_capacity s
    \<and> i \<in> hp_used t \<and> hp_lookup t = (hp_lookup s)(k \<mapsto> (i, \<lparr>kv_first = k, kv_second = kv_second z\<rparr>))"
proof -
  let ?p = "hp_pool s" and ?b = "h k mod length cs"
  have ok: "fp_ok ?p" and inj: "inj_on (hp_key s) (hp_used s)" and b: "?b < length cs" "hp_bucket_num s = length cs"
    "0 < length cs" "length (hp_buckets s) = length cs" using r by (simp_all add: hp_rep_def)
  have absent: "\<forall>x \<in> hp_used s. hp_key s x \<noteq> k" using hp_lookup_none [OF inj] new by blast
  from fp_alloc_step [OF ok, of z base True] nf obtain i q where
    q: "fp_alloc z base True ?p = Some (Some (fp_addr base ?p i), q)" "fp_ok q" "fp_same_layout ?p q"
      "fp_order q = i # fp_order ?p" "i \<notin> set (fp_order ?p)" "0 < i" "i \<le> fp_max_num ?p"
      "fp_cells q = (fp_cells ?p)[i - 1 := z]" unfolding hp_full_def by auto
  have t0: "0 < fp_t_size ?p" using fp_ok_rep [OF ok] by (simp add: fp_rep_def)
  have ptr: "fp_ptr_2_int base q (fp_addr base ?p i) = i"
    using fp_ptr_addr [OF t0 q(6)] fp_same_layout_ptr [OF q(3)] by simp
  have len: "i - 1 < length (fp_cells ?p)" using fp_ok_rep [OF ok] q(6,7) by (auto simp: fp_rep_def)
  let ?s1 = "s\<lparr>hp_pool := q\<rparr>"
  let ?c = "(hp_cell ?s1 i)\<lparr>kv_first := k, hn_next := hp_buckets s ! ?b\<rparr>"
  let ?t = "(hp_set_cell i ?c ?s1)\<lparr>hp_buckets := (hp_buckets s)[?b := i]\<rparr>"
  have ins: "hp_insert h z base k s = Some ((i, True), ?t)"
    using nf hp_find_ref_spec [OF r, of base k] new q(1) ptr b by (simp add: hp_insert_def hp_bucket_index_def)
  have cell: "hp_cell ?t j = (if j = i then z\<lparr>kv_first := k, hn_next := hp_buckets s ! ?b\<rparr> else hp_cell s j)" if "0 < j" for j
    using that q(6,8) len by (auto simp: hp_cell_def hp_set_cell_def nth_list_update)
  have used: "hp_used ?t = insert i (hp_used s)" "i \<notin> hp_used s" using q(4,5) by (simp_all add: hp_used_def hp_set_cell_def)
  have same: "hp_cell ?t x = hp_cell s x" if "x \<in> hp_used s" for x
    using cell [of x] hp_used_bounds(1) [OF ok that] used(2) that by auto
  have key: "hp_key ?t x = (if x = i then k else hp_key s x)" if "x \<in> hp_used ?t" for x
    using that used same [of x] cell [OF q(6)] by (auto simp: hp_key_def)
  have inj': "inj_on (hp_key ?t) (hp_used ?t)" using inj absent key used by (auto simp: inj_on_def)
  have sub: "set (cs ! ?b) \<subseteq> hp_used s" using hp_chain_bounds(1) [OF r b(1)] by blast
  have "hp_rep h ?t (cs[?b := i # cs ! ?b])"
  proof (rule hp_rep_bucket [OF r b(1)])
    have "chain (hp_nx ?t) (hp_buckets s ! ?b) (cs ! ?b) = chain (hp_nx s) (hp_buckets s ! ?b) (cs ! ?b)"
      by (rule chain_cong) (use sub same in \<open>auto simp: hp_nx_def\<close>)
    then show "chain (hp_nx ?t) (hp_buckets ?t ! ?b) (i # cs ! ?b)"
      using r b q(6) cell [OF q(6)] by (simp add: hp_rep_def hp_nx_def)
    have "distinct (cs ! ?b)" using r b concat_split [OF b(1)] by (auto simp: hp_rep_def)
    then show "distinct (i # cs ! ?b)" using used(2) sub by auto
    show "h (hp_key ?t x) mod length cs = ?b" if "x \<in> set (i # cs ! ?b)" for x
      using that key [of x] used r b(1) sub by (auto simp: hp_rep_def)
  qed (use inj' used sub same q(2) len b(1) in \<open>auto simp: hp_nx_def hp_key_def hp_set_cell_def q(8)\<close>)
  then have "hp_ok h ?t" by (auto simp: hp_ok_def)
  moreover have "hp_lookup ?t = (hp_lookup s)(k \<mapsto> (i, \<lparr>kv_first = k, kv_second = kv_second z\<rparr>))"
    by (rule hp_lookup_insert [OF inj inj' used])
      (use key [of i] used absent same cell [OF q(6)] in \<open>auto simp: hp_entry_def hp_key_def\<close>)
  moreover have "hp_capacity ?t = hp_capacity s" using q(3) by (simp add: hp_capacity_def hp_set_cell_def fp_same_layout_def)
  moreover have "i \<in> hp_used ?t" using used by simp
  ultimately show ?thesis using ins by blast
qed

lemma hp_insert_old:
  assumes r: "hp_rep h s cs" and old: "hp_lookup s k = Some (i, v)" and nf: "\<not> hp_full s"
  shows "hp_insert h z base k s = Some ((i, False), s)"
proof -
  have "i \<in> hp_used s" using hp_lookup_some [of s k i v] r old by (simp add: hp_rep_def)
  then have "0 < i" using hp_used_bounds(1) r by (auto simp: hp_rep_def)
  with hp_find_ref_spec [OF r, of base k] old nf show ?thesis by (simp add: hp_insert_def)
qed

text \<open>Writing the value of a node.\<close>

lemma hp_lookup_update:
  assumes inj: "inj_on (hp_key s) (hp_used s)" "inj_on (hp_key t) (hp_used t)"
    and used: "hp_used t = hp_used s" "i \<in> hp_used s"
    and same: "\<And>x. x \<in> hp_used s \<Longrightarrow> hp_key t x = hp_key s x" "hp_entry t i = v"
      "\<And>x. x \<in> hp_used s \<Longrightarrow> x \<noteq> i \<Longrightarrow> hp_entry t x = hp_entry s x"
  shows "hp_lookup t = (hp_lookup s)(hp_key s i \<mapsto> (i, v))"
proof
  fix k
  show "hp_lookup t k = ((hp_lookup s)(hp_key s i \<mapsto> (i, v))) k"
  proof (cases "k = hp_key s i")
    case True
    then show ?thesis using hp_lookup_some [OF inj(2), of k i v] used same by simp
  next
    case ne: False
    show ?thesis
    proof (cases "hp_lookup s k")
      case None
      then have "hp_lookup t k = None"
        using hp_lookup_none [OF inj(1), of k] hp_lookup_none [OF inj(2), of k] used same(1) by simp
      with None ne show ?thesis by simp
    next
      case (Some e)
      then have e: "fst e \<in> hp_used s" "hp_key s (fst e) = k" "snd e = hp_entry s (fst e)"
        using hp_lookup_some [OF inj(1), of k "fst e" "snd e"] by simp_all
      then have "fst e \<noteq> i" using ne by auto
      then have "hp_lookup t k = Some (fst e, snd e)"
        using hp_lookup_some [OF inj(2), of k "fst e" "snd e"] e used same by simp
      with Some ne show ?thesis by simp
    qed
  qed
qed

lemma hp_set_value:
  assumes r: "hp_rep h s cs" and i: "i \<in> hp_used s"
    and t: "t = hp_set_cell i ((hp_cell s i)\<lparr>kv_second := v\<rparr>) s"
  shows "hp_rep h t cs"
    and "hp_lookup t = (hp_lookup s)(hp_key s i \<mapsto> (i, \<lparr>kv_first = hp_key s i, kv_second = v\<rparr>))"
    and "hp_capacity t = hp_capacity s"
proof -
  have ok: "fp_ok (hp_pool s)" and inj: "inj_on (hp_key s) (hp_used s)" using r by (simp_all add: hp_rep_def)
  note b = hp_used_bounds [OF ok i]
  have cell: "hp_cell t j = (if j = i then (hp_cell s i)\<lparr>kv_second := v\<rparr> else hp_cell s j)" if "0 < j" for j
    using hp_cell_set [OF b(1) that b(3)] by (simp add: t)
  have pos: "0 < j" if "j \<in> hp_used s" for j using hp_used_bounds(1) [OF ok that] .
  have nxk: "hp_nx t j = hp_nx s j \<and> hp_key t j = hp_key s j" if "j \<in> hp_used s" for j
    using cell [OF pos [OF that]] by (simp add: hp_nx_def hp_key_def)
  have ch: "chain (hp_nx t) a (cs ! c) = chain (hp_nx s) a (cs ! c)" if "c < length cs" for a c
    by (rule chain_cong) (use nxk hp_chain_bounds(1) [OF r that] in blast)
  have used: "hp_used t = hp_used s" by (simp add: t)
  have inj': "inj_on (hp_key t) (hp_used t)" using inj nxk by (simp add: inj_on_def used)
  have "fp_ok (hp_pool t)" "hp_bucket_num t = hp_bucket_num s" "hp_buckets t = hp_buckets s" using ok by (simp_all add: t)
  then show "hp_rep h t cs" using r ch nxk hp_chain_bounds(1) [OF r] inj' used by (simp add: hp_rep_def)
  have ent: "hp_entry t j = (if j = i then \<lparr>kv_first = hp_key s i, kv_second = v\<rparr> else hp_entry s j)" if "j \<in> hp_used s" for j
    using cell [OF pos [OF that]] by (simp add: hp_entry_def hp_key_def)
  show "hp_lookup t = (hp_lookup s)(hp_key s i \<mapsto> (i, \<lparr>kv_first = hp_key s i, kv_second = v\<rparr>))"
    by (rule hp_lookup_update [OF inj inj' used i]) (use nxk ent i in auto)
  show "hp_capacity t = hp_capacity s" by (simp add: hp_capacity_def t)
qed

lemma hp_erase_loop_none:
  "chain (hp_nx s) i xs \<Longrightarrow> \<forall>x \<in> set xs. 0 < x \<and> x \<le> fp_max_num (hp_pool s) \<and> hp_key s x \<noteq> k \<Longrightarrow>
    hp_erase_loop base k pre i s = Some (False, s)"
proof (induction xs arbitrary: i pre)
  case (Cons x xs)
  then show ?case by (simp add: hp_erase_loop.simps [of base k pre x s] fp_int_2_ptr_def hp_key_def)
qed (simp add: hp_erase_loop.simps)

lemma hp_erase_loop_found:
  "chain (hp_nx s) i (us @ x # ws) \<Longrightarrow> \<forall>y \<in> set (us @ [x]). 0 < y \<and> y \<le> fp_max_num (hp_pool s) \<Longrightarrow>
    \<forall>y \<in> set us. hp_key s y \<noteq> k \<Longrightarrow> hp_key s x = k \<Longrightarrow>
    hp_erase_loop base k pre i s = do {
      s \<leftarrow> Some (hp_store (if us = [] then pre else HNext (last us)) (hp_nx s x) s);
      (_, p) \<leftarrow> fp_free base (fp_addr base (hp_pool s) x) (hp_pool s);
      Some (True, s\<lparr>hp_pool := p\<rparr>) }"
proof (induction us arbitrary: i pre)
  case Nil
  have "fp_addr base (hp_pool (hp_store pre v s)) = fp_addr base (hp_pool s)" for v
    by (cases pre) (simp_all add: hp_set_cell_def)
  with Nil show ?case by (simp add: hp_erase_loop.simps [of base k pre x s] fp_int_2_ptr_def hp_key_def)
next
  case (Cons u us)
  from Cons.prems have "hp_erase_loop base k pre i s = hp_erase_loop base k (HNext u) (hp_nx s u) s"
    by (simp add: hp_erase_loop.simps [of base k pre u s] fp_int_2_ptr_def hp_key_def)
  with Cons.IH [of "hp_nx s u" "HNext u"] Cons.prems show ?case by simp
qed

lemma hp_erase_absent:
  assumes r: "hp_rep h s cs" and absent: "hp_lookup s k = None"
  shows "hp_erase h base k s = Some (False, s)"
proof -
  let ?b = "h k mod length cs"
  have b: "?b < length cs" "hp_bucket_num s = length cs" "0 < length cs" and inj: "inj_on (hp_key s) (hp_used s)"
    using r by (simp_all add: hp_rep_def)
  have "chain (hp_nx s) (hp_buckets s ! ?b) (cs ! ?b)" using r b(1) by (simp add: hp_rep_def)
  moreover have "\<forall>x \<in> set (cs ! ?b). 0 < x \<and> x \<le> fp_max_num (hp_pool s) \<and> hp_key s x \<noteq> k"
    using hp_chain_bounds [OF r b(1)] hp_lookup_none [OF inj] absent by blast
  ultimately show ?thesis using hp_erase_loop_none b by (simp add: hp_erase_def hp_bucket_index_def)
qed

lemma hp_lookup_remove:
  assumes inj: "inj_on (hp_key s) (hp_used s)" and used: "hp_used t = hp_used s - {i}" "i \<in> hp_used s"
    and same: "\<And>x. x \<in> hp_used t \<Longrightarrow> hp_key t x = hp_key s x \<and> hp_entry t x = hp_entry s x"
  shows "inj_on (hp_key t) (hp_used t)" "hp_lookup t = (hp_lookup s)(hp_key s i := None)"
proof -
  show inj': "inj_on (hp_key t) (hp_used t)" using inj used same by (auto simp: inj_on_def)
  show "hp_lookup t = (hp_lookup s)(hp_key s i := None)"
  proof
    fix k
    show "hp_lookup t k = ((hp_lookup s)(hp_key s i := None)) k"
    proof (cases "hp_lookup t k")
      case None
      then have "x = i" if "x \<in> hp_used s" "hp_key s x = k" for x
        using hp_lookup_none [OF inj', of k] used same [of x] that by auto
      then have "hp_lookup s k = None \<or> k = hp_key s i" using hp_lookup_none [OF inj, of k] by blast
      with None show ?thesis by auto
    next
      case (Some e)
      then have e: "fst e \<in> hp_used t" "hp_key t (fst e) = k" "snd e = hp_entry t (fst e)"
        using hp_lookup_some [OF inj', of k "fst e" "snd e"] by simp_all
      then have e': "fst e \<in> hp_used s" "fst e \<noteq> i" "hp_key s (fst e) = k" "snd e = hp_entry s (fst e)"
        using used same [of "fst e"] by auto
      then have "hp_key s i \<noteq> k" using inj used(2) by (auto simp: inj_on_def)
      moreover have "hp_lookup s k = Some (fst e, snd e)" using hp_lookup_some [OF inj] e' by blast
      ultimately show ?thesis using Some by simp
    qed
  qed
qed

lemma hp_erase_present:
  assumes r: "hp_rep h s cs" and old: "hp_lookup s k = Some (i, v)"
  shows "\<exists>t. hp_erase h base k s = Some (True, t) \<and> hp_ok h t \<and> hp_capacity t = hp_capacity s
    \<and> hp_lookup t = (hp_lookup s)(k := None)"
proof -
  let ?p = "hp_pool s" and ?b = "h k mod length cs"
  have ok: "fp_ok ?p" and inj: "inj_on (hp_key s) (hp_used s)" and b: "?b < length cs" "hp_bucket_num s = length cs"
    "0 < length cs" "length (hp_buckets s) = length cs" using r by (simp_all add: hp_rep_def)
  have i: "i \<in> hp_used s" "hp_key s i = k" using hp_lookup_some [OF inj] old by auto
  note ib = hp_used_bounds [OF ok i(1)]
  have f: "found (List.find (\<lambda>i. hp_key s i = k) (cs ! ?b)) = i" using hp_bucket_find [OF r, of k] old by simp
  from found_find_split [OF f] ib(1) obtain us ws where u: "cs ! ?b = us @ i # ws" "\<forall>y \<in> set us. hp_key s y \<noteq> k" by auto
  have ch: "chain (hp_nx s) (hp_buckets s ! ?b) (us @ i # ws)"
    unfolding u(1) [symmetric] using r b(1) by (simp add: hp_rep_def)
  have ub: "y \<in> hp_used s" "0 < y" "y \<le> fp_max_num ?p" if "y \<in> set (us @ i # ws)" for y
    using hp_chain_bounds [OF r b(1)] that u(1) by simp_all
  have d: "distinct (us @ i # ws)" using r concat_split [OF b(1)] u(1) by (auto simp: hp_rep_def)
  let ?pre = "if us = [] then HBucket ?b else HNext (last us)"
  let ?s1 = "hp_store ?pre (hp_nx s i) s"
  let ?t = "?s1\<lparr>hp_pool := fp_release i (hp_pool ?s1)\<rparr>"
  have p1: "fp_ok (hp_pool ?s1)" "fp_order (hp_pool ?s1) = fp_order ?p" "fp_addr base (hp_pool ?s1) = fp_addr base ?p"
    "fp_max_num (hp_pool ?s1) = fp_max_num ?p" using ok by (simp_all add: hp_set_cell_def)
  have t0: "0 < fp_t_size (hp_pool ?s1)" using fp_ok_rep [OF p1(1)] by (simp add: fp_rep_def)
  have "fp_addr base ?p i \<in> fp_allocated base (hp_pool ?s1)" using i(1) p1(2,3) by (simp add: fp_allocated_def hp_used_def)
  then have free: "fp_free base (fp_addr base (hp_pool ?s1) i) (hp_pool ?s1) = Some (True, fp_release i (hp_pool ?s1))"
    using fp_free_step [OF p1(1), of base "fp_addr base ?p i"] fp_ptr_addr [OF t0 ib(1), of base] p1(3) by simp
  have er: "hp_erase h base k s = Some (True, ?t)"
    using hp_erase_loop_found [OF ch _ u(2) i(2), of base "HBucket ?b"] ub free b by (simp add: hp_erase_def hp_bucket_index_def)
  have rel: "fp_ok (fp_release i (hp_pool ?s1))" "fp_same_layout (hp_pool ?s1) (fp_release i (hp_pool ?s1))"
    "set (fp_order (fp_release i (hp_pool ?s1))) = hp_used s - {i}" "fp_cells (fp_release i (hp_pool ?s1)) = fp_cells (hp_pool ?s1)"
    using fp_release_step [OF p1(1), of i] i(1) p1(2) by (simp_all add: hp_used_def)
  have used: "hp_used ?t = hp_used s - {i}" using rel(3) by (simp add: hp_used_def)
  have lu: "us \<noteq> [] \<Longrightarrow> last us \<in> set us" by simp
  have cell: "hp_cell ?t j = (if us \<noteq> [] \<and> j = last us then (hp_cell s j)\<lparr>hn_next := hp_nx s i\<rparr> else hp_cell s j)"
    if "0 < j" for j
  proof -
    have "hp_cell ?t j = hp_cell ?s1 j" using rel(4) by (simp add: hp_cell_def)
    also have "\<dots> = (if us \<noteq> [] \<and> j = last us then (hp_cell s j)\<lparr>hn_next := hp_nx s i\<rparr> else hp_cell s j)"
    proof (cases "us = []")
      case True
      then show ?thesis by (simp add: hp_cell_def)
    next
      case False
      then have l: "last us \<in> set (us @ i # ws)" by simp
      show ?thesis using hp_cell_set [OF ub(2) [OF l] that hp_used_bounds(3) [OF ok ub(1) [OF l]]] False by simp
    qed
    finally show ?thesis .
  qed
  have pos: "0 < j" if "j \<in> hp_used s" for j using hp_used_bounds(1) [OF ok that] .
  have same: "hp_key ?t j = hp_key s j \<and> hp_entry ?t j = hp_entry s j" if "j \<in> hp_used s" for j
    using cell [OF pos [OF that]] by (simp add: hp_key_def hp_entry_def)
  have nx: "hp_nx ?t j = (if us = [] then hp_nx s else (hp_nx s)(last us := hp_nx s i)) j" if "0 < j" for j
    using cell [OF that] by (simp add: hp_nx_def)
  have same': "\<And>x. x \<in> hp_used ?t \<Longrightarrow> hp_key ?t x = hp_key s x \<and> hp_entry ?t x = hp_entry s x" using same used by simp
  note lk = hp_lookup_remove [OF inj used i(1) same']
  have "hp_rep h ?t (cs[?b := us @ ws])"
  proof (rule hp_rep_bucket [OF r b(1)])
    have "chain (hp_nx ?t) a (us @ ws) = chain (if us = [] then hp_nx s else (hp_nx s)(last us := hp_nx s i)) a (us @ ws)" for a
      by (rule chain_cong) (use nx ub in auto)
    moreover have "hp_buckets ?t ! ?b = (if us = [] then hp_nx s i else hp_buckets s ! ?b)" using b by simp
    ultimately show "chain (hp_nx ?t) (hp_buckets ?t ! ?b) (us @ ws)"
      using ch d chain_remove [of "hp_nx s" "hp_buckets s ! ?b" us i ws] by auto
    show "hp_used ?t = hp_used s - set (cs ! ?b) \<union> set (us @ ws)" using used u(1) d ub(1) by auto
    show "h (hp_key ?t x) mod length cs = ?b" if "x \<in> set (us @ ws)" for x
      using same [of x] ub(1) [of x] that r b(1) u(1) by (auto simp: hp_rep_def)
    show "inj_on (hp_key ?t) (hp_used ?t)" by (rule lk(1))
    show "hp_nx ?t x = hp_nx s x \<and> hp_key ?t x = hp_key s x" if "x \<in> hp_used s - set (cs ! ?b)" for x
      using that same [of x] nx [of x] pos [of x] lu u(1) by auto
  qed (use rel(1) d u(1) in auto)
  then have "hp_ok h ?t" by (auto simp: hp_ok_def)
  moreover have "hp_capacity ?t = hp_capacity s" using rel(2) p1(4) by (simp add: hp_capacity_def fp_same_layout_def)
  ultimately show ?thesis using er lk(2) i(2) by blast
qed

section \<open>The contract of a keyed container\<close>

lemma hp_full_iff:
  assumes "hp_rep h s cs"
  shows "hp_full s \<longleftrightarrow> card (dom (hp_lookup s)) = hp_capacity s" "\<not> hp_full s \<longleftrightarrow> card (dom (hp_lookup s)) < hp_capacity s"
  using hp_lookup_card [OF assms] by (auto simp: hp_full_def fp_full_def hp_size_def fp_size_def hp_capacity_def)

lemma hp_insert_value_new:
  assumes ok: "hp_ok h s" and new: "hp_lookup s k = None" and nf: "\<not> hp_full s"
  shows "\<exists>i t. hp_insert_value h z base k v s = Some ((i, True), t) \<and> hp_ok h t \<and> hp_capacity t = hp_capacity s
    \<and> hp_lookup t = (hp_lookup s)(k \<mapsto> (i, \<lparr>kv_first = k, kv_second = v\<rparr>))"
proof -
  obtain cs where r: "hp_rep h s cs" using ok by (auto simp: hp_ok_def)
  from hp_insert_new [OF r new nf, of z base] obtain i t where
    t: "hp_insert h z base k s = Some ((i, True), t)" "hp_ok h t" "hp_capacity t = hp_capacity s" "i \<in> hp_used t"
      "hp_lookup t = (hp_lookup s)(k \<mapsto> (i, \<lparr>kv_first = k, kv_second = kv_second z\<rparr>))" by blast
  from t(2) obtain ds where rt: "hp_rep h t ds" by (auto simp: hp_ok_def)
  then have okt: "fp_ok (hp_pool t)" "inj_on (hp_key t) (hp_used t)" by (simp_all add: hp_rep_def)
  have key: "hp_key t i = k" using hp_lookup_some [OF okt(2), of k i] t(5) by auto
  let ?u = "hp_set_cell i ((hp_cell t i)\<lparr>kv_second := v\<rparr>) t"
  note sv = hp_set_value [OF rt t(4) refl, of v]
  have "hp_insert_value h z base k v s = Some ((i, True), ?u)"
    using t(1) hp_used_bounds [OF okt(1) t(4)] by (simp add: hp_insert_value_def fp_int_2_ptr_def)
  moreover have "hp_ok h ?u" using sv(1) by (auto simp: hp_ok_def)
  ultimately show ?thesis using sv(2,3) t(3,5) key by auto
qed

text \<open>The entry of a client and the erasure that tells the index it erased.\<close>

definition hp_put :: "('k \<Rightarrow> nat) \<Rightarrow> ('k, 'v) hnode \<Rightarrow> nat \<Rightarrow> ('k, 'v) kv \<Rightarrow> ('k, 'v) hash_pool
    \<Rightarrow> ((nat \<times> bool) \<times> ('k, 'v) hash_pool) option" where
  "hp_put h z base e s = hp_insert_value h z base (kv_first e) (kv_second e) s"

definition hp_take :: "('k \<Rightarrow> nat) \<Rightarrow> nat \<Rightarrow> 'k \<Rightarrow> ('k, 'v) hash_pool \<Rightarrow> (nat \<times> ('k, 'v) hash_pool) option" where
  "hp_take h base k s = do { i \<leftarrow> hp_find_ref h base k s; (_, t) \<leftarrow> hp_erase h base k s; Some (i, t) }"

interpretation hpool: keyed_base "hp_ok h" hp_lookup hp_capacity hp_size kv_first "hp_put h z base" "hp_find h base"
  "hp_take h base" for h :: "'k \<Rightarrow> nat" and z :: "('k, 'v) hnode" and base
proof
  fix s :: "('k, 'v) hash_pool"
  assume ok: "hp_ok h s"
  then obtain cs where r: "hp_rep h s cs" by (auto simp: hp_ok_def)
  have inj: "inj_on (hp_key s) (hp_used s)" and pok: "fp_ok (hp_pool s)" using r by (simp_all add: hp_rep_def)
  show "finite (dom (hp_lookup s))" "hp_size s = card (dom (hp_lookup s))" "hp_size s \<le> hp_capacity s"
    using hp_lookup_card [OF r] by simp_all
  show "kv_first v = k \<and> i \<noteq> 0" if "hp_lookup s k = Some (i, v)" for k i v
    using that hp_lookup_some [OF inj, of k i v] hp_used_bounds(1) [OF pok, of i] by (auto simp: hp_entry_def hp_key_def)
  show "hp_find h base k s = Some (case hp_lookup s k of None \<Rightarrow> 0 | Some (i, _) \<Rightarrow> i)" for k
    using hp_find_ref_spec [OF r] by (simp add: hp_find_def)
  have nf: "\<not> hp_full s" if "hp_size s < hp_capacity s" using that hp_full_iff(2) [OF r] hp_lookup_card(2) [OF r] by simp
  show "\<exists>i t. hp_put h z base v s = Some ((i, True), t) \<and> hp_ok h t \<and> hp_capacity t = hp_capacity s
      \<and> hp_lookup t = (hp_lookup s)(kv_first v \<mapsto> (i, v))"
    if "hp_lookup s (kv_first v) = None" "hp_size s < hp_capacity s" for v
    using hp_insert_value_new [OF ok that(1) nf [OF that(2)], of z base "kv_second v"] by (cases v) (simp add: hp_put_def)
  show "hp_put h z base v s = Some ((i, False), s)"
    if "hp_lookup s (kv_first v) = Some (i, w)" "hp_size s < hp_capacity s" for v i w
    using hp_insert_old [OF r that(1) nf [OF that(2)], of z base] by (simp add: hp_put_def hp_insert_value_def)
  show "\<exists>t. hp_take h base k s = Some (case hp_lookup s k of None \<Rightarrow> 0 | Some (i, _) \<Rightarrow> i, t) \<and> hp_ok h t
      \<and> hp_capacity t = hp_capacity s \<and> hp_lookup t = (hp_lookup s)(k := None)" for k
  proof (cases "hp_lookup s k")
    case None
    with hp_erase_absent [OF r None, of base] hp_find_ref_spec [OF r, of base k] ok show ?thesis
      by (simp add: hp_take_def fun_upd_idem)
  next
    case (Some e)
    then have e: "hp_lookup s k = Some (fst e, snd e)" by simp
    from hp_erase_present [OF r e, of base] hp_find_ref_spec [OF r, of base k] e show ?thesis
      by (auto simp: hp_take_def)
  qed
qed

section \<open>Creating\<close>

lemma hp_init_created:
  assumes "mem_size \<le> hp_calc_mem_size al sn n b" "0 < b"
    and "fp_init al si (Some (hp_pool s)) (fp_calc_need_size al n sn) n sn False = (True, Some p)" "fp_ok p" "fp_order p = []"
  shows "\<exists>t. hp_init al si sn (Some s) n b mem_size False = (True, Some t) \<and> hp_ok h t \<and> hp_lookup t = Map.empty"
proof -
  let ?t = "s\<lparr>hp_buckets := replicate b 0, hp_bucket_num := b, hp_max_node := n, hp_pool := p\<rparr>"
  have "hp_init al si sn (Some s) n b mem_size False = (True, Some ?t)" using assms(1,3) by (simp add: hp_init_def)
  moreover have "hp_rep h ?t (replicate b [])" using assms(2,4,5) by (auto simp: hp_rep_def hp_used_def)
  moreover have "hp_lookup ?t = Map.empty" using assms(5) by (simp add: hp_lookup_def fun_eq_iff)
  ultimately show ?thesis by (auto simp: hp_ok_def)
qed

text \<open>
  The test of the size is the wrong way round: a block that is too small is taken as if it were of the
  right size, one that is larger than needed is refused.
\<close>

lemma hp_init_size_check:
  "hp_init al si sn (Some s) n b mem_size check =
     (if mem_size \<le> hp_calc_mem_size al sn n b then hp_init al si sn (Some s) n b (hp_calc_mem_size al sn n b) check
      else (False, Some s))"
  by (simp add: hp_init_def)

section \<open>Runs\<close>

datatype ('k, 'v) hp_op = HInsert 'k | HInsertValue 'k 'v | HGetOrInsert 'k | HErase 'k | HFind 'k

datatype 'v hp_res = HBool bool | HVal "'v option"

fun hp_step :: "('k \<Rightarrow> nat) \<Rightarrow> ('k, 'v) hnode \<Rightarrow> nat \<Rightarrow> ('k, 'v) hp_op \<Rightarrow> ('k, 'v) hash_pool
    \<Rightarrow> ('v hp_res \<times> ('k, 'v) hash_pool) option" where
  "hp_step h z base (HInsert k) s = do { ((_, b), s) \<leftarrow> hp_insert h z base k s; Some (HBool b, s) }"
| "hp_step h z base (HInsertValue k v) s = do { ((_, b), s) \<leftarrow> hp_insert_value h z base k v s; Some (HBool b, s) }"
| "hp_step h z base (HGetOrInsert k) s = do { (i, s) \<leftarrow> hp_get_or_insert h z base k s; Some (HBool (i \<noteq> 0), s) }"
| "hp_step h z base (HErase k) s = do { (b, s) \<leftarrow> hp_erase h base k s; Some (HBool b, s) }"
| "hp_step h z base (HFind k) s = do {
     i \<leftarrow> hp_find h base k s;
     if i = 0 then Some (HVal None, s)
     else do { _ \<leftarrow> fp_int_2_ptr base (hp_pool s) i; Some (HVal (Some (kv_second (hp_cell s i))), s) } }"

fun hp_run :: "('k \<Rightarrow> nat) \<Rightarrow> ('k, 'v) hnode \<Rightarrow> nat \<Rightarrow> ('k, 'v) hp_op list \<Rightarrow> ('k, 'v) hash_pool
    \<Rightarrow> ('v hp_res list \<times> ('k, 'v) hash_pool) option" where
  "hp_run h z base [] s = Some ([], s)"
| "hp_run h z base (u # us) s = do { (r, s) \<leftarrow> hp_step h z base u s; (rs, s) \<leftarrow> hp_run h z base us s; Some (r # rs, s) }"

text \<open>What the operations do to a map bounded by \<open>n\<close>; \<open>v0\<close> is a value of zero bytes.\<close>

definition hp_spec_insert :: "nat \<Rightarrow> 'k \<Rightarrow> 'v \<Rightarrow> ('k \<rightharpoonup> 'v) \<Rightarrow> bool \<times> ('k \<rightharpoonup> 'v)" where
  "hp_spec_insert n k v m = (if m k = None \<and> card (dom m) < n then (True, m(k \<mapsto> v)) else (False, m))"

fun hp_spec :: "nat \<Rightarrow> 'v \<Rightarrow> ('k, 'v) hp_op \<Rightarrow> ('k \<rightharpoonup> 'v) \<Rightarrow> 'v hp_res \<times> ('k \<rightharpoonup> 'v)" where
  "hp_spec n v0 (HInsert k) m = map_prod HBool id (hp_spec_insert n k v0 m)"
| "hp_spec n v0 (HInsertValue k v) m = map_prod HBool id (hp_spec_insert n k v m)"
| "hp_spec n v0 (HGetOrInsert k) m = map_prod (\<lambda>b. HBool (b \<or> m k \<noteq> None)) id (hp_spec_insert n k v0 m)"
| "hp_spec n v0 (HErase k) m = (HBool (m k \<noteq> None), m(k := None))"
| "hp_spec n v0 (HFind k) m = (HVal (m k), m)"

fun hp_spec_run :: "nat \<Rightarrow> 'v \<Rightarrow> ('k, 'v) hp_op list \<Rightarrow> ('k \<rightharpoonup> 'v) \<Rightarrow> 'v hp_res list \<times> ('k \<rightharpoonup> 'v)" where
  "hp_spec_run n v0 [] m = ([], m)"
| "hp_spec_run n v0 (u # us) m =
     (let (r, m) = hp_spec n v0 u m; (rs, m) = hp_spec_run n v0 us m in (r # rs, m))"

definition hp_map :: "('k, 'v) hash_pool \<Rightarrow> 'k \<rightharpoonup> 'v" where
  "hp_map s k = map_option (\<lambda>e. kv_second (snd e)) (hp_lookup s k)"

lemma hp_map_dom [simp]: "dom (hp_map s) = dom (hp_lookup s)" "hp_map s k = None \<longleftrightarrow> hp_lookup s k = None"
  by (auto simp: hp_map_def dom_def)

lemma hp_map_upd:
  "hp_lookup t = (hp_lookup s)(k \<mapsto> (i, e)) \<Longrightarrow> hp_map t = (hp_map s)(k \<mapsto> kv_second e)"
  "hp_lookup t = (hp_lookup s)(k := None) \<Longrightarrow> hp_map t = (hp_map s)(k := None)"
  by (auto simp: hp_map_def fun_eq_iff)

text \<open>The three ways in which an insertion ends.\<close>

lemma hp_insert_cases:
  assumes "hp_ok h s"
  obtains (fresh) i t where "hp_insert h z base k s = Some ((i, True), t)" "i \<noteq> 0" "hp_ok h t" "hp_capacity t = hp_capacity s"
      "hp_map t = (hp_map s)(k \<mapsto> kv_second z)" "hp_map s k = None" "card (dom (hp_map s)) < hp_capacity s"
  | (kept) i where "hp_insert h z base k s = Some ((i, False), s)" "\<not> (hp_map s k = None \<and> card (dom (hp_map s)) < hp_capacity s)"
      "hp_map s k = None \<Longrightarrow> i = 0"
proof -
  obtain cs where r: "hp_rep h s cs" using assms by (auto simp: hp_ok_def)
  note full = hp_full_iff [OF r]
  show thesis
  proof (cases "hp_full s")
    case True
    then have "hp_insert h z base k s = Some ((0, False), s)" by (simp add: hp_insert_def)
    with kept full True show thesis by simp
  next
    case nf: False
    show thesis
    proof (cases "hp_lookup s k")
      case None
      from hp_insert_new [OF r None nf, of z base] obtain i t where
        t: "hp_insert h z base k s = Some ((i, True), t)" "hp_ok h t" "hp_capacity t = hp_capacity s" "i \<in> hp_used t"
          "hp_lookup t = (hp_lookup s)(k \<mapsto> (i, \<lparr>kv_first = k, kv_second = kv_second z\<rparr>))" by blast
      have "i \<noteq> 0" using hp_used_bounds(1) [OF _ t(4)] t(2) by (auto simp: hp_ok_def hp_rep_def)
      with fresh t hp_map_upd(1) [OF t(5)] None nf full show thesis by simp
    next
      case (Some e)
      then have "hp_lookup s k = Some (fst e, snd e)" by simp
      with kept hp_insert_old [OF r _ nf, of k "fst e" "snd e" z base] show thesis by simp
    qed
  qed
qed

lemma hp_insert_value_cases:
  assumes "hp_ok h s"
  obtains (fresh) i t where "hp_insert_value h z base k v s = Some ((i, True), t)" "hp_ok h t" "hp_capacity t = hp_capacity s"
      "hp_map t = (hp_map s)(k \<mapsto> v)" "hp_map s k = None" "card (dom (hp_map s)) < hp_capacity s"
  | (kept) i where "hp_insert_value h z base k v s = Some ((i, False), s)"
      "\<not> (hp_map s k = None \<and> card (dom (hp_map s)) < hp_capacity s)"
proof -
  obtain cs where r: "hp_rep h s cs" using assms by (auto simp: hp_ok_def)
  from assms show thesis
  proof (cases rule: hp_insert_cases [of h s z base k])
    case (fresh i t)
    have "hp_lookup s k = None" "\<not> hp_full s" using fresh hp_full_iff [OF r] by simp_all
    from hp_insert_value_new [OF assms this, of z base v] that(1) fresh(6,7) show thesis by (auto dest: hp_map_upd)
  next
    case (kept i)
    with that(2) show thesis by (simp add: hp_insert_value_def)
  qed
qed

lemma hp_find_map:
  assumes "hp_ok h s"
  shows "hp_step h z base (HFind k) s = Some (HVal (hp_map s k), s)"
proof -
  obtain cs where r: "hp_rep h s cs" using assms by (auto simp: hp_ok_def)
  have inj: "inj_on (hp_key s) (hp_used s)" and pok: "fp_ok (hp_pool s)" using r by (simp_all add: hp_rep_def)
  show ?thesis
  proof (cases "hp_lookup s k")
    case None
    with hp_find_ref_spec [OF r] show ?thesis by (simp add: hp_find_def hp_map_def)
  next
    case (Some e)
    then have e: "fst e \<in> hp_used s" "snd e = hp_entry s (fst e)"
      using hp_lookup_some [OF inj, of k "fst e" "snd e"] by simp_all
    with Some hp_find_ref_spec [OF r, of base k] hp_used_bounds [OF pok e(1)] show ?thesis
      by (simp add: hp_find_def hp_map_def hp_entry_def fp_int_2_ptr_def split_beta)
  qed
qed

lemma hp_step_refines:
  assumes "hp_ok h s"
  shows "\<exists>r t. hp_step h z base u s = Some (r, t) \<and> hp_ok h t \<and> hp_capacity t = hp_capacity s
    \<and> hp_spec (hp_capacity s) (kv_second z) u (hp_map s) = (r, hp_map t)"
proof -
  obtain cs where r: "hp_rep h s cs" using assms by (auto simp: hp_ok_def)
  show ?thesis
  proof (cases u)
    case (HInsert k)
    from assms show ?thesis
      by (cases rule: hp_insert_cases [of h s z base k]) (use assms in \<open>auto simp: HInsert hp_spec_insert_def\<close>)
  next
    case (HInsertValue k v)
    from assms show ?thesis
      by (cases rule: hp_insert_value_cases [of h s z base k v]) (use assms in \<open>auto simp: HInsertValue hp_spec_insert_def\<close>)
  next
    case (HGetOrInsert k)
    note find = hp_find_ref_spec [OF r, of base k]
    from assms show ?thesis
    proof (cases rule: hp_insert_cases [of h s z base k])
      case (fresh i t)
      with find HGetOrInsert show ?thesis by (simp add: hp_get_or_insert_def hp_spec_insert_def)
    next
      case (kept i)
      show ?thesis
      proof (cases "hp_lookup s k")
        case None
        with find kept HGetOrInsert assms show ?thesis by (auto simp: hp_get_or_insert_def hp_spec_insert_def)
      next
        case (Some e)
        have "fst e \<noteq> 0" using hpool.lookup_key [OF assms, of k "fst e" "snd e"] Some by simp
        with Some find HGetOrInsert assms show ?thesis
          by (simp add: hp_get_or_insert_def hp_spec_insert_def split_beta)
      qed
    qed
  next
    case (HErase k)
    show ?thesis
    proof (cases "hp_lookup s k")
      case None
      with hp_erase_absent [OF r None, of base] HErase assms show ?thesis by (simp add: fun_upd_idem)
    next
      case (Some e)
      then have "hp_lookup s k = Some (fst e, snd e)" by simp
      from hp_erase_present [OF r this, of base] HErase Some show ?thesis by (auto dest: hp_map_upd(2))
    qed
  next
    case (HFind k)
    with hp_find_map [OF assms] assms show ?thesis by simp
  qed
qed

text \<open>C6. Whatever sequence of insertions (of a key, of a key with a value, \<^verbatim>\<open>get_or_insert\<close>),
  erasures and lookups is run on a well-formed pool, no assertion fails and every chain walk ends; the answers and
  the contents are those of a finite map bounded by the number of nodes: an insertion succeeds exactly for an
  absent key while there is a node, a key inserted without a value has a value of zero bytes, the erasure of one
  key leaves the others of its bucket, and a node is used again after it was erased.\<close>

theorem hp_run_is_map:
  assumes "hp_ok h s"
  shows "\<exists>rs t. hp_run h z base us s = Some (rs, t) \<and> hp_ok h t \<and> hp_capacity t = hp_capacity s
    \<and> hp_spec_run (hp_capacity s) (kv_second z) us (hp_map s) = (rs, hp_map t)"
  using assms
proof (induction us arbitrary: s)
  case (Cons u us)
  from hp_step_refines [OF Cons.prems, of z base u] obtain r t where
    t: "hp_step h z base u s = Some (r, t)" "hp_ok h t" "hp_capacity t = hp_capacity s"
      "hp_spec (hp_capacity s) (kv_second z) u (hp_map s) = (r, hp_map t)" by blast
  from Cons.IH [OF t(2)] t show ?case by (force simp: Let_def)
qed simp

definition hp_demo :: "(nat, nat) hash_pool" where
  "hp_demo = \<lparr>hp_bucket_num = 2, hp_max_node = 2, hp_buckets = [0, 0],
     hp_pool = \<lparr>fp_version = 1, fp_mem_size = 184, fp_raw_t_size = 24, fp_t_size = 24, fp_max_num = 2,
       fp_used_num = 0, fp_raw_used_num = 0, fp_link_head_offset = 88, fp_value_offset = 136,
       fp_reclaim_list = 0, fp_magic_num = 0x9E370001, fp_links = [link0, link0, link0],
       fp_cells = replicate 2 \<lparr>kv_first = 0, kv_second = 0, hn_next = 0\<rparr>\<rparr>\<rparr>"

lemma hp_demo_ok: "hp_ok (\<lambda>k. k) hp_demo" "hp_map hp_demo = Map.empty"
proof -
  have "fp_ok (hp_pool hp_demo)" "fp_order (hp_pool hp_demo) = []"
    using fp_init_ok [of "hp_pool hp_demo"] by (simp_all add: hp_demo_def)
  then have "hp_rep (\<lambda>k. k) hp_demo [[], []]" "hp_lookup hp_demo = Map.empty"
    by (auto simp: hp_rep_def hp_used_def hp_demo_def hp_lookup_def less_Suc_eq fun_eq_iff nth_Cons')
  then show "hp_ok (\<lambda>k. k) hp_demo" "hp_map hp_demo = Map.empty" by (auto simp: hp_ok_def hp_map_def fun_eq_iff)
qed

theorem hp_run_is_map_witness:
  "\<exists>t. hp_run (\<lambda>k. k) \<lparr>kv_first = 0, kv_second = 0, hn_next = 0\<rparr> 4096
      [HInsertValue 3 30, HInsert 5, HGetOrInsert 7, HErase 3, HFind 5, HInsertValue 7 70, HFind 3, HFind 7] hp_demo
    = Some ([HBool True, HBool True, HBool False, HBool True, HVal (Some 0), HBool True, HVal None, HVal (Some 70)], t)"
proof -
  let ?us = "[HInsertValue 3 30, HInsert 5, HGetOrInsert 7, HErase 3, HFind 5, HInsertValue 7 70, HFind 3, HFind 7]"
  have "hp_capacity hp_demo = 2" by (simp add: hp_capacity_def hp_demo_def)
  with hp_run_is_map [OF hp_demo_ok(1), of "\<lparr>kv_first = 0, kv_second = 0, hn_next = 0\<rparr>" 4096 ?us] hp_demo_ok(2)
  show ?thesis by (auto simp: hp_spec_insert_def fun_upd_twist)
qed

end
