(* ===== verification/ProtectedMemPool.thy ===== *)
theory ProtectedMemPool
  imports FixedMemPool
begin

text \<open>
  \<^verbatim>\<open>src/containers/protected_mem_pool.h\<close>: a pool whose nodes are each followed by a page
  that must not be accessed.  It is a \<^verbatim>\<open>FixedMemPool\<close> aligned to the page whose nodes are one page
  longer than what the client gets.  \<open>prot a w\<close> is \<^verbatim>\<open>mprotect(a, FENCE_SIZE, PROT_NONE) == 0\<close>,
  a system call, in the state \<open>w\<close> of the process.
\<close>

section \<open>Operations\<close>

definition FENCE_SIZE :: nat where
  "FENCE_SIZE = 4096"

definition pp_node_size_real :: "'a pool \<Rightarrow> nat" where
  "pp_node_size_real p = fp_t_size p - FENCE_SIZE"

definition pp_calc_need_size :: "nat \<Rightarrow> nat \<Rightarrow> nat" where
  "pp_calc_need_size max_node_num node_size = fp_calc_need_size FENCE_SIZE max_node_num (node_size + FENCE_SIZE)"

text \<open>The content of a node is that of the part before its fence.\<close>

definition pp_alloc :: "'a \<Rightarrow> nat \<Rightarrow> bool \<Rightarrow> 'a pool \<Rightarrow> (nat option \<times> 'a pool) option" where
  "pp_alloc z base zero p = do {
     (t, p) \<leftarrow> fp_alloc z base False p;
     Some (t, case t of
         Some a \<Rightarrow> if zero then p\<lparr>fp_cells := (fp_cells p)[fp_ptr_2_int base p a - 1 := z]\<rparr> else p
       | None \<Rightarrow> p) }"

text \<open>\<^verbatim>\<open>for (t = alloc(false); t; t = alloc(false)) mprotect(t + node_size_real(), ...)\<close>\<close>

partial_function (option) pp_fence_new :: "(nat \<Rightarrow> 'w \<Rightarrow> bool \<times> 'w) \<Rightarrow> 'a \<Rightarrow> nat \<Rightarrow> 'a pool \<Rightarrow> 'w
    \<Rightarrow> (bool \<times> 'a pool \<times> 'w) option" where
  "pp_fence_new prot z base p w = do {
     (t, p) \<leftarrow> fp_alloc z base False p;
     (case t of
        None \<Rightarrow> Some (True, p, w)
      | Some a \<Rightarrow> do {
          (ok, w) \<leftarrow> Some (prot (a + pp_node_size_real p) w);
          if \<not> ok then Some (False, p, w) else pp_fence_new prot z base p w }) }"

declare pp_fence_new.simps [code]

text \<open>\<^verbatim>\<open>for (t = alloc(false); t; t = alloc(false)) temp_dels.push_back(t)\<close>\<close>

partial_function (option) pp_take_all :: "'a \<Rightarrow> nat \<Rightarrow> nat list \<Rightarrow> 'a pool \<Rightarrow> (nat list \<times> 'a pool) option" where
  "pp_take_all z base temp_dels p = do {
     (t, p) \<leftarrow> fp_alloc z base False p;
     (case t of None \<Rightarrow> Some (temp_dels, p) | Some a \<Rightarrow> pp_take_all z base (temp_dels @ [a]) p) }"

declare pp_take_all.simps [code]

text \<open>\<^verbatim>\<open>for (beg = begin(); beg != end(); ++beg) mprotect(&*beg + node_size_real(), ...)\<close>\<close>

partial_function (option) pp_fence_used :: "(nat \<Rightarrow> 'w \<Rightarrow> bool \<times> 'w) \<Rightarrow> nat \<Rightarrow> 'a pool \<Rightarrow> nat \<Rightarrow> 'w \<Rightarrow> (bool \<times> 'w) option" where
  "pp_fence_used prot base p beg w =
     (if beg = 0 then Some (True, w)
      else do {
        a \<leftarrow> fp_int_2_ptr base p beg;
        (ok, w) \<leftarrow> Some (prot (a + pp_node_size_real p) w);
        if \<not> ok then Some (False, w)
        else do { nxt \<leftarrow> fp_iter_next p beg; pp_fence_used prot base p nxt w } })"

declare pp_fence_used.simps [code]

primrec pp_free_all :: "nat \<Rightarrow> nat list \<Rightarrow> 'a pool \<Rightarrow> 'a pool option" where
  "pp_free_all base [] p = Some p"
| "pp_free_all base (t # ts) p = do { (_, p) \<leftarrow> fp_free base t p; pp_free_all base ts p }"

definition pp_init :: "(nat \<Rightarrow> 'w \<Rightarrow> bool \<times> 'w) \<Rightarrow> 'a \<Rightarrow> nat \<Rightarrow> nat \<Rightarrow> 'a pool option \<Rightarrow> nat \<Rightarrow> nat \<Rightarrow> nat \<Rightarrow> bool \<Rightarrow> 'w
    \<Rightarrow> (bool \<times> 'a pool option \<times> 'w) option" where
  "pp_init prot z base sizeof_T mem mem_size max_node_num node_size check w =
     (case fp_init FENCE_SIZE sizeof_T mem mem_size max_node_num (node_size + FENCE_SIZE) check of
        (True, Some p) \<Rightarrow>
          if \<not> check then do {
            (ok, p, w) \<leftarrow> pp_fence_new prot z base p w;
            if \<not> ok then Some (False, Some p, w)
            else do { p \<leftarrow> fp_clear FENCE_SIZE sizeof_T p; Some (True, Some p, w) } }
          else do {
            saved_size \<leftarrow> Some (fp_size p);
            (temp_dels, p) \<leftarrow> pp_take_all z base [] p;
            (ok, w) \<leftarrow> pp_fence_used prot base p (fp_begin p) w;
            if \<not> ok then Some (False, Some p, w)
            else do {
              p \<leftarrow> pp_free_all base temp_dels p;
              _ \<leftarrow> cassert (saved_size = fp_size p);
              Some (True, Some p, w) } }
      | (_, mem) \<Rightarrow> Some (False, mem, w))"

section \<open>The loops\<close>

text \<open>
  What the pool relies on of \<^verbatim>\<open>mprotect\<close>: it succeeds at the start of a page and makes that page
  inaccessible; \<open>fenced w\<close> is the set of the pages that are.
\<close>

definition pp_mprotect :: "(nat \<Rightarrow> 'w \<Rightarrow> bool \<times> 'w) \<Rightarrow> ('w \<Rightarrow> nat set) \<Rightarrow> bool" where
  "pp_mprotect prot fenced \<longleftrightarrow> (\<forall>a w. FENCE_SIZE dvd a \<longrightarrow>
     fst (prot a w) \<and> fenced (snd (prot a w)) = insert a (fenced w))"

lemma pp_mprotectD:
  assumes "pp_mprotect prot fenced" "FENCE_SIZE dvd a"
  obtains w' where "prot a w = (True, w')" "fenced w' = insert a (fenced w)"
proof -
  have "fst (prot a w) \<and> fenced (snd (prot a w)) = insert a (fenced w)" using assms by (simp add: pp_mprotect_def)
  then show thesis using that by (cases "prot a w") auto
qed

definition pp_fence :: "nat \<Rightarrow> 'a pool \<Rightarrow> nat \<Rightarrow> nat" where
  "pp_fence base p i = fp_addr base p i + pp_node_size_real p"

definition pp_aligned :: "nat \<Rightarrow> 'a pool \<Rightarrow> bool" where
  "pp_aligned base p \<longleftrightarrow> FENCE_SIZE dvd base \<and> FENCE_SIZE dvd fp_value_offset p \<and> FENCE_SIZE dvd fp_t_size p
     \<and> FENCE_SIZE \<le> fp_t_size p"

lemma pp_aligned_fence: "pp_aligned base p \<Longrightarrow> FENCE_SIZE dvd pp_fence base p i"
  by (simp add: pp_aligned_def pp_fence_def fp_addr_def pp_node_size_real_def)

lemma pp_same_layout:
  assumes "fp_same_layout p q"
  shows "pp_fence base q = pp_fence base p" "pp_aligned base q = pp_aligned base p" "fp_max_num q = fp_max_num p"
    "pp_node_size_real q = pp_node_size_real p" "fp_addr base q = fp_addr base p"
  using assms fp_same_layout_addr [OF assms, of base]
  by (simp_all add: fp_same_layout_def pp_fence_def pp_aligned_def pp_node_size_real_def fun_eq_iff)

lemma fp_same_layout_trans: "fp_same_layout p q \<Longrightarrow> fp_same_layout q u \<Longrightarrow> fp_same_layout p u"
  by (simp add: fp_same_layout_def)

lemma fp_alloc_links: "fp_alloc z base zero p = Some (t, q) \<Longrightarrow> length (fp_links q) = length (fp_links p)"
  by (auto simp: fp_alloc_def fp_get_link_def fp_link_in_def Let_def split: if_splits Option.bind_splits)

lemma pp_full_order:
  assumes "fp_ok p" "fp_full p"
  shows "set (fp_order p) = {1..fp_max_num p}"
proof -
  note r = fp_ok_rep [OF assms(1)]
  have "set (fp_order p) \<subseteq> {1..fp_max_num p}" using fp_rep_slot [OF r] by (auto simp: Suc_le_eq)
  moreover have "card (set (fp_order p)) = fp_max_num p"
    using fp_ok_used [OF assms(1)] assms(2) by (simp add: fp_full_def)
  ultimately show ?thesis by (simp add: card_subset_eq)
qed

lemma pp_fence_new_result:
  assumes prot: "pp_mprotect prot fenced"
  shows "fp_ok p \<Longrightarrow> pp_aligned base p \<Longrightarrow> \<exists>q w'. pp_fence_new prot z base p w = Some (True, q, w') \<and> fp_ok q
    \<and> fp_same_layout p q \<and> fp_full q \<and> length (fp_links q) = length (fp_links p) \<and> length (fp_cells q) = length (fp_cells p)
    \<and> fenced w' = fenced w \<union> pp_fence base p ` ({1..fp_max_num p} - set (fp_order p))"
proof (induction "fp_max_num p - fp_used_num p" arbitrary: p w)
  case 0
  then have full: "fp_full p" by (simp add: fp_full_def)
  with 0 pp_full_order [of p] show ?case
    by (intro exI [of _ p] exI [of _ w]) (simp add: pp_fence_new.simps [of prot z base p w] fp_alloc_full fp_same_layout_def)
next
  case (Suc n)
  then have nf: "\<not> fp_full p" by (simp add: fp_full_def)
  from fp_alloc_step [OF Suc.prems(1) nf, of z base False] obtain i q where
    q: "fp_alloc z base False p = Some (Some (fp_addr base p i), q)" "fp_ok q" "fp_same_layout p q"
      "fp_order q = i # fp_order p" "i \<notin> set (fp_order p)" "0 < i" "i \<le> fp_max_num p" "fp_cells q = fp_cells p" by auto
  note same = pp_same_layout [OF q(3)]
  have len: "length (fp_links q) = length (fp_links p)" using fp_alloc_links [OF q(1)] .
  have "fp_used_num q = Suc (fp_used_num p)"
    using q(4,5) fp_ok_used(1) [OF q(2)] fp_ok_used(1) [OF Suc.prems(1)] by simp
  then have n: "n = fp_max_num q - fp_used_num q" using Suc.hyps(2) same(3) by simp
  obtain w1 where w1: "prot (pp_fence base p i) w = (True, w1)" "fenced w1 = insert (pp_fence base p i) (fenced w)"
    using pp_mprotectD [OF prot pp_aligned_fence [OF Suc.prems(2)]] .
  from Suc.hyps(1) [OF n q(2), of w1] Suc.prems(2) same obtain u w' where
    u: "pp_fence_new prot z base q w1 = Some (True, u, w')" "fp_ok u" "fp_same_layout q u" "fp_full u"
      "length (fp_links u) = length (fp_links q)" "length (fp_cells u) = length (fp_cells q)"
      "fenced w' = fenced w1 \<union> pp_fence base p ` ({1..fp_max_num p} - set (fp_order q))" by auto
  have "pp_fence_new prot z base p w = Some (True, u, w')"
    using q(1) w1(1) u(1) same(4) by (simp add: pp_fence_new.simps [of prot z base p w] pp_fence_def)
  moreover have "{1..fp_max_num p} - set (fp_order p) = insert i ({1..fp_max_num p} - set (fp_order q))"
    using q(4-7) by auto
  ultimately show ?case using u w1(2) len q(8) fp_same_layout_trans [OF q(3) u(3)] by auto
qed

lemma pp_take_all_result:
  "fp_ok p \<Longrightarrow> \<exists>l q. pp_take_all z base ds p = Some (ds @ l, q) \<and> fp_ok q \<and> fp_same_layout p q \<and> fp_full q
    \<and> fp_cells q = fp_cells p \<and> fp_allocated base q = fp_allocated base p \<union> set l \<and> set l \<inter> fp_allocated base p = {} \<and> distinct l"
proof (induction "fp_max_num p - fp_used_num p" arbitrary: p ds)
  case 0
  then have full: "fp_full p" by (simp add: fp_full_def)
  with 0 show ?case
    by (intro exI [of _ "[]"] exI [of _ p]) (simp add: pp_take_all.simps [of z base ds p] fp_alloc_full fp_same_layout_def)
next
  case (Suc n)
  then have nf: "\<not> fp_full p" by (simp add: fp_full_def)
  from fp_alloc_allocated [OF Suc.prems nf, of z base False] obtain a q where
    q: "fp_alloc z base False p = Some (Some a, q)" "fp_ok q" "fp_same_layout p q" "a \<notin> fp_allocated base p"
      "fp_allocated base q = insert a (fp_allocated base p)" by blast
  have cells: "fp_cells q = fp_cells p" using fp_alloc_step [OF Suc.prems nf, of z base False] q(1) by auto
  have "card (fp_allocated base q) = Suc (card (fp_allocated base p))"
    using q(4,5) fp_allocated_card(1) [OF Suc.prems, of base] by simp
  then have "fp_used_num q = Suc (fp_used_num p)"
    using fp_allocated_card(2) [OF Suc.prems, of base] fp_allocated_card(2) [OF q(2), of base] by simp
  then have n: "n = fp_max_num q - fp_used_num q" using Suc.hyps(2) pp_same_layout(3) [OF q(3)] by simp
  from Suc.hyps(1) [OF n q(2), of "ds @ [a]"] obtain l u where
    u: "pp_take_all z base (ds @ [a]) q = Some ((ds @ [a]) @ l, u)" "fp_ok u" "fp_same_layout q u" "fp_full u"
      "fp_cells u = fp_cells q" "fp_allocated base u = fp_allocated base q \<union> set l" "set l \<inter> fp_allocated base q = {}"
      "distinct l" by blast
  have "pp_take_all z base ds p = Some (ds @ a # l, u)" using q(1) u(1) by (simp add: pp_take_all.simps [of z base ds p])
  with u q cells fp_same_layout_trans [OF q(3) u(3)] show ?case by (intro exI [of _ "a # l"] exI [of _ u]) auto
qed

lemma pp_free_all_result:
  "fp_ok p \<Longrightarrow> set l \<subseteq> fp_allocated base p \<Longrightarrow> distinct l \<Longrightarrow> \<exists>q. pp_free_all base l p = Some q \<and> fp_ok q
    \<and> fp_same_layout p q \<and> fp_cells q = fp_cells p \<and> fp_allocated base q = fp_allocated base p - set l"
proof (induction l arbitrary: p)
  case Nil
  then show ?case by (simp add: fp_same_layout_def)
next
  case (Cons a l)
  from fp_free_allocated [OF Cons.prems(1), of base a] obtain q where
    q: "fp_free base a p = Some (a \<in> fp_allocated base p, q)" "fp_ok q" "fp_same_layout p q"
      "fp_allocated base q = fp_allocated base p - {a}" "fp_cells q = fp_cells p" by blast
  have "set l \<subseteq> fp_allocated base q" using Cons.prems q(4) by auto
  from Cons.IH [OF q(2) this] Cons.prems(3) obtain u where "pp_free_all base l q = Some u" "fp_ok u"
    "fp_same_layout q u" "fp_cells u = fp_cells q" "fp_allocated base u = fp_allocated base q - set l" by auto
  with q fp_same_layout_trans [OF q(3), of u] show ?case by auto
qed

lemma fp_iter_next_used:
  assumes "fp_ok p" "i \<in> set (fp_order p)"
  shows "fp_iter_next p i = Some (nx (fp_links p) i)"
proof -
  note r = fp_ok_rep [OF assms(1)]
  have d: "dll (fp_links p) (fp_order p)" using r by (auto simp: fp_rep_def intro: slots_dll)
  obtain ys zs where o: "fp_order p = ys @ i # zs" using assms(2) by (meson split_list)
  have "pv (fp_links p) i = last (0 # ys)" using dll_pv d o by metis
  moreover have "last (0 # ys) \<in> insert 0 (set (fp_order p))" using o last_in_set [of "0 # ys"] by auto
  ultimately have "pv (fp_links p) i \<le> fp_max_num p" using fp_rep_slot(3) [OF r] by auto
  then show ?thesis using fp_rep_slot(3) [OF r assms(2)] by (simp add: fp_iter_next_def fp_get_link_def pv_def nx_def)
qed

lemma pp_fence_used_chain:
  assumes prot: "pp_mprotect prot fenced" and p: "fp_ok p" "pp_aligned base p"
  shows "chain (nx (fp_links p)) i xs \<Longrightarrow> set xs \<subseteq> set (fp_order p) \<Longrightarrow>
    \<exists>w'. pp_fence_used prot base p i w = Some (True, w') \<and> fenced w' = fenced w \<union> pp_fence base p ` set xs"
proof (induction xs arbitrary: i w)
  case Nil
  then show ?case by (simp add: pp_fence_used.simps)
next
  case (Cons x xs)
  obtain w1 where w1: "prot (pp_fence base p x) w = (True, w1)" "fenced w1 = insert (pp_fence base p x) (fenced w)"
    using pp_mprotectD [OF prot pp_aligned_fence [OF p(2)]] .
  have b: "0 < x" "x \<le> fp_max_num p" using fp_rep_slot [OF fp_ok_rep [OF p(1)], of x] Cons.prems(2) by simp_all
  from Cons.IH [of "nx (fp_links p) x" w1] Cons.prems obtain w' where
    "pp_fence_used prot base p (nx (fp_links p) x) w1 = Some (True, w')" "fenced w' = fenced w1 \<union> pp_fence base p ` set xs" by auto
  with w1 b Cons.prems fp_iter_next_used [OF p(1), of x] show ?case
    by (simp add: pp_fence_used.simps [of prot base p x w] fp_int_2_ptr_def pp_fence_def)
qed

section \<open>Creating and attaching\<close>

lemma pp_addr_step:
  assumes "0 < i" "i < j"
  shows "fp_addr base p i + fp_t_size p \<le> fp_addr base p j"
proof -
  have "i - 1 + 1 \<le> j - 1" using assms by linarith
  then have "(i - 1 + 1) * fp_t_size p \<le> (j - 1) * fp_t_size p" by (rule mult_le_mono1)
  then show ?thesis by (simp add: fp_addr_def algebra_simps)
qed

lemma pp_disjoint:
  assumes "FENCE_SIZE \<le> fp_t_size p" "0 < i" "0 < j"
  shows "{fp_addr base p j ..< fp_addr base p j + pp_node_size_real p} \<inter> {pp_fence base p i ..< pp_fence base p i + FENCE_SIZE} = {}"
proof -
  have f: "pp_fence base p i + FENCE_SIZE = fp_addr base p i + fp_t_size p" "pp_node_size_real p \<le> fp_t_size p"
    using assms(1) by (simp_all add: pp_fence_def pp_node_size_real_def)
  consider "i = j" | "i < j" | "j < i" by linarith
  then show ?thesis
  proof cases
    case 2
    then show ?thesis using pp_addr_step [OF assms(2) 2, of base p] f by (auto simp: disjoint_iff)
  next
    case 3
    then show ?thesis using pp_addr_step [OF assms(3) 3, of base p] f by (auto simp: disjoint_iff pp_fence_def)
  qed (auto simp: pp_fence_def)
qed

lemma pp_fence_inside:
  assumes "FENCE_SIZE \<le> fp_t_size p" "0 < i" "i \<le> n" "fp_value_offset p + n * fp_t_size p \<le> bytes"
  shows "pp_fence base p i + FENCE_SIZE \<le> base + bytes"
proof -
  have "(i - 1 + 1) * fp_t_size p \<le> n * fp_t_size p" using assms(2,3) by (intro mult_le_mono1) simp
  then have "(i - 1) * fp_t_size p + fp_t_size p \<le> n * fp_t_size p" by (simp add: algebra_simps)
  then show ?thesis using assms(1,4) by (simp add: pp_fence_def fp_addr_def pp_node_size_real_def)
qed

lemma fence_pow2: "is_pow_of_two (word_of_nat FENCE_SIZE)" "FENCE_SIZE < 2 ^ 64"
  by (simp_all add: FENCE_SIZE_def is_pow_of_two_def)

lemma pp_attach:
  assumes prot: "pp_mprotect prot fenced" and q: "fp_ok q" "pp_aligned base q"
    and init: "fp_init FENCE_SIZE sizeof_T (Some q) bytes n (node + FENCE_SIZE) True = (True, Some q)"
  shows "\<exists>q' w'. pp_init prot z base sizeof_T (Some q) bytes n node True w = Some (True, Some q', w')
    \<and> fp_ok q' \<and> fp_cells q' = fp_cells q \<and> fp_allocated base q' = fp_allocated base q
    \<and> fenced w' = fenced w \<union> pp_fence base q ` {1..fp_max_num q}"
proof -
  from pp_take_all_result [OF q(1), of z base "[]"] obtain l p where
    p: "pp_take_all z base [] q = Some (l, p)" "fp_ok p" "fp_same_layout q p" "fp_full p" "fp_cells p = fp_cells q"
      "fp_allocated base p = fp_allocated base q \<union> set l" "set l \<inter> fp_allocated base q = {}" "distinct l" by auto
  note same = pp_same_layout [OF p(3)]
  have d: "dll (fp_links p) (fp_order p)" using fp_ok_rep [OF p(2)] by (auto simp: fp_rep_def intro: slots_dll)
  from pp_fence_used_chain [OF prot p(2) _ dll_chain [OF d] subset_refl, of base w] q(2) same(2) obtain w' where
    w': "pp_fence_used prot base p (fp_begin p) w = Some (True, w')" "fenced w' = fenced w \<union> pp_fence base p ` set (fp_order p)"
    by (auto simp: fp_begin_def)
  from pp_free_all_result [OF p(2) _ p(8), of base] p(6) obtain u where
    u: "pp_free_all base l p = Some u" "fp_ok u" "fp_same_layout p u" "fp_cells u = fp_cells p"
      "fp_allocated base u = fp_allocated base p - set l" by auto
  have al: "fp_allocated base u = fp_allocated base q" using u(5) p(6,7) by auto
  then have "fp_size q = fp_size u"
    using fp_allocated_card(2) [OF q(1), of base] fp_allocated_card(2) [OF u(2), of base] by (simp add: fp_size_def)
  then have "pp_init prot z base sizeof_T (Some q) bytes n node True w = Some (True, Some u, w')"
    using init p(1) w'(1) u(1) by (simp add: pp_init_def)
  then show ?thesis using u(2,4) p(5) al w'(2) pp_full_order [OF p(2,4)] same by auto
qed



end
