(* ===== verification/FileUtils.thy ===== *)
theory FileUtils
  imports Prelude "HOL-Library.Word"
begin

unbundle bit_operations_syntax

text \<open>
  \<^verbatim>\<open>src/common/utils.cpp\<close>: the shared-memory file the program keeps its package check
  word in, and the file descriptors it opens.  The system calls are a parameter \<open>e\<close>, in the state \<open>w\<close>
  of the process; \<open>err_msg\<close> is \<^term>\<open>None\<close> for a null pointer and else the text the string holds.
\<close>

section \<open>The system\<close>

record 'w os =
  os_access :: "string \<Rightarrow> 'w \<Rightarrow> bool"
  os_mkdir :: "string \<Rightarrow> nat \<Rightarrow> 'w \<Rightarrow> bool \<times> 'w"
  os_open :: "string \<Rightarrow> 32 word \<Rightarrow> nat \<Rightarrow> 'w \<Rightarrow> int \<times> 'w"
  os_fstat :: "int \<Rightarrow> 'w \<Rightarrow> nat option \<times> 'w"
  os_ftruncate :: "int \<Rightarrow> 32 word \<Rightarrow> 'w \<Rightarrow> 'w"
  os_mmap :: "32 word \<Rightarrow> int \<Rightarrow> 'w \<Rightarrow> nat option \<times> 'w"
  os_msync :: "nat \<Rightarrow> 32 word \<Rightarrow> 'w \<Rightarrow> bool \<times> 'w"
  os_munmap :: "nat \<Rightarrow> 32 word \<Rightarrow> 'w \<Rightarrow> 'w"
  os_close :: "int \<Rightarrow> 'w \<Rightarrow> 'w"
  os_strerror :: "'w \<Rightarrow> string"

text \<open>The flags of \<^verbatim>\<open>open\<close> on Linux.\<close>

definition O_RDWR :: "32 word" where
  "O_RDWR = 2"

definition O_CREAT :: "32 word" where
  "O_CREAT = 64"

section \<open>Operations\<close>

definition err_add :: "string \<Rightarrow> string option \<Rightarrow> string option" where
  "err_add t err_msg = map_option (\<lambda>m. m @ t) err_msg"

definition IsPathExist :: "'w os \<Rightarrow> string \<Rightarrow> 'w \<Rightarrow> bool" where
  "IsPathExist e path_name w = os_access e path_name w"

text \<open>\<^verbatim>\<open>std::string::find_last_of\<close>; \<^verbatim>\<open>npos\<close> is \<^term>\<open>None\<close>.\<close>

fun find_last_of :: "char \<Rightarrow> string \<Rightarrow> nat option" where
  "find_last_of c [] = None"
| "find_last_of c (x # xs) =
     (case find_last_of c xs of Some i \<Rightarrow> Some (Suc i) | None \<Rightarrow> if x = c then Some 0 else None)"

text \<open>\<^verbatim>\<open>ScopedFd\<close>: its destructor closes the descriptor unless it was released.\<close>

definition fd_Release :: "int \<Rightarrow> int \<times> int" where
  "fd_Release fd = (fd, -1)"

definition fd_destroy :: "'w os \<Rightarrow> int \<Rightarrow> 'w \<Rightarrow> 'w" where
  "fd_destroy e fd w = (if fd \<ge> 0 then os_close e fd w else w)"

text \<open>The answer is whether the function returns 0; the flag is an output.\<close>

definition EnsureDir :: "'w os \<Rightarrow> string \<Rightarrow> bool \<Rightarrow> 32 word \<Rightarrow> string option \<Rightarrow> 'w
    \<Rightarrow> bool \<times> 32 word \<times> string option \<times> 'w" where
  "EnsureDir e file_name allow_create flag err_msg w =
     (let (ok, err_msg, w) =
        (case find_last_of (CHR ''/'') file_name of
           None \<Rightarrow> (True, err_msg, w)
         | Some slash \<Rightarrow>
             let dir = take slash file_name
             in if IsPathExist e dir w then (True, err_msg, w)
                else if \<not> allow_create then (False, err_add (dir @ '' not exist and not allow create'') err_msg, w)
                else (case os_mkdir e dir 493 w of
                    (False, w) \<Rightarrow> (False, err_add (os_strerror e w) (err_add ''mkdir failed, error: '' err_msg), w)
                  | (True, w) \<Rightarrow> (True, err_msg, w)))
      in if \<not> ok then (False, flag, err_msg, w)
         else
           let flag = O_RDWR
           in if \<not> IsPathExist e file_name w then
                if \<not> allow_create then (False, flag, err_add (file_name @ '' not exist and not allow create'') err_msg, w)
                else (True, flag OR O_CREAT, err_msg, w)
              else (True, flag, err_msg, w))"

definition GetMmapMem :: "'w os \<Rightarrow> string \<Rightarrow> 32 word \<Rightarrow> string option \<Rightarrow> 'w
    \<Rightarrow> nat option \<times> bool \<times> string option \<times> 'w" where
  "GetMmapMem e mmap_file_name mem_size err_msg w =
     (case EnsureDir e mmap_file_name True 0 err_msg w of
        (False, flag, err_msg, w) \<Rightarrow> (None, True, err_msg, w)
      | (True, flag, err_msg, w) \<Rightarrow>
          let (fd, w) = os_open e mmap_file_name flag 438 w
          in if fd < 0 then (None, True, err_add (os_strerror e w) (err_add ''open file failed, error: '' err_msg), w)
             else
               case os_fstat e fd w of
                 (None, w) \<Rightarrow>
                   (None, True, err_add (os_strerror e w) (err_add ''get file stat failed, error: '' err_msg), fd_destroy e fd w)
               | (Some st_size, w) \<Rightarrow>
                   let (is_exist, w) = (if st_size = 0 then (False, os_ftruncate e fd mem_size w) else (True, w))
                   in case os_mmap e mem_size fd w of
                        (None, w) \<Rightarrow>
                          (None, is_exist, err_add (os_strerror e w) (err_add ''map file_write fail, error: '' err_msg),
                            fd_destroy e fd w)
                      | (Some file_buf, w) \<Rightarrow>
                          let (released, scoped_fd) = fd_Release fd;
                              w = os_close e released w
                          in case os_msync e file_buf mem_size w of
                               (False, w) \<Rightarrow>
                                 let err_msg = err_add (os_strerror e w) (err_add ''msync failed, error: '' err_msg)
                                 in (None, is_exist, err_msg, fd_destroy e scoped_fd (os_munmap e file_buf mem_size w))
                             | (True, w) \<Rightarrow> (Some file_buf, is_exist, err_msg, fd_destroy e scoped_fd w))"

definition GetFileFd :: "'w os \<Rightarrow> string \<Rightarrow> bool \<Rightarrow> string option \<Rightarrow> 'w \<Rightarrow> int \<times> string option \<times> 'w" where
  "GetFileFd e file_path allow_create err_msg w =
     (case EnsureDir e file_path allow_create 0 err_msg w of
        (False, flag, err_msg, w) \<Rightarrow> (-1, err_msg, w)
      | (True, flag, err_msg, w) \<Rightarrow>
          let (fd, w) = os_open e file_path flag 438 w
          in (fd, if fd < 0 then err_add (os_strerror e w) (err_add ''open file failed, error: '' err_msg) else err_msg, w))"

section \<open>What the program holds of the system\<close>

text \<open>
  \<open>opened\<close> are the descriptors and \<open>mapped\<close> the mappings of the process: what the manual pages say the
  calls do to them.
\<close>

definition os_laws :: "'w os \<Rightarrow> ('w \<Rightarrow> int set) \<Rightarrow> ('w \<Rightarrow> nat set) \<Rightarrow> bool" where
  "os_laws e opened mapped \<longleftrightarrow>
     (\<forall>p m w. opened (snd (os_mkdir e p m w)) = opened w \<and> mapped (snd (os_mkdir e p m w)) = mapped w)
     \<and> (\<forall>p f m w fd w'. os_open e p f m w = (fd, w') \<longrightarrow> mapped w' = mapped w
          \<and> (if fd < 0 then opened w' = opened w else fd \<notin> opened w \<and> opened w' = insert fd (opened w)))
     \<and> (\<forall>fd w. opened (snd (os_fstat e fd w)) = opened w \<and> mapped (snd (os_fstat e fd w)) = mapped w)
     \<and> (\<forall>fd s w. opened (os_ftruncate e fd s w) = opened w \<and> mapped (os_ftruncate e fd s w) = mapped w)
     \<and> (\<forall>s fd w r w'. os_mmap e s fd w = (r, w') \<longrightarrow> opened w' = opened w
          \<and> (case r of None \<Rightarrow> mapped w' = mapped w | Some a \<Rightarrow> a \<notin> mapped w \<and> mapped w' = insert a (mapped w)))
     \<and> (\<forall>a s w. opened (snd (os_msync e a s w)) = opened w \<and> mapped (snd (os_msync e a s w)) = mapped w)
     \<and> (\<forall>a s w. opened (os_munmap e a s w) = opened w \<and> mapped (os_munmap e a s w) = mapped w - {a})
     \<and> (\<forall>fd w. opened (os_close e fd w) = opened w - {fd} \<and> mapped (os_close e fd w) = mapped w)"

lemma os_lawsD:
  assumes "os_laws e opened mapped"
  shows "os_mkdir e p m w = (b, w1) \<Longrightarrow> opened w1 = opened w \<and> mapped w1 = mapped w"
    "os_open e p f m w = (fd, w1) \<Longrightarrow> mapped w1 = mapped w
       \<and> (if fd < 0 then opened w1 = opened w else fd \<notin> opened w \<and> opened w1 = insert fd (opened w))"
    "os_fstat e fd w = (st, w1) \<Longrightarrow> opened w1 = opened w \<and> mapped w1 = mapped w"
    "opened (os_ftruncate e fd s w) = opened w" "mapped (os_ftruncate e fd s w) = mapped w"
    "os_mmap e s fd w = (r, w1) \<Longrightarrow> opened w1 = opened w
       \<and> (case r of None \<Rightarrow> mapped w1 = mapped w | Some a \<Rightarrow> a \<notin> mapped w \<and> mapped w1 = insert a (mapped w))"
    "os_msync e a s w = (b, w1) \<Longrightarrow> opened w1 = opened w \<and> mapped w1 = mapped w"
    "opened (os_munmap e a s w) = opened w" "mapped (os_munmap e a s w) = mapped w - {a}"
    "opened (os_close e fd w) = opened w - {fd}" "mapped (os_close e fd w) = mapped w"
proof -
  note l = assms [unfolded os_laws_def]
  show "os_mkdir e p m w = (b, w1) \<Longrightarrow> opened w1 = opened w \<and> mapped w1 = mapped w" using l by (metis snd_conv)
  show "os_open e p f m w = (fd, w1) \<Longrightarrow> mapped w1 = mapped w
       \<and> (if fd < 0 then opened w1 = opened w else fd \<notin> opened w \<and> opened w1 = insert fd (opened w))" using l by meson
  show "os_fstat e fd w = (st, w1) \<Longrightarrow> opened w1 = opened w \<and> mapped w1 = mapped w" using l by (metis snd_conv)
  show "os_mmap e s fd w = (r, w1) \<Longrightarrow> opened w1 = opened w
       \<and> (case r of None \<Rightarrow> mapped w1 = mapped w | Some a \<Rightarrow> a \<notin> mapped w \<and> mapped w1 = insert a (mapped w))" using l by meson
  show "os_msync e a s w = (b, w1) \<Longrightarrow> opened w1 = opened w \<and> mapped w1 = mapped w" using l by (metis snd_conv)
qed (use assms in \<open>simp_all add: os_laws_def\<close>)

lemma EnsureDir_holds:
  assumes "os_laws e opened mapped" "EnsureDir e file_name allow_create flag err_msg w = (ok, flag', err_msg', w')"
  shows "opened w' = opened w" "mapped w' = mapped w"
  using assms(2) os_lawsD(1) [OF assms(1), of "take _ file_name" 493 w]
  by (auto simp: EnsureDir_def Let_def split: option.splits if_splits prod.splits bool.splits)

lemma find_last_of_prefix: "c \<notin> set ys \<Longrightarrow> find_last_of c (xs @ c # ys) = Some (length xs)"
proof (induction xs)
  case Nil
  have "find_last_of c ys = None" using Nil by (induction ys) auto
  then show ?case by simp
qed simp

text \<open>For a file in the root directory the name of the directory is empty, which is neither found nor made.\<close>

lemma EnsureDir_root_file:
  assumes "CHR ''/'' \<notin> set name" "\<not> os_access e '''' w" "\<not> fst (os_mkdir e '''' 493 w)"
  shows "\<not> fst (EnsureDir e (CHR ''/'' # name) allow_create flag err_msg w)"
  using assms(2,3) find_last_of_prefix [OF assms(1), of "[]"]
  by (cases "os_mkdir e '''' 493 w") (auto simp: EnsureDir_def IsPathExist_def Let_def)

text \<open>A file that is there but shorter than \<^verbatim>\<open>mem_size\<close> is mapped as it is.\<close>

lemma GetMmapMem_short_file:
  assumes "EnsureDir e name True 0 err_msg w = (True, flag, err_msg, w1)" "os_open e name flag 438 w1 = (fd, w2)" "0 \<le> fd"
    "os_fstat e fd w2 = (Some st_size, w3)" "0 < st_size" "os_mmap e mem_size fd w3 = (Some a, w4)"
    "os_msync e a mem_size (os_close e fd w4) = (True, w5)"
  shows "GetMmapMem e name mem_size err_msg w = (Some a, True, err_msg, w5)"
  using assms by (simp add: GetMmapMem_def Let_def fd_Release_def fd_destroy_def)


text \<open>A system with one file, where every call succeeds but \<^verbatim>\<open>msync\<close>.\<close>

definition fu_demo_os :: "(int set \<times> nat set) os" where
  "fu_demo_os = \<lparr>os_access = (\<lambda>p w. True), os_mkdir = (\<lambda>p m w. (True, w)),
     os_open = (\<lambda>p f m w. if 3 \<in> fst w then (-1, w) else (3, (insert 3 (fst w), snd w))),
     os_fstat = (\<lambda>fd w. (Some 0, w)), os_ftruncate = (\<lambda>fd s w. w),
     os_mmap = (\<lambda>s fd w. if 4096 \<in> snd w then (None, w) else (Some 4096, (fst w, insert 4096 (snd w)))),
     os_msync = (\<lambda>a s w. (False, w)), os_munmap = (\<lambda>a s w. (fst w, snd w - {a})), os_close = (\<lambda>fd w. (fst w - {fd}, snd w)),
     os_strerror = (\<lambda>w. ''I/O error'')\<rparr>"


end
