(* ===== verification/Patterns.thy ===== *)
theory Patterns
  imports Prelude "HOL-Library.Word"
begin

text \<open>
  \<^verbatim>\<open>src/patterns/obj_factory.h\<close>, \<^verbatim>\<open>src/core/wait_group.h\<close> and \<^verbatim>\<open>src/core/coro_mgr.h\<close>: the object
  factory over an array or a hash map of creators, the counter that calls back when the last of its
  tasks is done, and the pointer to the coroutine plug-in.
\<close>

section \<open>The factory over an array\<close>

text \<open>
  A creator is a function object, \<^term>\<open>None\<close> one that holds no function: calling it throws
  \<^verbatim>\<open>std::bad_function_call\<close>.  A failed assertion is \<^term>\<open>Inl Assert\<close>.
\<close>

datatype fac_err = Assert | BadCall

record 'c array_storage =
  as_max_num :: nat
  as_nodes :: "'c option list"

definition as_new :: "nat \<Rightarrow> 'c array_storage" where
  "as_new n = \<lparr>as_max_num = 0, as_nodes = replicate n None\<rparr>"

definition as_Insert :: "nat \<Rightarrow> 'c option \<Rightarrow> 'c array_storage \<Rightarrow> fac_err + (bool \<times> 'c array_storage)" where
  "as_Insert i node s =
     (if \<not> i < length (as_nodes s) then Inl Assert
      else
        let s = s\<lparr>as_nodes := (as_nodes s)[i := node]\<rparr>
        in Inr (True, if as_max_num s < i then s\<lparr>as_max_num := i\<rparr> else s))"

text \<open>The address of a cell of the array is never null.\<close>

definition as_Get :: "nat \<Rightarrow> 'c array_storage \<Rightarrow> fac_err + 'c option" where
  "as_Get i s = (if \<not> i \<le> as_max_num s then Inl Assert else Inr (as_nodes s ! i))"

definition as_Create :: "('c \<Rightarrow> 'a \<Rightarrow> 'o) \<Rightarrow> nat \<Rightarrow> 'a \<Rightarrow> 'c array_storage \<Rightarrow> fac_err + 'o" where
  "as_Create call i args s =
     (case as_Get i s of
        Inl e \<Rightarrow> Inl e
      | Inr None \<Rightarrow> Inl BadCall
      | Inr (Some c) \<Rightarrow> Inr (call c args))"

section \<open>The factory over a hash map\<close>

type_synonym ('k, 'c) map_storage = "'k \<rightharpoonup> 'c option"

text \<open>\<^verbatim>\<open>emplace\<close> keeps the creator that is there.\<close>

definition ps_Insert :: "'k \<Rightarrow> 'c option \<Rightarrow> ('k, 'c) map_storage \<Rightarrow> bool \<times> ('k, 'c) map_storage" where
  "ps_Insert i node s = (if s i = None then (True, s(i \<mapsto> node)) else (False, s))"

definition ps_Get :: "'k \<Rightarrow> ('k, 'c) map_storage \<Rightarrow> 'c option option" where
  "ps_Get i s = s i"

text \<open>\<^term>\<open>None\<close> is the null object.\<close>

definition ps_Create :: "('c \<Rightarrow> 'a \<Rightarrow> 'o option) \<Rightarrow> 'k \<Rightarrow> 'a \<Rightarrow> ('k, 'c) map_storage \<Rightarrow> fac_err + 'o option" where
  "ps_Create call i args s =
     (case ps_Get i s of
        None \<Rightarrow> Inr None
      | Some None \<Rightarrow> Inl BadCall
      | Some (Some c) \<Rightarrow> Inr (call c args))"

section \<open>Registering and creating\<close>

primrec as_register_all :: "(nat \<times> 'c) list \<Rightarrow> 'c array_storage \<Rightarrow> 'c array_storage" where
  "as_register_all [] s = s"
| "as_register_all (x # xs) s = as_register_all xs (case as_Insert (fst x) (Some (snd x)) s of Inl _ \<Rightarrow> s | Inr (_, s) \<Rightarrow> s)"

primrec ps_register_all :: "('k \<times> 'c) list \<Rightarrow> ('k, 'c) map_storage \<Rightarrow> ('k, 'c) map_storage" where
  "ps_register_all [] s = s"
| "ps_register_all (x # xs) s = ps_register_all xs (snd (ps_Insert (fst x) (Some (snd x)) s))"

lemma as_register_all_nodes:
  "length (as_nodes (as_register_all xs s)) = length (as_nodes s) \<and>
   (\<forall>i < length (as_nodes s). as_nodes (as_register_all xs s) ! i =
     (case map_of (rev xs) i of None \<Rightarrow> as_nodes s ! i | Some c \<Rightarrow> Some c))"
proof (induction xs arbitrary: s)
  case (Cons x xs)
  obtain i c where x: "x = (i, c)" by (cases x)
  let ?t = "case as_Insert i (Some c) s of Inl _ \<Rightarrow> s | Inr (_, s) \<Rightarrow> s"
  have "length (as_nodes ?t) = length (as_nodes s)"
    "\<forall>j < length (as_nodes s). as_nodes ?t ! j = (if j = i then Some c else as_nodes s ! j)"
    by (auto simp: as_Insert_def Let_def nth_list_update)
  with Cons.IH [of ?t] show ?case by (auto simp: x map_add_def split: option.splits)
qed simp

text \<open>With an array the last registration of an id counts, with a map the first.\<close>

lemma as_Create_last:
  assumes "i < n" "map_of (rev xs) i = Some c" "i \<le> as_max_num (as_register_all xs (as_new n))"
  shows "as_Create call i args (as_register_all xs (as_new n)) = Inr (call c args)"
  using as_register_all_nodes [of xs "as_new n"] assms by (simp add: as_Create_def as_Get_def as_new_def)

lemma as_register_all_max:
  "as_max_num s \<le> as_max_num (as_register_all xs s)
   \<and> (\<forall>i < length (as_nodes s). i \<in> fst ` set xs \<longrightarrow> i \<le> as_max_num (as_register_all xs s))"
proof (induction xs arbitrary: s)
  case (Cons x xs)
  let ?t = "case as_Insert (fst x) (Some (snd x)) s of Inl _ \<Rightarrow> s | Inr (_, s) \<Rightarrow> s"
  have "length (as_nodes ?t) = length (as_nodes s)" "as_max_num s \<le> as_max_num ?t"
    "fst x < length (as_nodes s) \<longrightarrow> fst x \<le> as_max_num ?t" by (auto simp: as_Insert_def Let_def)
  with Cons.IH [of ?t] show ?case by (auto intro: order_trans)
qed simp

lemma as_Create_registered:
  assumes "i < n" "map_of (rev xs) i = Some c"
  shows "as_Create call i args (as_register_all xs (as_new n)) = Inr (call c args)"
proof (rule as_Create_last [OF assms])
  have "i \<in> fst ` set xs" using assms(2) by (metis set_rev map_of_eq_None_iff option.distinct(1))
  then show "i \<le> as_max_num (as_register_all xs (as_new n))"
    using as_register_all_max [of "as_new n" xs] assms(1) by (simp add: as_new_def)
qed

text \<open>An id below the largest that was never registered is taken for a creator, and calling it throws.\<close>

lemma as_Create_gap:
  assumes "i < n" "map_of (rev xs) i = None" "i \<le> as_max_num (as_register_all xs (as_new n))"
  shows "as_Create call i args (as_register_all xs (as_new n)) = Inl BadCall"
  using as_register_all_nodes [of xs "as_new n"] assms by (simp add: as_Create_def as_Get_def as_new_def)

lemma ps_register_all_first:
  "ps_register_all xs s k = (case s k of None \<Rightarrow> map_option Some (map_of xs k) | Some c \<Rightarrow> Some c)"
  by (induction xs arbitrary: s) (auto simp: ps_Insert_def split: option.splits)

lemma ps_Create_registered:
  "ps_Create call k args (ps_register_all xs Map.empty) =
     Inr (case map_of xs k of None \<Rightarrow> None | Some c \<Rightarrow> call c args)"
  by (auto simp: ps_Create_def ps_Get_def ps_register_all_first split: option.splits)

section \<open>The wait group\<close>

text \<open>
  A call of \<^verbatim>\<open>Done\<close> is two steps that calls on other threads may come between: the atomic
  decrement, and the callback of the call that took the counter from 1 to 0 (nothing, in a group that was given
  none).  \<open>wg_owing\<close> counts the calls between the two, \<open>wg_called\<close> those past the second.
\<close>

record wait_group =
  wg_count :: "32 word"
  wg_called :: nat
  wg_owing :: nat

definition wg_new :: "32 word \<Rightarrow> wait_group" where
  "wg_new n = \<lparr>wg_count = n, wg_called = 0, wg_owing = 0\<rparr>"

datatype wg_act = FetchSub | Callback

fun wg_step :: "wg_act \<Rightarrow> wait_group \<Rightarrow> wait_group option" where
  "wg_step FetchSub g = Some (g\<lparr>wg_count := wg_count g - 1, wg_owing := wg_owing g + (if wg_count g = 1 then 1 else 0)\<rparr>)"
| "wg_step Callback g =
     (if wg_owing g = 0 then None else Some (g\<lparr>wg_owing := wg_owing g - 1, wg_called := wg_called g + 1\<rparr>))"

fun wg_run :: "wg_act list \<Rightarrow> wait_group \<Rightarrow> wait_group option" where
  "wg_run [] g = Some g"
| "wg_run (a # as) g = do { g \<leftarrow> wg_step a g; wg_run as g }"

definition wg_Wait :: "wait_group \<Rightarrow> bool" where
  "wg_Wait g \<longleftrightarrow> wg_count g = 0"

definition wg_Remaining :: "wait_group \<Rightarrow> 32 word" where
  "wg_Remaining g = wg_count g"

lemma wg_run_count:
  "wg_run as g = Some g' \<Longrightarrow> count_list as FetchSub \<le> unat (wg_count g) \<Longrightarrow>
     unat (wg_count g') = unat (wg_count g) - count_list as FetchSub
     \<and> wg_called g' + wg_owing g' = wg_called g + wg_owing g
         + (if 0 < unat (wg_count g) \<and> count_list as FetchSub = unat (wg_count g) then 1 else 0)"
proof (induction as arbitrary: g)
  case Nil
  then show ?case by (cases "unat (wg_count g) = 0") simp_all
next
  case (Cons a as)
  then obtain g1 where g1: "wg_step a g = Some g1" "wg_run as g1 = Some g'" by (auto split: Option.bind_splits)
  show ?case
  proof (cases a)
    case FetchSub
    have pos: "0 < unat (wg_count g)" using Cons.prems(2) FetchSub by simp
    then have u: "unat (wg_count g1) = unat (wg_count g) - 1" using g1(1) FetchSub unat_minus_one [of "wg_count g"] unat_gt_0 [of "wg_count g"] by auto
    have "wg_count g = 1 \<longleftrightarrow> unat (wg_count g) = 1" by (metis unat_1 word_unat_eq_iff)
    with Cons.IH [OF g1(2)] Cons.prems(2) g1(1) u pos FetchSub show ?thesis by auto
  next
    case Callback
    with Cons.IH [OF g1(2)] Cons.prems(2) g1(1) show ?thesis by (auto split: if_splits)
  qed
qed

text \<open>C29. However the calls of \<^verbatim>\<open>Done\<close> interleave, while they are no more than the tasks, the group is
  complete exactly when there were as many as tasks, and the callback is then run or about to be run by exactly one
  of the calls, and not before.  (A group created with no tasks is complete at once and never calls back.)\<close>

theorem wg_callback_once:
  assumes "wg_run as (wg_new n) = Some g" "0 < n" "count_list as FetchSub \<le> unat n"
  shows "(wg_Wait g \<longleftrightarrow> count_list as FetchSub = unat n) \<and> wg_called g + wg_owing g = (if wg_Wait g then 1 else 0)
    \<and> unat (wg_Remaining g) = unat n - count_list as FetchSub"
proof -
  have n: "0 < unat n" using assms(2) by (simp add: unat_gt_0 word_gt_0)
  from wg_run_count [OF assms(1)] assms(3) n
  have r: "unat (wg_count g) = unat n - count_list as FetchSub"
    "wg_called g + wg_owing g = (if count_list as FetchSub = unat n then 1 else 0)" by (simp_all add: wg_new_def)
  have w: "wg_Wait g \<longleftrightarrow> count_list as FetchSub = unat n"
    unfolding wg_Wait_def unat_eq_0 [symmetric] r(1) using assms(3) by auto
  with r show ?thesis by (simp add: wg_Remaining_def)
qed

theorem wg_callback_once_witness:
  "wg_run [FetchSub, FetchSub, Callback] (wg_new 2) = Some \<lparr>wg_count = 0, wg_called = 1, wg_owing = 0\<rparr>
    \<and> wg_Wait \<lparr>wg_count = 0, wg_called = 1, wg_owing = 0\<rparr>"
proof -
  have "wg_run [FetchSub, FetchSub, Callback] (wg_new 2) = Some \<lparr>wg_count = 0, wg_called = 1, wg_owing = 0\<rparr>"
    by (simp add: wg_new_def)
  with wg_callback_once [of "[FetchSub, FetchSub, Callback]" 2] show ?thesis by simp
qed

section \<open>The coroutine manager\<close>

text \<open>
  \<^verbatim>\<open>src/core/coro_mgr.h\<close>: a global pointer to the coroutine plug-in, which may be null.  The plug-in
  is outside of the repository; what is asked of it are functions of the world.
\<close>

record 'w coroutine_if =
  co_ThisCoro :: "'w \<Rightarrow> nat option"
  co_GetRunningCoro :: "'w \<Rightarrow> 64 word"

type_synonym 'w coro_mgr = "'w coroutine_if option"

definition cm_SetCoroutine :: "'w coroutine_if option \<Rightarrow> 'w coro_mgr \<Rightarrow> 'w coro_mgr" where
  "cm_SetCoroutine c m = c"

definition cm_GetInst :: "'w coro_mgr \<Rightarrow> 'w coroutine_if option" where
  "cm_GetInst m = do { cassert (m \<noteq> None); m }"

definition cm_ThisCoro :: "'w coro_mgr \<Rightarrow> 'w \<Rightarrow> nat option" where
  "cm_ThisCoro m w = (case m of None \<Rightarrow> None | Some c \<Rightarrow> co_ThisCoro c w)"

definition cm_GetRunningCoro :: "'w coro_mgr \<Rightarrow> 'w \<Rightarrow> 64 word" where
  "cm_GetRunningCoro m w = (case m of None \<Rightarrow> 0 | Some c \<Rightarrow> co_GetRunningCoro c w)"

text \<open>Only \<^verbatim>\<open>GetInst\<close> needs a plug-in; without one the program is on the main coroutine and none runs.\<close>

lemma cm_no_plugin:
  "cm_GetInst (cm_SetCoroutine None m) = None" "cm_ThisCoro (cm_SetCoroutine None m) w = None"
  "cm_GetRunningCoro (cm_SetCoroutine None m) w = 0" "cm_GetInst (cm_SetCoroutine (Some c) m) = Some c"
  by (simp_all add: cm_SetCoroutine_def cm_GetInst_def cm_ThisCoro_def cm_GetRunningCoro_def cassert_def)

end
