(* ===== verification/Widths.thy ===== *)
theory Widths
  imports MemList MemLru TraitsUtils
begin

text \<open>
  The width of the stored indices.  \<^verbatim>\<open>src/containers/inner/base_mem_list.h\<close> and
  \<^verbatim>\<open>mem_lru_set_data.h\<close> keep links, heads and counters in \<^verbatim>\<open>FixIntType<MAX_SIZE + 1>::IntType\<close>, the
  smallest unsigned type that holds the capacity and one more; the models keep natural numbers.  The
  theorems here say that no field ever leaves the range of that type, so no store wraps around.
\<close>

named_theorems bounded_simps

section \<open>Arrays of links with bounded members\<close>

definition links_bounded :: "nat \<Rightarrow> link list \<Rightarrow> bool" where
  "links_bounded n m \<longleftrightarrow> length m = n + 1 \<and> (\<forall>l \<in> set m. lk_prev l \<le> n \<and> lk_next l \<le> n)"

lemma links_bounded_read [bounded_simps]:
  assumes "links_bounded n m" "i \<le> n"
  shows "nx m i \<le> n" "pv m i \<le> n"
  using assms by (auto simp: links_bounded_def nx_def pv_def)

lemma links_bounded_upd: "links_bounded n m \<Longrightarrow> lk_prev l \<le> n \<Longrightarrow> lk_next l \<le> n \<Longrightarrow> links_bounded n (m[i := l])"
  using set_update_subset_insert [of m i l] by (auto simp: links_bounded_def)

lemma links_bounded_set [bounded_simps]:
  assumes "links_bounded n m" "v \<le> n" "i \<le> n"
  shows "links_bounded n (set_next m i v)" "links_bounded n (set_prev m i v)"
  using assms links_bounded_read [of n m i] 
  by (simp_all add: set_next_def set_prev_def links_bounded_upd nx_def pv_def)

lemma links_bounded_link0 [bounded_simps]:
  "links_bounded n (replicate (n + 1) link0)" "links_bounded n m \<Longrightarrow> links_bounded n (m[i := link0])"
  by (auto simp: links_bounded_def link0_def links_bounded_upd dest!: subsetD [OF set_update_subset_insert])

lemma links_bounded_moves [bounded_simps]:
  assumes "links_bounded n m" "i \<le> n"
  shows "links_bounded n (link_front m i)" "links_bounded n (link_back m i)" "links_bounded n (unlink m i)"
  using assms
  by (simp_all add: link_front_def link_back_def unlink_def Let_def links_bounded_set links_bounded_read)

section \<open>The list\<close>

definition ml_bounded :: "'a mem_list \<Rightarrow> bool" where
  "ml_bounded s \<longleftrightarrow> links_bounded (ml_max s) (ml_link s) \<and> ml_free_index s \<le> ml_max s"

lemma ml_max_upd [simp]:
  "ml_max (s\<lparr>ml_link := m\<rparr>) = ml_max s" "ml_max (s\<lparr>ml_free_index := i\<rparr>) = ml_max s"
  "ml_max (s\<lparr>ml_used := i\<rparr>) = ml_max s" "ml_max (s\<lparr>ml_raw_used := i\<rparr>) = ml_max s"
  "ml_max (s\<lparr>ml_value := vs\<rparr>) = length vs"
  by (simp_all add: ml_max_def)

lemma length_ml_value [simp]: "length (ml_value s) = ml_max s"
  by (simp add: ml_max_def)

lemma ml_alloc_bounded:
  assumes "ml_bounded s" "ml_alloc_index s = Some (i, t)"
  shows "i \<le> ml_max s \<and> ml_bounded t \<and> ml_max t = ml_max s"
  using assms links_bounded_read [of "ml_max s" "ml_link s" "ml_free_index s"]
  by (auto simp: ml_alloc_index_def ml_bounded_def bind_eq_Some_conv cassert_def split: if_splits)

lemma ml_push_bounded:
  assumes "ml_bounded s"
  shows "ml_push_front v s = Some (i, t) \<Longrightarrow> ml_bounded t" "ml_push_back v s = Some (i, t) \<Longrightarrow> ml_bounded t"
  using assms
  by (auto simp: ml_push_front_def ml_push_back_def ml_copy_one_def ml_bounded_def bind_eq_Some_conv Let_def
      bounded_simps split: if_splits dest!: ml_alloc_bounded [rotated])

lemma ml_destruct_one_frame:
  assumes "ml_destruct_one triv i s = Some t"
  shows "ml_link t = ml_link s" "ml_free_index t = ml_free_index s" "ml_max t = ml_max s"
  using assms by (auto simp: ml_destruct_one_def bind_eq_Some_conv cassert_def split: if_splits)

lemma ml_pop_front_bounded: "ml_bounded s \<Longrightarrow> ml_pop_front triv s = Some t \<Longrightarrow> ml_bounded t"
  by (clarsimp simp: ml_pop_front_def ml_bounded_def bind_eq_Some_conv cassert_def Let_def
      bounded_simps ml_destruct_one_frame split: if_splits)

lemma ml_pop_back_bounded: "ml_bounded s \<Longrightarrow> ml_pop_back triv s = Some t \<Longrightarrow> ml_bounded t"
  by (clarsimp simp: ml_pop_back_def ml_bounded_def bind_eq_Some_conv cassert_def Let_def
      bounded_simps ml_destruct_one_frame split: if_splits)

lemma ml_erase_bounded:
  assumes "ml_bounded s" "i \<le> ml_max s" "ml_erase triv i s = Some t"
  shows "ml_bounded t"
  using assms
  by (auto simp: ml_erase_def ml_bounded_def bind_eq_Some_conv cassert_def Let_def
      bounded_simps ml_destruct_one_frame split: if_splits)

lemma destruct_loop_length: "destruct_loop f i vs = Some ws \<Longrightarrow> length ws = length vs"
  by (erule destruct_loop.raw_induct [of "\<lambda>f i vs ws. length ws = length vs", rotated])
    (auto simp: bind_eq_Some_conv cassert_def split: if_splits)

lemma ml_clear_bounded: "ml_bounded s \<Longrightarrow> ml_clear triv s = Some t \<Longrightarrow> ml_bounded t"
  by (auto simp: ml_clear_def ml_destruct_all_def ml_bounded_def bind_eq_Some_conv
      bounded_simps dest!: destruct_loop_length split: if_splits)

lemma ml_find_pos_in:
  assumes "ml_ok triv s" "ml_find_pos_if p s = Some i"
  shows "i \<le> ml_max s"
proof -
  have "i = 0 \<or> i \<in> set (ml_order s)"
    using ml_find_step [OF assms(1), of p] assms(2)
    by (cases "List.find (\<lambda>n. p (snd n)) (ml_nodes s)")
      (simp_all add: ml_order_nodes, auto simp: find_Some_iff)
  then show ?thesis using ml_rep_bounds [OF ml_ok_rep [OF assms(1)]] by auto
qed

lemma ml_step_bounded:
  assumes "ml_ok triv s" "ml_bounded s" "ml_step triv p s = Some t"
  shows "ml_bounded t"
proof -
  have e: "ml_bounded t" if "do { i \<leftarrow> ml_find_pos_if q s; if i \<noteq> 0 then ml_erase triv i s else Some s } = Some t" for q
    using that assms(2) ml_find_pos_in [OF assms(1)]
    by (auto simp: bind_eq_Some_conv intro: ml_erase_bounded split: if_splits)
  show ?thesis using assms(2,3) e
    by (cases p) (auto simp: ml_erase_value_def ml_find_pos_def
        dest: ml_push_bounded ml_pop_front_bounded ml_pop_back_bounded ml_clear_bounded)
qed

lemma ml_run_bounded:
  "ml_ok triv s \<Longrightarrow> ml_bounded s \<Longrightarrow> ml_run triv ps s = Some t \<Longrightarrow> ml_bounded t"
proof (induction ps arbitrary: s)
  case (Cons p ps)
  then obtain u where "ml_step triv p s = Some u" "ml_run triv ps u = Some t"
    by (auto simp: bind_eq_Some_conv)
  moreover from this ml_step_refines [OF Cons.prems(1), of p] have "ml_ok triv u" by auto
  ultimately show ?case using Cons ml_step_bounded by blast
qed simp

text \<open>Everything the object stores besides the elements.\<close>

definition ml_fields :: "'a mem_list \<Rightarrow> nat set" where
  "ml_fields s = {ml_used s, ml_free_index s, ml_raw_used s} \<union> lk_prev ` set (ml_link s) \<union> lk_next ` set (ml_link s)"

lemma ml_fields_bounded: "ml_ok triv s \<Longrightarrow> ml_bounded s \<Longrightarrow> x \<in> ml_fields s \<Longrightarrow> x \<le> ml_max s"
  using ml_ok_bounded [of triv s] ml_ok_used [of triv s] slots_raw [of "ml_link s"] ml_ok_rep [of triv s]
  by (fastforce simp: ml_fields_def ml_bounded_def links_bounded_def ml_rep_def)

section \<open>The hash containers\<close>

text \<open>Walking a chain of bounded links ends at a bounded slot.\<close>

lemma seek_bounded:
  assumes "seek f p i = Some j" "i \<le> n" "\<And>k. 0 < k \<Longrightarrow> k \<le> n \<Longrightarrow> f k \<le> n"
  shows "j \<le> n"
proof -
  have "i \<le> n \<longrightarrow> (\<forall>k. 0 < k \<and> k \<le> n \<longrightarrow> f k \<le> n) \<longrightarrow> j \<le> n"
    by (rule seek.raw_induct [of "\<lambda>f p i j. i \<le> n \<longrightarrow> (\<forall>k. 0 < k \<and> k \<le> n \<longrightarrow> f k \<le> n) \<longrightarrow> j \<le> n", OF _ assms(1)])
      (auto split: if_splits)
  then show ?thesis using assms(2,3) by blast
qed

lemma ms_erase_seek_bounded:
  assumes "ms_erase_seek f p pre i = Some (q, j)" "i \<le> n" "\<And>k. 0 < k \<Longrightarrow> k \<le> n \<Longrightarrow> f k \<le> n"
  shows "j \<le> n"
proof -
  have "i \<le> n \<longrightarrow> (\<forall>k. 0 < k \<and> k \<le> n \<longrightarrow> f k \<le> n) \<longrightarrow> snd (q, j) \<le> n"
    by (rule ms_erase_seek.raw_induct [of "\<lambda>f p _ i r. i \<le> n \<longrightarrow> (\<forall>k. 0 < k \<and> k \<le> n \<longrightarrow> f k \<le> n) \<longrightarrow> snd r \<le> n", OF _ assms(1)])
      (auto split: if_splits)
  then show ?thesis using assms(2,3) by auto
qed

definition ms_bounded :: "'a mem_set \<Rightarrow> bool" where
  "ms_bounded s \<longleftrightarrow> ms_free s \<le> ms_max s \<and> length (ms_next s) = ms_max s
     \<and> (\<forall>x \<in> set (ms_buckets s). x \<le> ms_max s) \<and> (\<forall>x \<in> set (ms_next s). x \<le> ms_max s)"

lemma ms_max_upd [simp]:
  "ms_max (s\<lparr>ms_next := m\<rparr>) = ms_max s" "ms_max (s\<lparr>ms_free := i\<rparr>) = ms_max s"
  "ms_max (s\<lparr>ms_used := i\<rparr>) = ms_max s" "ms_max (s\<lparr>ms_raw_used := i\<rparr>) = ms_max s"
  "ms_max (s\<lparr>ms_buckets := m\<rparr>) = ms_max s"
  by (simp_all add: ms_max_def)

lemma length_ms_value [simp]: "length (ms_value s) = ms_max s"
  by (simp add: ms_max_def)

lemma ms_bounded_nx: "ms_bounded s \<Longrightarrow> 0 < i \<Longrightarrow> i \<le> ms_max s \<Longrightarrow> ms_nx s i \<le> ms_max s"
  by (simp add: ms_bounded_def ms_nx_def)

lemma ms_bounded_bucket: "ms_bounded s \<Longrightarrow> b < ms_buckets_num s \<Longrightarrow> ms_buckets s ! b \<le> ms_max s"
  by (simp add: ms_bounded_def ms_buckets_num_def)

lemma set_upd_bounded: "\<forall>x \<in> set xs. x \<le> n \<Longrightarrow> v \<le> n \<Longrightarrow> \<forall>x \<in> set (xs[i := v]). x \<le> (n :: nat)"
  using set_update_subset_insert [of xs i v] by auto

lemma ms_find_bounded: "ms_bounded s \<Longrightarrow> ms_find_index_impl e b k s = Some i \<Longrightarrow> b < ms_buckets_num s \<and> i \<le> ms_max s"
  by (auto simp: ms_find_index_impl_def bind_eq_Some_conv cassert_def ms_bounded_nx ms_bounded_bucket
      dest!: seek_bounded [where n = "ms_max s"] split: if_splits)

lemma ms_insert_impl_bounded:
  assumes "ms_bounded s" "b < ms_buckets_num s" "ms_insert_impl b v s = Some (i, t)"
  shows "ms_bounded t \<and> ms_max t = ms_max s \<and> i \<le> ms_max s"
  using assms ms_bounded_nx [OF assms(1), of "ms_free s"] ms_bounded_bucket [OF assms(1,2)]
  by (auto simp: ms_insert_impl_def ms_copy_one_def ms_bounded_def bind_eq_Some_conv cassert_def Let_def
      split: if_splits dest!: subsetD [OF set_update_subset_insert])

lemma ms_bucket_index_bounded: "ms_bucket_index g s = Some b \<Longrightarrow> b < ms_buckets_num s"
  by (cases "ms_buckets_num s = 0") (auto simp: ms_bucket_index_def bind_eq_Some_conv cassert_def split: if_splits)

lemma ms_insert_bounded:
  assumes "ms_bounded s" "ms_insert h e v s = Some ((i, inserted), t)"
  shows "ms_bounded t \<and> ms_max t = ms_max s \<and> i \<le> ms_max s"
  using assms
  by (auto simp: ms_insert_def bind_eq_Some_conv split: if_splits
      dest: ms_find_bounded ms_insert_impl_bounded ms_bucket_index_bounded)

lemma ms_boundedI:
  "ms_free s \<le> ms_max s \<Longrightarrow> length (ms_next s) = ms_max s \<Longrightarrow> \<forall>x \<in> set (ms_buckets s). x \<le> ms_max s
   \<Longrightarrow> \<forall>x \<in> set (ms_next s). x \<le> ms_max s \<Longrightarrow> ms_bounded s"
  by (simp add: ms_bounded_def)

lemma ms_boundedD:
  assumes "ms_bounded s"
  shows "ms_free s \<le> ms_max s" "length (ms_next s) = ms_max s" "\<forall>x \<in> set (ms_buckets s). x \<le> ms_max s"
    "\<forall>x \<in> set (ms_next s). x \<le> ms_max s"
  using assms by (simp_all add: ms_bounded_def)

lemma ms_store_frame:
  "ms_max (ms_store q v s) = ms_max s" "ms_free (ms_store q v s) = ms_free s" "ms_used (ms_store q v s) = ms_used s"
  by (cases q; simp)+

lemma ms_store_bounded:
  assumes "ms_bounded s" "v \<le> ms_max s"
  shows "ms_bounded (ms_store q v s)"
  using ms_boundedD [OF assms(1)] set_upd_bounded [OF _ assms(2)]
  by (cases q) (simp_all add: ms_boundedI)

lemma ms_release_bounded:
  assumes "ms_bounded s" "i \<le> ms_max s"
  shows "ms_bounded (s\<lparr>ms_next := (ms_next s)[i - 1 := ms_free s], ms_free := i, ms_used := u\<rparr>)"
  using ms_boundedD [OF assms(1)] assms(2)
    set_upd_bounded [OF ms_boundedD(4) [OF assms(1)] ms_boundedD(1) [OF assms(1)], of "i - 1"]
  by (simp add: ms_boundedI)

lemma ms_destruct_one_bounded:
  "ms_bounded s \<Longrightarrow> ms_destruct_one triv i s = Some t \<Longrightarrow> ms_bounded t \<and> ms_max t = ms_max s"
  by (auto simp: ms_destruct_one_def ms_bounded_def ms_max_def bind_eq_Some_conv cassert_def
      simp del: length_ms_value split: if_splits)

lemma ms_erase_bounded:
  assumes "ms_bounded s" "ms_erase triv h e k s = Some (i, t)"
  shows "ms_bounded t \<and> ms_max t = ms_max s \<and> i \<le> ms_max s"
proof (cases "ms_used s = 0 \<or> i = 0")
  case True
  then show ?thesis using assms
    by (auto simp: ms_erase_def bind_eq_Some_conv cassert_def Let_def split: if_splits)
next
  case False
  then obtain b q where b: "b < ms_buckets_num s"
    "ms_erase_seek (ms_nx s) (ms_match e k s) (PBucket b) (ms_buckets s ! b) = Some (q, i)"
    and d: "ms_destruct_one triv i ((ms_store q (ms_nx s i) s)\<lparr>ms_next := (ms_next (ms_store q (ms_nx s i) s))[i - 1 := ms_free (ms_store q (ms_nx s i) s)],
        ms_free := i, ms_used := ms_used (ms_store q (ms_nx s i) s) - 1\<rparr>) = Some t"
    using assms(2) by (auto simp: ms_erase_def bind_eq_Some_conv cassert_def Let_def split: if_splits)
  have i: "i \<le> ms_max s"
    using ms_erase_seek_bounded [OF b(2) ms_bounded_bucket [OF assms(1) b(1)] ms_bounded_nx [OF assms(1)]] .
  then have n: "ms_nx s i \<le> ms_max s" using False ms_bounded_nx [OF assms(1)] by simp
  from ms_destruct_one_bounded [OF ms_release_bounded [OF ms_store_bounded [OF assms(1) n]] d] i
  show ?thesis by (simp add: ms_store_frame)
qed

definition lru_fits :: "'a mem_lru \<Rightarrow> bool" where
  "lru_fits s \<longleftrightarrow> ms_bounded (lru_base s) \<and> links_bounded (lru_max s) (lru_link s)"

lemma lru_erase_bounded:
  assumes "lru_fits s" "lru_erase triv h e k s = Some (i, t)"
  shows "lru_fits t \<and> lru_max t = lru_max s"
proof -
  from assms(2) obtain b where b: "ms_erase triv h e k (lru_base s) = Some (i, b)"
    and t: "t = (if i > 0 then s\<lparr>lru_base := b, lru_link := (unlink (lru_link s) i)[i := link0]\<rparr> else s\<lparr>lru_base := b\<rparr>)"
    by (auto simp: lru_erase_def bind_eq_Some_conv Let_def split: if_splits)
  with assms(1) ms_erase_bounded [OF _ b] show ?thesis
    by (simp add: lru_fits_def lru_max_def bounded_simps)
qed

lemma ms_find_index_bounded: "ms_bounded s \<Longrightarrow> ms_find_index h e k s = Some i \<Longrightarrow> i \<le> ms_max s"
  by (auto simp: ms_find_index_def bind_eq_Some_conv dest: ms_find_bounded)

lemma lru_active_bounded:
  assumes "lru_fits s" "lru_active h e k s = Some (i, t)"
  shows "lru_fits t"
proof -
  from assms(2) have i: "ms_find_index h e k (lru_base s) = Some i"
    and t: "t = (if i \<noteq> 0 then s\<lparr>lru_link := link_front (unlink (lru_link s) i) i\<rparr> else s)"
    by (auto simp: lru_active_def bind_eq_Some_conv split: if_splits)
  with assms(1) ms_find_index_bounded [OF _ i] show ?thesis
    by (simp add: lru_fits_def lru_max_def bounded_simps)
qed

lemma ms_copy_one_bounded: "ms_bounded s \<Longrightarrow> ms_bounded (ms_copy_one i v s) \<and> ms_max (ms_copy_one i v s) = ms_max s"
  by (simp add: ms_copy_one_def ms_bounded_def ms_max_def del: length_ms_value)

lemma lru_disuse_loop_bounded:
  "lru_fits s \<Longrightarrow> lru_disuse_loop triv h e cb n i s = Some (r, t) \<Longrightarrow> lru_fits t \<and> lru_max t = lru_max s"
proof (induction n arbitrary: i s)
  case (Suc n)
  have c: "lru_fits (s\<lparr>lru_base := ms_copy_one p v (lru_base s)\<rparr>)"
    "lru_max (s\<lparr>lru_base := ms_copy_one p v (lru_base s)\<rparr>) = lru_max s" for p v
    using Suc.prems(1) ms_copy_one_bounded [of "lru_base s" p v] by (simp_all add: lru_fits_def lru_max_def)
  have e: "lru_fits u \<and> lru_max u = lru_max s" if "lru_erase triv h e w s' = Some (j, u)"
    "s' = s \<or> (\<exists>p v. s' = s\<lparr>lru_base := ms_copy_one p v (lru_base s)\<rparr>)" for w s' j u
    using that lru_erase_bounded [OF _ that(1)] Suc.prems(1) c by auto
  show ?case
  proof (cases cb)
    case None
    with Suc.prems(2) Suc.IH e Suc.prems(1) show ?thesis
      by (auto simp: bind_eq_Some_conv Let_def split: if_splits) metis+
  next
    case (Some f)
    with Suc.prems(2) Suc.IH e c Suc.prems(1) show ?thesis
      by (auto simp: bind_eq_Some_conv Let_def split: if_splits) metis+
  qed
qed simp

lemma lru_insert_base_bounded:
  assumes "lru_fits s" "lru_insert_base h e v s = Some (r, t)"
  shows "lru_fits t"
proof -
  from assms(2) obtain i ins b where b: "ms_insert h e v (lru_base s) = Some ((i, ins), b)"
    and t: "t = (if ins then s\<lparr>lru_base := b, lru_link := link_front (lru_link s) i\<rparr> else s\<lparr>lru_base := b\<rparr>)"
    by (auto simp: lru_insert_base_def bind_eq_Some_conv Let_def)
  with assms(1) ms_insert_bounded [OF _ b] show ?thesis
    by (simp add: lru_fits_def lru_max_def bounded_simps)
qed

lemma lru_insert_bounded:
  assumes "lru_fits s" "lru_insert triv h e force cb v s = Some (r, t)"
  shows "lru_fits t"
  using assms
  by (auto simp: lru_insert_def lru_disuse_def bind_eq_Some_conv split: if_splits
      dest: lru_insert_base_bounded lru_disuse_loop_bounded simp del: lru_disuse_loop.simps)

lemma lru_step_bounded:
  assumes "lru_fits s" "lru_step triv hT eT hK eK p s = Some (r, t)"
  shows "lru_fits t"
  using assms by (cases p)
    (auto simp: lru_disuse_def dest: lru_insert_bounded lru_erase_bounded lru_active_bounded lru_disuse_loop_bounded)

lemma lru_run_bounded:
  "lru_fits s \<Longrightarrow> lru_run (lru_step triv hT eT hK eK) ps s = Some (rs, t) \<Longrightarrow> lru_fits t"
  by (induction ps arbitrary: s rs) (auto simp: bind_eq_Some_conv dest: lru_step_bounded)

definition ms_fields :: "'a mem_set \<Rightarrow> nat set" where
  "ms_fields s = {ms_used s, ms_raw_used s, ms_free s} \<union> set (ms_buckets s) \<union> set (ms_next s)"

definition lru_fields :: "'a mem_lru \<Rightarrow> nat set" where
  "lru_fields s = lk_prev ` set (lru_link s) \<union> lk_next ` set (lru_link s)"

lemma ms_fields_bounded:
  assumes "ms_ok triv hT key s" "ms_bounded s" "x \<in> ms_fields s"
  shows "x \<le> ms_max s"
proof -
  note sh = ms_okD(1) [OF assms(1)]
  have "length (concat (ms_chains s)) \<le> ms_raw_used s" "ms_raw_used s \<le> ms_max s"
    using sh card_interval_length [of "concat (ms_chains s) @ ms_frees s" "ms_raw_used s"]
    by (auto simp: ms_shape_def simp del: set_concat length_concat)
  then show ?thesis using sh assms(2,3) by (auto simp: ms_fields_def ms_bounded_def ms_shape_def)
qed

section \<open>Properties\<close>

lemma lru_new_fits: "lru_fits (lru_new n b)"
proof -
  have "ms_max (ms_new n b :: 'a mem_set) = n" by (simp add: ms_max_def ms_new_def del: length_ms_value)
  then show ?thesis using links_bounded_link0(1) [of n]
    by (simp add: lru_fits_def lru_max_def lru_new_def ms_bounded_def del: replicate_Suc) (simp add: ms_new_def)
qed

lemma links_bounded_fields:
  "links_bounded n m \<Longrightarrow> x \<in> lk_prev ` set m \<union> lk_next ` set m \<Longrightarrow> x \<le> n"
  by (auto simp: links_bounded_def)

text \<open>C24. However a client uses a \<^verbatim>\<open>MemList<T, N>\<close>, every counter, head and link the object stores
  fits the unsigned type that \<^verbatim>\<open>FixIntType<N + 1>\<close> chose for it, in the cells never handed out and
  in the freed ones too: no store of an index wraps around.\<close>

theorem ml_fields_fit:
  assumes "n + 1 < 2 ^ 64"
  shows "\<exists>t. ml_run triv ps (ml_new n) = Some t
    \<and> (\<forall>x \<in> ml_fields t. x < 2 ^ int_width (fix_int_type (n + 1)))"
proof -
  obtain t where t: "ml_run triv ps (ml_new n) = Some t" "ml_ok triv t" "ml_max t = n"
    using ml_run_refines [OF ml_new_ok, of triv ps n] by auto
  have "ml_bounded (ml_new n)"
    using links_bounded_link0(1) [of n] by (simp add: ml_bounded_def) (simp add: ml_new_def)
  then have "ml_bounded t" using ml_run_bounded [OF ml_new_ok _ t(1)] by blast
  then have "\<forall>x \<in> ml_fields t. x \<le> n" using ml_fields_bounded [OF t(2)] t(3) by blast
  then show ?thesis using t(1) fix_int_type_fits [OF assms] by fastforce
qed

theorem ml_fields_fit_witness:
  "\<exists>t. ml_run False [PushBack CHR ''a'', PopFront] (ml_new 255) = Some t
    \<and> (\<forall>x \<in> ml_fields t. x < 2 ^ 16) \<and> fix_int_type 256 = Uint16"
proof -
  have "fix_int_type 256 = Uint16" by code_simp
  then show ?thesis using ml_fields_fit [of 255 False "[PushBack CHR ''a'', PopFront]"] by simp
qed

text \<open>C25. The same for a \<^verbatim>\<open>MemLRUMap<K, V, N>\<close>: after any run of inserts, evictions, erasures and
  activations the counters, heads, buckets and chain links of its hash set fit
  \<^verbatim>\<open>FixIntType<N>\<close> and the links of the recency list fit \<^verbatim>\<open>FixIntType<N + 1>\<close>.\<close>

theorem lru_fields_fit:
  assumes "0 < n" "n + 1 < 2 ^ 64" "list_all (lru_op_ok kv_first) ps"
  shows "\<exists>s rs t. lru_static sz n = Some s \<and> lru_run (lm_step triv hash) ps s = Some (rs, t)
    \<and> (\<forall>x \<in> ms_fields (lru_base t). x < 2 ^ int_width (fix_int_type n))
    \<and> (\<forall>x \<in> lru_fields t. x < 2 ^ int_width (fix_int_type (n + 1)))"
proof -
  from lru_static_ok [OF assms(1), of sz triv "pair_hash hash" kv_first] obtain s :: "('a, 'b) kv mem_lru" where
    s: "lru_static sz n = Some s" "lm_ok triv hash s" "lru_max s = n" by auto
  from s(1) obtain b where "s = lru_new n b" by (auto simp: lru_static_def bind_eq_Some_conv)
  then have "lru_fits s" using lru_new_fits by blast
  from mmap.lru_run_refines [OF s(2) assms(3)] obtain rs t where
    t: "lru_run (lm_step triv hash) ps s = Some (rs, t)" "lm_ok triv hash t" "lru_max t = n"
    unfolding lm_step_def s(3) by blast
  have f: "lru_fits t" using lru_run_bounded [OF \<open>lru_fits s\<close>] t(1) unfolding lm_step_def by blast
  have "x \<le> n" if "x \<in> ms_fields (lru_base t)" for x
    using ms_fields_bounded [OF lru_okD(1) [OF t(2)] _ that] f t(3) by (simp add: lru_fits_def lru_max_def)
  moreover have "x \<le> n" if "x \<in> lru_fields t" for x
    using links_bounded_fields [of n "lru_link t"] f t(3) that by (simp add: lru_fits_def lru_fields_def)
  moreover have "n < 2 ^ int_width (fix_int_type n)" "n < 2 ^ int_width (fix_int_type (n + 1))"
    using fix_int_type_fits [of n] fix_int_type_fits [OF assms(2)] assms(2) by simp_all
  ultimately show ?thesis using s(1) t(1) by (meson le_less_trans)
qed

theorem lru_fields_fit_witness:
  "\<exists>s rs t. lru_static 8 2 = Some s \<and> lru_run (lm_step False (\<lambda>k. k)) lm_demo_ops s = Some (rs, t)
    \<and> (\<forall>x \<in> ms_fields (lru_base t). x < 2 ^ 8)"
proof -
  have "fix_int_type 2 = Uint8" by code_simp
  then show ?thesis using lru_fields_fit [of 2 lm_demo_ops 8 False "\<lambda>k. k"]
    by (auto simp: lm_demo_ops_def lru_keeps_key_def)
qed

end
