(* ===== verification/Spec2Isabelle.thy ===== *)
theory Spec2Isabelle
  imports MemLru MemList FixedRingBuf TraitsUtils FixedVector FixedMemPool LockFreeQueue Timers Statistics ServerCore PbContext UnfixedRingBuf HashMemPool ProtectedMemPool FileUtils Patterns Widths
begin

text \<open>
  \<^bold>\<open>The svr_framework library.\<close>  The repository is a C++20 framework for game servers: containers that
  live in plain or shared memory and use indices instead of pointers (\<^verbatim>\<open>src/containers\<close>), time and id
  services (\<^verbatim>\<open>src/common\<close>), the life cycle of a server with its modules, timers and suspended requests
  (\<^verbatim>\<open>src/core\<close>), an RPC engine over protobuf messages (\<^verbatim>\<open>src/pb\<close>) and two patterns (\<^verbatim>\<open>src/patterns\<close>).
  \<^verbatim>\<open>ServerCore\<close> drives everything: in each frame it lets the channels receive, hands packages to
  \<^verbatim>\<open>PBService\<close>, fires timers through \<^verbatim>\<open>TimeoutDecorator\<close> and ticks the modules of \<^verbatim>\<open>SystemMgr\<close>.  A request
  becomes a server context; a method that calls another server suspends in \<^verbatim>\<open>ContextController\<close> until the
  answer or the timeout resumes it.

  \<^bold>\<open>How code is modelled.\<close>  A class is a record of its members and a method a function that takes the
  record and returns it updated.  A failed assertion, a read of an object that does not live or out of
  bounds is \<^term>\<open>None\<close>.  A loop that need not end is a \<^verbatim>\<open>partial_function\<close> over option, so that not
  returning is \<^term>\<open>None\<close> too and the properties, which have \<^verbatim>\<open>= Some\<close> in their statements, include
  termination; no fuel is used.  Integers are words of their width wherever the code relies on or
  suffers from wrapping (ids, times, sizes, flags, counters, lengths); the indices of the containers
  are natural numbers, and theory Widths shows that they fit the types the code stores them in.
  Code outside of the repository (protobuf, the user's methods and callbacks, the plug-ins behind
  \<^verbatim>\<open>src/core/interface\<close>, system calls) is a record of functions that the operations take as an
  argument, the closures the code stores are values of data types.

  \<^bold>\<open>Foundations.\<close>
  \<^item> Prelude: assertions, walks and searches along index chains, list lemmas.
  \<^item> Interfaces: the contracts as locales: \<open>bounded_fifo\<close> and \<open>overwriting_fifo\<close> (rings, list, lock-free
    queue) with what a client may conclude about feeding and draining; \<open>keyed_base\<close> and \<open>keyed_store\<close>
    (hash containers) with the refinement of runs by finite maps.
  \<^item> Links and Slots: doubly linked index lists (\<^verbatim>\<open>inner/base_struct.h\<close>) and the division of an array into
    used, freed and untouched slots, which the list, the LRU containers and the pools share.
  \<^item> TraitsUtils (\<^verbatim>\<open>inner/traits_utils.h\<close>): index types, the bucket count and its prime search.

  \<^bold>\<open>Containers.\<close>
  \<^item> FixedRingBuf (\<^verbatim>\<open>fixed_ring_buf.h\<close>, \<^verbatim>\<open>inner/ring_buf_data.h\<close>): both data layers; an overwriting ring
    keeps the newest elements.  UnfixedRingBuf (\<^verbatim>\<open>unfixed_ring_buf.h\<close>): entries of any length over the
    bytes of the buffer, with the padding at its end; every run is a queue of byte strings.
  \<^item> FixedVector (\<^verbatim>\<open>fixed_vector.h\<close>): runs refine bounded lists; iteration in both directions.
  \<^item> MemList (\<^verbatim>\<open>inner/base_mem_list.h\<close>), MemSet (\<^verbatim>\<open>inner/base_mem_set.h\<close>, \<^verbatim>\<open>mem_set_data.h\<close>,
    \<^verbatim>\<open>mem_set.h\<close>, \<^verbatim>\<open>mem_map.h\<close>), MemLru (\<^verbatim>\<open>inner/base_mem_lru_set.h\<close>, \<^verbatim>\<open>mem_lru_set.h\<close>, \<^verbatim>\<open>mem_lru_map.h\<close>):
    each has an invariant on its chains, the effect of every operation on it, and the theorem that any
    run of operations on a new container is a run on an ordinary list or map, object lifetimes
    included.  The locale \<open>hash_eq\<close> holds what hashing and equality owe the set.
  \<^item> Widths: no stored index or counter leaves the range of the type \<^verbatim>\<open>FixIntType\<close> picks.
  \<^item> FixedMemPool, HashMemPool, ProtectedMemPool: layout of the block, allocation without overlap or
    double free, attaching to an existing block; the hash map over the pool; the page behind each node.
  \<^item> LockFreeQueue (\<^verbatim>\<open>queue_lock_free.h\<close>): the calls as sequences of atomic steps of any number of
    producers and one consumer, an \<^verbatim>\<open>inductive\<close> step relation with its invariants, first-in first-out
    order, exclusive slots, and agreement with the calls of a single thread.

  \<^bold>\<open>Core and RPC.\<close>
  \<^item> Timers (\<^verbatim>\<open>clock.h\<close>, \<^verbatim>\<open>id_generator\<close>, \<^verbatim>\<open>timeout_queue\<close>): unique ids; expiry in order and termination of
    \<^verbatim>\<open>TimeOut\<close>, in the locale \<open>timer_host\<close> of what a task may do to the queue that runs it.
  \<^item> Statistics (\<^verbatim>\<open>rpc_error.h\<close>, \<^verbatim>\<open>server_statistics.h\<close>, \<^verbatim>\<open>logger.h\<close>), SystemMgr (\<^verbatim>\<open>system_mgr\<close>,
    \<^verbatim>\<open>generate_type_id.h\<close>), Patterns (\<^verbatim>\<open>obj_factory.h\<close>, \<^verbatim>\<open>wait_group.h\<close>, \<^verbatim>\<open>coro_mgr.h\<close>), FileUtils
    (\<^verbatim>\<open>common/utils.cpp\<close>: no descriptor leaks on any path).
  \<^item> ContextCtl (\<^verbatim>\<open>context.h\<close>, \<^verbatim>\<open>context_mgr\<close>, \<^verbatim>\<open>context_controller\<close>): pending and awaking; a call is
    answered once, by its answer or its timeout.  TimeoutDeco (\<^verbatim>\<open>timeout_decorator\<close>): an event is dealt
    with once.
  \<^item> Transport (\<^verbatim>\<open>transport\<close>, \<^verbatim>\<open>intercepter.h\<close>), PBService (\<^verbatim>\<open>pb_service\<close>), PbContext (\<^verbatim>\<open>pb_context\<close>): sending
    within the buffer, the life of a request, packages that crashed the server skipped after the
    restart, and who owns the messages of a request.
  \<^item> ServerCore (\<^verbatim>\<open>server_core\<close>): start, frame, flow control within its bounds, stopping when drained.
  The worlds of these theories extend each other as records, so an operation of a lower component
  runs unchanged on the state of a higher one.

  \<^bold>\<open>Bounds.\<close>  The results on widths need a capacity below \<open>2 ^ 64 - 1\<close>, those on the vector a capacity
  below \<open>2 ^ 32 - 1\<close>; the theorem on the prime search covers the sizes up to 800001, above which
  the code returns the size itself; \<^verbatim>\<open>TimeOut\<close> returns for times that leave room for one interval below \<open>2 ^ 64\<close>.

  \<^bold>\<open>Not modelled.\<close>  \<^verbatim>\<open>singleton.h\<close> decides where an object lives and has no other behaviour.  The
  classes under \<^verbatim>\<open>src/core/interface\<close> have no bodies; they are parameters.  The real-time clock and
  the text of log lines are input and output.  Without \<^verbatim>\<open>PB_ARENA\<close> the message wrapper is the
  message.  The lock-free queue is modelled with sequentially consistent steps; the acquire and
  release orders the code asks for are taken to suffice for them.
\<close>

end
